(* ===== verification/Prelude.thy ===== *)
theory Prelude
  imports Main "HOL-Library.Word" "HOL-Library.Code_Target_Nat"
begin

text \<open>
  Shared vocabulary of the HXNU development.

  \<^item> Machine integers: \<open>u8\<close> \dots \<open>u64\<close> are words.  The kernel is built with
    \<^verbatim>\<open>cargo build --release\<close>, so plain \<open>+\<close>, \<open>-\<close>, \<open>*\<close> on words wrap; the
    \<^verbatim>\<open>saturating_\<close>, \<^verbatim>\<open>checked_\<close> and \<^verbatim>\<open>wrapping_\<close> methods of the Rust library are
    the functions below.  A \<^verbatim>\<open>usize\<close> that only ever counts or indexes is a \<open>nat\<close>;
    where the source guards it against overflow the bound \<open>usize_max\<close> is written out.
  \<^item> Failure: a Rust \<^verbatim>\<open>Result\<close> that can also panic is an \<open>outcome\<close>, whose left side is
    either \<open>Panic\<close> or an error value.  Every indexing and slicing step of a parser goes
    through \<open>index_at\<close> and \<open>slice_at\<close>, which panic out of range exactly as Rust does.
  \<^item> Byte order: \<open>to_le\<close> and \<open>of_le\<close> are \<^verbatim>\<open>to_le_bytes\<close> and \<^verbatim>\<open>from_le_bytes\<close>.
\<close>

unbundle bit_operations_syntax

section \<open>Collections of rewrite rules\<close>

named_theorems outcome_simps \<open>rewriting of and_then, index_at and slice_at\<close>
named_theorems word_nat \<open>the value of a word operation as a natural number\<close>

section \<open>Machine integers\<close>

type_synonym u8 = "8 word"
type_synonym u16 = "16 word"
type_synonym u32 = "32 word"
type_synonym u64 = "64 word"
type_synonym bytes = "u8 list"

definition sat_add :: "'a::len word \<Rightarrow> 'a word \<Rightarrow> 'a word" where
  "sat_add a b = (if unat a + unat b < 2 ^ LENGTH('a) then a + b else - 1)"

definition sat_sub :: "'a::len word \<Rightarrow> 'a word \<Rightarrow> 'a word" where
  "sat_sub a b = (if b \<le> a then a - b else 0)"

definition sat_mul :: "'a::len word \<Rightarrow> 'a word \<Rightarrow> 'a word" where
  "sat_mul a b = (if unat a * unat b < 2 ^ LENGTH('a) then a * b else - 1)"

definition checked_add :: "'a::len word \<Rightarrow> 'a word \<Rightarrow> 'a word option" where
  "checked_add a b = (if unat a + unat b < 2 ^ LENGTH('a) then Some (a + b) else None)"

definition checked_sub :: "'a::len word \<Rightarrow> 'a word \<Rightarrow> 'a word option" where
  "checked_sub a b = (if b \<le> a then Some (a - b) else None)"

definition checked_mul :: "'a::len word \<Rightarrow> 'a word \<Rightarrow> 'a word option" where
  "checked_mul a b = (if unat a * unat b < 2 ^ LENGTH('a) then Some (a * b) else None)"

definition usize_max :: nat where
  "usize_max = 2 ^ 64 - 1"

definition usize_sat_add :: "nat \<Rightarrow> nat \<Rightarrow> nat" where
  "usize_sat_add a b = min (a + b) usize_max"

definition usize_checked_add :: "nat \<Rightarrow> nat \<Rightarrow> nat option" where
  "usize_checked_add a b = (if a + b \<le> usize_max then Some (a + b) else None)"

lemma unat_u64_less: "unat (x :: u64) < 18446744073709551616"
proof -
  have "unat x < 2 ^ LENGTH(64)"
    by (rule unsigned_less)
  then show ?thesis by simp
qed

lemma unat_minus_one_word [word_nat]: "unat (- 1 :: 'a::len word) = 2 ^ LENGTH('a) - 1"
  using mask_eq_exp_minus_1 [of "LENGTH('a)", where ?'a = nat]
  by (simp add: unsigned_minus_1_eq_mask)

lemma unat_sat_add [word_nat]:
  "unat (sat_add a b) = min (unat a + unat b) (2 ^ LENGTH('a) - 1)" for a b :: "'a::len word"
  by (auto simp: sat_add_def unat_word_ariths unat_minus_one_word)

lemma unat_sat_sub [word_nat]: "unat (sat_sub a b) = unat a - unat b"
  by (auto simp: sat_sub_def unat_sub word_le_nat_alt)

lemma unat_sat_mul [word_nat]:
  "unat (sat_mul a b) = min (unat a * unat b) (2 ^ LENGTH('a) - 1)" for a b :: "'a::len word"
  by (auto simp: sat_mul_def unat_word_ariths unat_minus_one_word)

lemma checked_add_Some:
  "checked_add a b = Some c \<longleftrightarrow> unat a + unat b < 2 ^ LENGTH('a) \<and> c = a + b"
  for a b c :: "'a::len word"
  by (auto simp: checked_add_def)

lemma unat_add_less:
  "unat a + unat b < 2 ^ LENGTH('a) \<Longrightarrow> unat (a + b) = unat a + unat b"
  for a b :: "'a::len word"
  by (simp add: unat_word_ariths)

lemma checked_add_None:
  "checked_add a b = None \<longleftrightarrow> 2 ^ LENGTH('a) \<le> unat a + unat b" for a b :: "'a::len word"
  by (auto simp: checked_add_def)

lemma usize_sat_add_small [simp]: "a + b \<le> usize_max \<Longrightarrow> usize_sat_add a b = a + b"
  by (simp add: usize_sat_add_def)

lemma usize_checked_add_small [simp]: "a + b \<le> usize_max \<Longrightarrow> usize_checked_add a b = Some (a + b)"
  by (simp add: usize_checked_add_def)

section \<open>Alignment\<close>

text \<open>Masking with the complement of \<open>2 ^ n - 1\<close> clears the low \<open>n\<close> bits.\<close>

lemma and_not_mask_eq: "x AND NOT (mask n) = x - take_bit n x" for x :: "'a::len word"
proof -
  have "x = (x AND mask n) + (x AND NOT (mask n))"
    by (subst disjunctive_add) (auto simp: bit_simps bit_eq_iff)
  then show ?thesis
    by (simp add: take_bit_eq_mask algebra_simps)
qed

lemma unat_take_bit: "unat (take_bit n x) = unat x mod 2 ^ n" for x :: "'a::len word"
  by (simp add: unsigned_take_bit_eq flip: take_bit_eq_mod)

lemma unat_and_not_mask [word_nat]:
  "unat (x AND NOT (mask n)) = unat x - unat x mod 2 ^ n" for x :: "'a::len word"
proof -
  have "take_bit n x \<le> x"
    by (simp add: word_le_nat_alt unat_take_bit)
  then show ?thesis
    by (simp add: and_not_mask_eq unat_sub unat_take_bit)
qed

lemma nat_sub_mod_dvd: "(d::nat) dvd x - x mod d"
  by (simp add: dvd_minus_mod)

lemma nat_sub_mod_le_add: "(x::nat) \<le> (x + (d - 1)) - (x + (d - 1)) mod d" if "0 < d"
proof -
  have "(x + (d - 1)) mod d < d" using that by simp
  then show ?thesis using that by linarith
qed


section \<open>Outcomes\<close>

datatype 'e failure = Panic | Err 'e

type_synonym ('e, 'a) outcome = "'e failure + 'a"

abbreviation Ok :: "'a \<Rightarrow> 'e + 'a" where
  "Ok \<equiv> Inr"

abbreviation Fail :: "'e \<Rightarrow> ('e, 'a) outcome" where
  "Fail e \<equiv> Inl (Err e)"

abbreviation Abort :: "('e, 'a) outcome" where
  "Abort \<equiv> Inl Panic"

text \<open>The \<^verbatim>\<open>?\<close> operator: stop at the first failure.\<close>

definition and_then :: "'e + 'a \<Rightarrow> ('a \<Rightarrow> 'e + 'b) \<Rightarrow> 'e + 'b" where
  "and_then r f = (case r of Inl e \<Rightarrow> Inl e | Inr x \<Rightarrow> f x)"

lemma and_then_simps [simp, outcome_simps]:
  "and_then (Inl e) f = Inl e" "and_then (Inr x) f = f x"
  by (simp_all add: and_then_def)

lemma and_then_Inr:
  "and_then r f = Inr y \<longleftrightarrow> (\<exists>x. r = Inr x \<and> f x = Inr y)"
  by (cases r) auto

lemma and_then_InrE:
  assumes "and_then r f = Inr y" obtains x where "r = Inr x" and "f x = Inr y"
  using assms by (auto simp: and_then_Inr)

lemma and_then_Inl:
  "and_then r f = Inl e \<longleftrightarrow> r = Inl e \<or> (\<exists>x. r = Inr x \<and> f x = Inl e)"
  by (cases r) auto

text \<open>The same for code that also writes to a buffer: the buffer survives the failure.\<close>

definition st_then :: "'s \<times> ('e + 'a) \<Rightarrow> ('s \<Rightarrow> 'a \<Rightarrow> 's \<times> ('e + 'b)) \<Rightarrow> 's \<times> ('e + 'b)" where
  "st_then r f = (case r of (s, Inl e) \<Rightarrow> (s, Inl e) | (s, Inr x) \<Rightarrow> f s x)"

lemma st_then_simps [simp, outcome_simps]:
  "st_then (s, Inl e) f = (s, Inl e)" "st_then (s, Inr x) f = f s x"
  by (simp_all add: st_then_def)

lemma st_then_cong [fundef_cong]:
  "r = r' \<Longrightarrow> (\<And>s x. r' = (s, Inr x) \<Longrightarrow> f s x = g s x) \<Longrightarrow> st_then r f = st_then r' g"
  by (auto simp: st_then_def split: prod.splits sum.splits)

lemma and_then_cong [fundef_cong]:
  "r = r' \<Longrightarrow> (\<And>x. r' = Inr x \<Longrightarrow> f x = g x) \<Longrightarrow> and_then r f = and_then r' g"
  by (auto simp: and_then_def split: sum.splits)

lemma st_then_Inr:
  "st_then r f = (s', Inr y) \<longleftrightarrow> (\<exists>s x. r = (s, Inr x) \<and> f s x = (s', Inr y))"
  by (cases r; cases "snd r") (auto simp: st_then_def)

lemma st_then_Inl:
  "st_then r f = (s', Inl e) \<longleftrightarrow> r = (s', Inl e) \<or> (\<exists>s x. r = (s, Inr x) \<and> f s x = (s', Inl e))"
  by (cases r; cases "snd r") (auto simp: st_then_def)

text \<open>\<open>returns r P\<close>: the computation neither fails nor panics, and its value satisfies \<open>P\<close>.\<close>

definition returns :: "'e + 'a \<Rightarrow> ('a \<Rightarrow> bool) \<Rightarrow> bool" where
  "returns r P = (case r of Inl e \<Rightarrow> False | Inr x \<Rightarrow> P x)"

lemma returns_simps [simp]: "returns (Inl e) P = False" "returns (Inr x) P = P x"
  by (simp_all add: returns_def)

lemma returns_and_then [simp]: "returns (and_then r f) P = returns r (\<lambda>x. returns (f x) P)"
  by (cases r) simp_all

lemma returns_mono: "returns r P \<Longrightarrow> (\<And>x. P x \<Longrightarrow> Q x) \<Longrightarrow> returns r Q"
  by (cases r) simp_all

lemma returnsE: assumes "returns r P" obtains x where "r = Inr x" and "P x"
  using assms by (cases r) simp_all

lemma returns_iff: "returns r P \<longleftrightarrow> (\<exists>x. r = Inr x \<and> P x)"
  by (cases r) simp_all

text \<open>\<open>yields r P\<close>: the computation does not panic, and if it succeeds its value satisfies \<open>P\<close>.\<close>

definition yields :: "('e, 'a) outcome \<Rightarrow> ('a \<Rightarrow> bool) \<Rightarrow> bool" where
  "yields r P = (case r of Inl Panic \<Rightarrow> False | Inl (Err e) \<Rightarrow> True | Inr x \<Rightarrow> P x)"

lemma yields_simps [simp]: "\<not> yields Abort P" "yields (Fail e) P" "yields (Inr x) P = P x"
  by (simp_all add: yields_def)

lemma yields_and_then [simp]: "yields (and_then r f) P = yields r (\<lambda>x. yields (f x) P)"
  by (cases r) (auto simp: yields_def split: failure.splits)

lemma yields_mono: "yields r P \<Longrightarrow> (\<And>x. P x \<Longrightarrow> Q x) \<Longrightarrow> yields r Q"
  by (cases r) (auto simp: yields_def split: failure.splits)

lemma yields_if: "(b \<Longrightarrow> yields r P) \<Longrightarrow> (\<not> b \<Longrightarrow> yields r' P) \<Longrightarrow> yields (if b then r else r') P"
  by simp

lemma yields_iff: "yields r P \<longleftrightarrow> r \<noteq> Abort \<and> (\<forall>x. r = Ok x \<longrightarrow> P x)"
  by (cases r) (auto simp: yields_def split: failure.splits)

definition ok_or :: "'a option \<Rightarrow> 'e \<Rightarrow> ('e, 'a) outcome" where
  "ok_or x e = (case x of None \<Rightarrow> Fail e | Some v \<Rightarrow> Ok v)"

lemma ok_or_simps [simp, outcome_simps]:
  "ok_or None e = Fail e" "ok_or (Some v) e = Ok v"
  by (simp_all add: ok_or_def)

lemma yields_ok_or [simp]: "yields (ok_or x e) P = (\<forall>v. x = Some v \<longrightarrow> P v)"
  by (cases x) simp_all

lemma ok_or_Inr: "ok_or x e = Inr v \<longleftrightarrow> x = Some v"
  by (cases x) auto

lemma ok_or_no_panic [simp]: "ok_or x e \<noteq> Abort"
  by (cases x) auto

text \<open>\<^verbatim>\<open>a.checked_add(n).is_none_or(|end| end > limit)\<close>, the guard of every buffer access.\<close>

definition past_end :: "nat \<Rightarrow> nat \<Rightarrow> nat \<Rightarrow> bool" where
  "past_end a n limit = (case usize_checked_add a n of None \<Rightarrow> True | Some e \<Rightarrow> limit < e)"

lemma past_end_iff: "past_end a n limit \<longleftrightarrow> limit < a + n \<or> usize_max < a + n"
  by (auto simp: past_end_def usize_checked_add_def)

text \<open>Indexing and slicing with Rust's bounds checks.\<close>

definition index_at :: "'a list \<Rightarrow> nat \<Rightarrow> ('e, 'a) outcome" where
  "index_at xs i = (if i < length xs then Ok (xs ! i) else Abort)"

definition slice :: "'a list \<Rightarrow> nat \<Rightarrow> nat \<Rightarrow> 'a list" where
  "slice xs i j = take (j - i) (drop i xs)"

definition slice_at :: "'a list \<Rightarrow> nat \<Rightarrow> nat \<Rightarrow> ('e, 'a list) outcome" where
  "slice_at xs i j = (if i \<le> j \<and> j \<le> length xs then Ok (slice xs i j) else Abort)"

text \<open>\<^verbatim>\<open>xs[i..i + ys.len()].copy_from_slice(ys)\<close>\<close>

definition copy_into :: "'a list \<Rightarrow> nat \<Rightarrow> 'a list \<Rightarrow> 'a list" where
  "copy_into xs i ys = take i xs @ ys @ drop (i + length ys) xs"

definition copy_at :: "'a list \<Rightarrow> nat \<Rightarrow> 'a list \<Rightarrow> ('e, 'a list) outcome" where
  "copy_at xs i ys = (if i + length ys \<le> length xs then Ok (copy_into xs i ys) else Abort)"

lemma index_at_ok [simp, outcome_simps]: "i < length xs \<Longrightarrow> index_at xs i = Ok (xs ! i)"
  by (simp add: index_at_def)

lemma slice_at_ok [simp, outcome_simps]:
  "i \<le> j \<Longrightarrow> j \<le> length xs \<Longrightarrow> slice_at xs i j = Ok (slice xs i j)"
  by (simp add: slice_at_def)

lemma copy_at_ok [simp, outcome_simps]:
  "i + length ys \<le> length xs \<Longrightarrow> copy_at xs i ys = Ok (copy_into xs i ys)"
  by (simp add: copy_at_def)

definition set_at :: "'a list \<Rightarrow> nat \<Rightarrow> 'a \<Rightarrow> ('e, 'a list) outcome" where
  "set_at xs i x = (if i < length xs then Ok (xs[i := x]) else Abort)"

lemma set_at_ok [simp, outcome_simps]: "i < length xs \<Longrightarrow> set_at xs i x = Ok (xs[i := x])"
  by (simp add: set_at_def)

lemma length_slice [simp]: "j \<le> length xs \<Longrightarrow> length (slice xs i j) = j - i"
  by (simp add: slice_def)

lemma slice_eq_Nil [simp]: "slice xs i j = [] \<longleftrightarrow> j \<le> i \<or> length xs \<le> i"
  by (auto simp: slice_def)

lemma slice_full [simp]: "slice xs 0 (length xs) = xs"
  by (simp add: slice_def)

lemma nth_slice: "k < j - i \<Longrightarrow> j \<le> length xs \<Longrightarrow> slice xs i j ! k = xs ! (i + k)"
  by (simp add: slice_def)

lemma slice_append_left: "j \<le> length xs \<Longrightarrow> slice (xs @ ys) i j = slice xs i j"
  by (simp add: slice_def)

lemma slice_append_mid: "slice (xs @ ys @ zs) (length xs) (length xs + length ys) = ys"
  by (simp add: slice_def)

lemma slice_mid: "i = length xs \<Longrightarrow> j = i + length ys \<Longrightarrow> slice (xs @ ys @ zs) i j = ys"
  by (simp add: slice_def)

lemma slice_end: "i = length xs \<Longrightarrow> j = i + length ys \<Longrightarrow> slice (xs @ ys) i j = ys"
  by (simp add: slice_def)

lemma copy_into_prefix:
  "length pre = i \<Longrightarrow> copy_into (pre @ rest) i ys = pre @ ys @ drop (length ys) rest"
  by (simp add: copy_into_def)

lemma take_append_slice: "i \<le> j \<Longrightarrow> j \<le> length xs \<Longrightarrow> take i xs @ slice xs i j = take j xs"
  by (metis le_add_diff_inverse slice_def take_add)

lemma length_copy_into [simp]:
  "i + length ys \<le> length xs \<Longrightarrow> length (copy_into xs i ys) = length xs"
  by (simp add: copy_into_def)

lemma take_copy_into [simp]:
  "i + length ys \<le> length xs \<Longrightarrow> take (i + length ys) (copy_into xs i ys) = take i xs @ ys"
  by (simp add: copy_into_def)

lemma take_copy_into_before:
  "j \<le> i \<Longrightarrow> i \<le> length xs \<Longrightarrow> take j (copy_into xs i ys) = take j xs"
  by (simp add: copy_into_def min_def)

lemma drop_copy_into_after:
  "i + length ys \<le> j \<Longrightarrow> i + length ys \<le> length xs \<Longrightarrow> drop j (copy_into xs i ys) = drop j xs"
  by (simp add: copy_into_def)

section \<open>Little-endian byte strings\<close>

fun to_le :: "nat \<Rightarrow> 'a::len word \<Rightarrow> bytes" where
  "to_le 0 w = []"
| "to_le (Suc n) w = ucast w # to_le n (drop_bit 8 w)"

fun of_le :: "bytes \<Rightarrow> 'a::len word" where
  "of_le [] = 0"
| "of_le (b # bs) = ucast b OR push_bit 8 (of_le bs)"

lemma length_to_le [simp]: "length (to_le n w) = n"
  by (induction n arbitrary: w) auto

lemma to_le_eq_Nil [simp]: "to_le n w = [] \<longleftrightarrow> n = 0"
  by (metis length_0_conv length_to_le)

lemma of_le_to_le: "of_le (to_le n w) = take_bit (8 * n) w"
proof (induction n arbitrary: w)
  case 0
  then show ?case by simp
next
  case (Suc n)
  show ?case
    by (rule bit_word_eqI)
      (auto simp: Suc.IH bit_simps less_diff_conv not_less add.commute)
qed

lemma of_le_to_le_full [simp]:
  "LENGTH('a) \<le> 8 * n \<Longrightarrow> of_le (to_le n w) = w" for w :: "'a::len word"
  by (simp add: of_le_to_le take_bit_word_eq_self)

lemma to_le_of_le:
  "length bs = n \<Longrightarrow> 8 * n \<le> LENGTH('a::len) \<Longrightarrow> to_le n (of_le bs :: 'a word) = bs"
proof (induction bs arbitrary: n)
  case Nil
  then show ?case by simp
next
  case (Cons b bs)
  then obtain k where n: "n = Suc k" "length bs = k"
    by auto
  have low: "ucast (ucast b OR push_bit 8 (of_le bs) :: 'a word) = b"
    using Cons.prems n by (intro bit_word_eqI) (auto simp: bit_simps)
  have high: "bit (of_le bs :: 'a word) m \<Longrightarrow> m < 8 * length bs" for m
  proof (induction bs arbitrary: m)
    case (Cons c cs)
    have "bit c m \<Longrightarrow> m < 8"
      using bit_imp_le_length [of c m] by simp
    with Cons.prems Cons.IH [of "m - 8"] show ?case
      by (auto simp: bit_simps)
  qed simp
  have "drop_bit 8 (ucast b OR push_bit 8 (of_le bs) :: 'a word) = of_le bs"
  proof (rule bit_word_eqI)
    fix m
    have "\<not> bit b (8 + m)"
      using bit_imp_le_length [of b "8 + m"] by auto
    then show "bit (drop_bit 8 (ucast b OR push_bit 8 (of_le bs) :: 'a word)) m
        = bit (of_le bs :: 'a word) m"
      using Cons.prems n high [of m] by (auto simp: bit_simps)
  qed
  with low Cons n show ?case
    by simp
qed

declare of_le.simps [simp del]

section \<open>Trailing zeros\<close>

definition trailing_zeros :: "u64 \<Rightarrow> nat" where
  "trailing_zeros w = length (takeWhile (\<lambda>i. \<not> bit w i) [0 ..< 64])"

lemma trailing_zeros_le: "trailing_zeros w \<le> 64"
  using length_takeWhile_le [of "\<lambda>i. \<not> bit w i" "[0 ..< 64]"] by (simp add: trailing_zeros_def)

lemma trailing_zeros_below: "i < trailing_zeros w \<Longrightarrow> \<not> bit w i"
proof -
  assume i: "i < trailing_zeros w"
  then have "takeWhile (\<lambda>i. \<not> bit w i) [0 ..< 64] ! i \<in> set (takeWhile (\<lambda>i. \<not> bit w i) [0 ..< 64])"
    by (simp add: trailing_zeros_def)
  moreover have "takeWhile (\<lambda>i. \<not> bit w i) [0 ..< 64] ! i = i"
    using i trailing_zeros_le [of w] by (simp add: trailing_zeros_def takeWhile_nth)
  ultimately show ?thesis
    by (auto dest: set_takeWhileD)
qed

lemma trailing_zeros_bit: "trailing_zeros w < 64 \<Longrightarrow> bit w (trailing_zeros w)"
  using nth_length_takeWhile [of "\<lambda>i. \<not> bit w i" "[0 ..< 64]"] by (simp add: trailing_zeros_def)

lemma trailing_zeros_less: "w \<noteq> 0 \<Longrightarrow> trailing_zeros w < 64"
proof (rule ccontr)
  assume w: "w \<noteq> 0" and "\<not> trailing_zeros w < 64"
  then have "trailing_zeros w = 64"
    using trailing_zeros_le [of w] by simp
  then have "w = 0"
    using trailing_zeros_below [of _ w] by (intro bit_word_eqI) simp
  with w show False ..
qed

lemma trailing_zeros_0 [simp]: "trailing_zeros 0 = 64"
  using trailing_zeros_bit [of 0] trailing_zeros_le [of 0] by fastforce

section \<open>Lists searched from the front\<close>

text \<open>
  The index of the first element satisfying a predicate: the shape of every
  linear search over a fixed table in the kernel.
\<close>

fun find_index :: "('a \<Rightarrow> bool) \<Rightarrow> 'a list \<Rightarrow> nat option" where
  "find_index P [] = None"
| "find_index P (x # xs) = (if P x then Some 0 else map_option Suc (find_index P xs))"

lemma find_index_None: "find_index P xs = None \<longleftrightarrow> (\<forall>x \<in> set xs. \<not> P x)"
  by (induction xs) auto

lemma find_index_SomeD:
  "find_index P xs = Some i \<Longrightarrow> i < length xs \<and> P (xs ! i) \<and> (\<forall>j < i. \<not> P (xs ! j))"
proof (induction xs arbitrary: i)
  case (Cons x xs)
  then show ?case
    by (cases i) (auto simp: less_Suc_eq_0_disj split: if_splits)
qed simp

lemma find_index_eqI:
  "i < length xs \<Longrightarrow> P (xs ! i) \<Longrightarrow> (\<And>j. j < i \<Longrightarrow> \<not> P (xs ! j)) \<Longrightarrow> find_index P xs = Some i"
proof (induction xs arbitrary: i)
  case (Cons x xs)
  show ?case
  proof (cases i)
    case 0
    with Cons.prems show ?thesis by simp
  next
    case (Suc k)
    with Cons.prems(3) [of 0] have "\<not> P x" by simp
    moreover have "find_index P xs = Some k"
      using Cons.prems Suc by (intro Cons.IH) (auto, fastforce)
    ultimately show ?thesis using Suc by simp
  qed
qed simp

end
