(* ===== verification/Frame.thy ===== *)
theory Frame
  imports Prelude
begin

text \<open>
  The physical frame allocator, \<^verbatim>\<open>kernel/src/mm/frame.rs\<close>, with the entries of the
  boot loader's memory map it reads (\<^verbatim>\<open>kernel/src/limine.rs\<close>).  The global
  \<^verbatim>\<open>FRAME_ALLOCATOR\<close> is a state passed to and returned by every operation.  The lemmas
  show that whatever sequence of requests is made, the ranges handed out are page
  aligned, lie in usable memory above the first megabyte and never overlap, and that
  the allocator gives up only when no page is left.
\<close>

section \<open>The boot memory map\<close>

datatype memory_map_entry_type =
    Usable | Reserved | AcpiReclaimable | AcpiNvs | BadMemory | BootloaderReclaimable
  | ExecutableAndModules | Framebuffer | UnknownType u64

definition entry_type_from_raw :: "u64 \<Rightarrow> memory_map_entry_type" where
  "entry_type_from_raw raw =
     (if raw = 0 then Usable
      else if raw = 1 then Reserved
      else if raw = 2 then AcpiReclaimable
      else if raw = 3 then AcpiNvs
      else if raw = 4 then BadMemory
      else if raw = 5 then BootloaderReclaimable
      else if raw = 6 then ExecutableAndModules
      else if raw = 7 then Framebuffer
      else UnknownType raw)"

record memory_map_entry =
  mm_base :: u64
  mm_length :: u64
  mm_entry_type :: memory_map_entry_type

definition is_usable :: "memory_map_entry \<Rightarrow> bool" where
  "is_usable e \<longleftrightarrow> mm_entry_type e = Usable"

section \<open>State and operations\<close>

definition PAGE_SIZE :: u64 where
  "PAGE_SIZE = 4096"

definition MAX_USABLE_REGIONS :: nat where
  "MAX_USABLE_REGIONS = 64"

definition BOOTSTRAP_RESERVED_END :: u64 where
  "BOOTSTRAP_RESERVED_END = 0x00100000"

record frame_region =
  fr_start :: u64
  fr_end :: u64
  fr_next :: u64

definition frame_region_empty :: frame_region where
  "frame_region_empty = \<lparr>fr_start = 0, fr_end = 0, fr_next = 0\<rparr>"

definition region_size :: "frame_region \<Rightarrow> u64" where
  "region_size r = sat_sub (fr_end r) (fr_start r)"

definition region_remaining :: "frame_region \<Rightarrow> u64" where
  "region_remaining r = sat_sub (fr_end r) (fr_next r)"

record frame_stats =
  fs_usable_regions :: nat
  fs_total_bytes :: u64
  fs_allocatable_bytes :: u64
  fs_allocated_frames :: u64

datatype frame_init_error = FrameAlreadyInitialized | NoUsableRegions | TooManyRegions

record frame_allocator =
  fa_initialized :: bool
  fa_region_count :: nat
  fa_total_bytes :: u64
  fa_allocatable_bytes :: u64
  fa_allocated_frames :: u64
  fa_regions :: "frame_region list"

definition frame_allocator_new :: frame_allocator where
  "frame_allocator_new =
     \<lparr>fa_initialized = False, fa_region_count = 0, fa_total_bytes = 0,
      fa_allocatable_bytes = 0, fa_allocated_frames = 0,
      fa_regions = replicate MAX_USABLE_REGIONS frame_region_empty\<rparr>"

definition frame_align_up :: "u64 \<Rightarrow> u64 \<Rightarrow> u64" where
  "frame_align_up v alignment =
     (if alignment = 0 then v else sat_add v (alignment - 1) AND NOT (alignment - 1))"

definition frame_align_down :: "u64 \<Rightarrow> u64 \<Rightarrow> u64" where
  "frame_align_down v alignment = (if alignment = 0 then v else v AND NOT (alignment - 1))"

definition frame_stats_of :: "frame_allocator \<Rightarrow> frame_stats" where
  "frame_stats_of fa =
     \<lparr>fs_usable_regions = fa_region_count fa, fs_total_bytes = fa_total_bytes fa,
      fs_allocatable_bytes = fa_allocatable_bytes fa,
      fs_allocated_frames = fa_allocated_frames fa\<rparr>"

text \<open>One iteration of the loop over the memory map; a \<open>Some\<close> is the early return.\<close>

definition frame_init_entry ::
  "frame_allocator \<Rightarrow> memory_map_entry \<Rightarrow> frame_allocator \<times> frame_init_error option" where
  "frame_init_entry fa e =
     (if \<not> is_usable e then (fa, None)
      else
        let original_end = sat_add (mm_base e) (mm_length e);
            fa = fa\<lparr>fa_total_bytes := sat_add (fa_total_bytes fa) (mm_length e)\<rparr>;
            region_start = frame_align_up (max (mm_base e) BOOTSTRAP_RESERVED_END) PAGE_SIZE;
            region_end = frame_align_down original_end PAGE_SIZE
        in if region_end \<le> region_start then (fa, None)
           else if MAX_USABLE_REGIONS \<le> fa_region_count fa then (fa, Some TooManyRegions)
           else
             let region = \<lparr>fr_start = region_start, fr_end = region_end, fr_next = region_start\<rparr>
             in (fa\<lparr>fa_allocatable_bytes := sat_add (fa_allocatable_bytes fa) (region_size region),
                    fa_regions := (fa_regions fa)[fa_region_count fa := region],
                    fa_region_count := fa_region_count fa + 1\<rparr>, None))"

fun frame_init_loop ::
  "frame_allocator \<Rightarrow> memory_map_entry list \<Rightarrow> frame_allocator \<times> frame_init_error option" where
  "frame_init_loop fa [] = (fa, None)"
| "frame_init_loop fa (e # es) =
     (case frame_init_entry fa e of
        (fa', Some err) \<Rightarrow> (fa', Some err)
      | (fa', None) \<Rightarrow> frame_init_loop fa' es)"

definition frame_initialize ::
  "frame_allocator \<Rightarrow> memory_map_entry list \<Rightarrow> frame_allocator \<times> (frame_init_error + frame_stats)"
  where
  "frame_initialize fa memory_map =
     (if fa_initialized fa then (fa, Inl FrameAlreadyInitialized)
      else case frame_init_loop fa memory_map of
        (fa', Some err) \<Rightarrow> (fa', Inl err)
      | (fa', None) \<Rightarrow>
          if fa_region_count fa' = 0 then (fa', Inl NoUsableRegions)
          else let fa'' = fa'\<lparr>fa_initialized := True\<rparr> in (fa'', Inr (frame_stats_of fa'')))"

text \<open>
  The scan both allocation entry points make over \<^verbatim>\<open>regions[..region_count]\<close>: the first
  region with room for the request is advanced by it.
\<close>

fun frame_scan :: "u64 \<Rightarrow> frame_region list \<Rightarrow> (u64 \<times> frame_region list) option" where
  "frame_scan req [] = None"
| "frame_scan req (r # rs) =
     (if region_remaining r < req then
        map_option (\<lambda>(a, rs'). (a, r # rs')) (frame_scan req rs)
      else Some (fr_next r, r\<lparr>fr_next := sat_add (fr_next r) req\<rparr> # rs))"

definition frame_allocate :: "frame_allocator \<Rightarrow> frame_allocator \<times> u64 option" where
  "frame_allocate fa =
     (if \<not> fa_initialized fa then (fa, None)
      else case frame_scan PAGE_SIZE (take (fa_region_count fa) (fa_regions fa)) of
        None \<Rightarrow> (fa, None)
      | Some (a, rs) \<Rightarrow>
          (fa\<lparr>fa_regions := rs @ drop (fa_region_count fa) (fa_regions fa),
              fa_allocated_frames := sat_add (fa_allocated_frames fa) 1\<rparr>, Some a))"

definition frame_allocate_contiguous ::
  "frame_allocator \<Rightarrow> u64 \<Rightarrow> frame_allocator \<times> u64 option" where
  "frame_allocate_contiguous fa count =
     (if \<not> fa_initialized fa \<or> count = 0 then (fa, None)
      else let requested_bytes = sat_mul count PAGE_SIZE in
        case frame_scan requested_bytes (take (fa_region_count fa) (fa_regions fa)) of
          None \<Rightarrow> (fa, None)
        | Some (a, rs) \<Rightarrow>
            (fa\<lparr>fa_regions := rs @ drop (fa_region_count fa) (fa_regions fa),
                fa_allocated_frames := sat_add (fa_allocated_frames fa) count\<rparr>, Some a))"

section \<open>Alignment\<close>

lemma PAGE_SIZE_minus_1: "PAGE_SIZE - 1 = mask 12"
  by (simp add: PAGE_SIZE_def mask_eq_exp_minus_1)

lemma unat_PAGE_SIZE [simp]: "unat PAGE_SIZE = 4096"
  by (simp add: PAGE_SIZE_def)

lemma PAGE_SIZE_nonzero [simp]: "PAGE_SIZE \<noteq> 0"
  by (simp add: PAGE_SIZE_def)

lemma unat_frame_align_down: "unat (frame_align_down v PAGE_SIZE) = unat v - unat v mod 4096"
  by (simp add: frame_align_down_def PAGE_SIZE_minus_1 word_nat)

lemma unat_mask_12: "unat (mask 12 :: u64) = 4095"
  by (simp add: mask_eq_exp_minus_1)

lemma unat_frame_align_up:
  "unat (frame_align_up v PAGE_SIZE) =
     (let w = min (unat v + 4095) (2 ^ 64 - 1) in w - w mod 4096)"
  by (simp add: frame_align_up_def PAGE_SIZE_minus_1 word_nat Let_def unat_mask_12)

text \<open>
  The region made from a usable entry lies inside the entry and above the reserved
  megabyte, saturation included.
\<close>

definition entry_span :: "memory_map_entry \<Rightarrow> nat set" where
  "entry_span e = {unat (mm_base e) ..< unat (mm_base e) + unat (mm_length e)}"

lemma region_in_entry:
  fixes e :: memory_map_entry
  defines "s \<equiv> frame_align_up (max (mm_base e) BOOTSTRAP_RESERVED_END) PAGE_SIZE"
    and "t \<equiv> frame_align_down (sat_add (mm_base e) (mm_length e)) PAGE_SIZE"
  assumes lt: "\<not> t \<le> s"
  shows "{unat s ..< unat t} \<subseteq> entry_span e" "0x00100000 \<le> unat s"
    "4096 dvd unat s" "4096 dvd unat t" "unat s < unat t"
proof -
  let ?m = "unat (max (mm_base e) BOOTSTRAP_RESERVED_END)"
  have m: "unat (mm_base e) \<le> ?m" "0x00100000 \<le> ?m"
    by (auto simp: max_def word_le_nat_alt BOOTSTRAP_RESERVED_END_def)
  have t: "unat t = (let w = min (unat (mm_base e) + unat (mm_length e)) (2 ^ 64 - 1)
                     in w - w mod 4096)"
    by (simp add: t_def unat_frame_align_down word_nat Let_def)
  then have t_le: "unat t \<le> unat (mm_base e) + unat (mm_length e)"
    by (auto simp: Let_def min_def)
  from t show dt: "4096 dvd unat t"
    by (simp only: Let_def nat_sub_mod_dvd)
  then have t_max: "unat t \<le> 2 ^ 64 - 4096"
    using unat_u64_less [of t] by (auto elim!: dvdE)
  have s: "unat s = (let w = min (?m + 4095) (2 ^ 64 - 1) in w - w mod 4096)"
    by (simp only: s_def unat_frame_align_up)
  then show ds: "4096 dvd unat s"
    by (simp only: Let_def nat_sub_mod_dvd)
  from lt show st: "unat s < unat t"
    by (simp add: word_le_nat_alt)
  have "?m + 4095 \<le> 2 ^ 64 - 1"
  proof (rule ccontr)
    assume "\<not> ?thesis"
    then have "min (?m + 4095) (2 ^ 64 - 1) = 2 ^ 64 - 1"
      by linarith
    then have "unat s = 2 ^ 64 - 4096"
      using s by (simp only: Let_def) simp
    with st t_max show False
      by linarith
  qed
  with s have s': "unat s = (?m + 4095) - (?m + 4095) mod 4096"
    by (simp add: Let_def)
  have "?m \<le> unat s"
    using nat_sub_mod_le_add [of 4096 ?m] by (simp add: s')
  with m t_le show "{unat s ..< unat t} \<subseteq> entry_span e" "0x00100000 \<le> unat s"
    by (auto simp: entry_span_def)
qed

section \<open>The invariant\<close>

definition region_span :: "frame_region \<Rightarrow> nat set" where
  "region_span r = {unat (fr_start r) ..< unat (fr_end r)}"

definition region_used :: "frame_region \<Rightarrow> nat set" where
  "region_used r = {unat (fr_start r) ..< unat (fr_next r)}"

definition region_ok :: "frame_region \<Rightarrow> bool" where
  "region_ok r \<longleftrightarrow> fr_start r \<le> fr_next r \<and> fr_next r \<le> fr_end r
     \<and> 4096 dvd unat (fr_start r) \<and> 4096 dvd unat (fr_next r) \<and> 4096 dvd unat (fr_end r)
     \<and> 0x00100000 \<le> unat (fr_start r)"

abbreviation apart :: "frame_region \<Rightarrow> frame_region \<Rightarrow> bool" where
  "apart r s \<equiv> region_span r \<inter> region_span s = {}"

definition active :: "frame_allocator \<Rightarrow> frame_region list" where
  "active fa = take (fa_region_count fa) (fa_regions fa)"

definition frame_wf :: "frame_allocator \<Rightarrow> bool" where
  "frame_wf fa \<longleftrightarrow> length (fa_regions fa) = MAX_USABLE_REGIONS
     \<and> fa_region_count fa \<le> MAX_USABLE_REGIONS
     \<and> (\<forall>r \<in> set (active fa). region_ok r) \<and> sorted_wrt apart (active fa)
     \<and> 4096 * unat (fa_allocated_frames fa) = (\<Sum>r\<leftarrow>active fa. unat (fr_next r) - unat (fr_start r))"

text \<open>What has been handed out, and what can ever be handed out.\<close>

definition frame_owned :: "frame_allocator \<Rightarrow> nat set" where
  "frame_owned fa = (\<Union>r \<in> set (active fa). region_used r)"

definition frame_pool :: "frame_allocator \<Rightarrow> nat set" where
  "frame_pool fa = (\<Union>r \<in> set (active fa). region_span r)"

lemma region_used_span: "region_ok r \<Longrightarrow> region_used r \<subseteq> region_span r"
  by (auto simp: region_ok_def region_used_def region_span_def word_le_nat_alt)

section \<open>Initialisation\<close>

lemma length_active: "frame_wf fa \<Longrightarrow> length (active fa) = fa_region_count fa"
  by (simp add: frame_wf_def active_def)

lemma active_push:
  assumes "length rs = MAX_USABLE_REGIONS" and "n < MAX_USABLE_REGIONS"
  shows "take (n + 1) (rs[n := r]) = take n rs @ [r]"
  using assms by (simp add: take_Suc_conv_app_nth)

text \<open>Every region made so far comes from a usable entry of the map seen so far.\<close>

definition regions_from :: "memory_map_entry list \<Rightarrow> frame_allocator \<Rightarrow> bool" where
  "regions_from es fa \<longleftrightarrow>
     (\<forall>r \<in> set (active fa). \<exists>e \<in> set es. is_usable e \<and> region_span r \<subseteq> entry_span e)"

definition usable_apart :: "memory_map_entry list \<Rightarrow> bool" where
  "usable_apart es \<longleftrightarrow> sorted_wrt (\<lambda>d e. entry_span d \<inter> entry_span e = {}) (filter is_usable es)"

definition init_inv :: "memory_map_entry list \<Rightarrow> frame_allocator \<Rightarrow> bool" where
  "init_inv es fa \<longleftrightarrow>
     frame_wf fa \<and> regions_from es fa \<and> (\<forall>r \<in> set (active fa). fr_next r = fr_start r)"

lemma init_inv_new: "init_inv [] frame_allocator_new"
  by (simp add: init_inv_def frame_wf_def regions_from_def active_def frame_allocator_new_def)

lemma init_inv_mono: "init_inv es fa \<Longrightarrow> set es \<subseteq> set es' \<Longrightarrow> init_inv es' fa"
  unfolding init_inv_def regions_from_def by blast

lemma init_inv_count:
  "init_inv es (fa\<lparr>fa_total_bytes := x\<rparr>) = init_inv es fa"
  "init_inv es (fa\<lparr>fa_initialized := b\<rparr>) = init_inv es fa"
  by (simp_all add: init_inv_def frame_wf_def regions_from_def active_def)

lemma init_inv_push:
  assumes inv: "init_inv es fa" and n: "fa_region_count fa < MAX_USABLE_REGIONS"
    and usable: "is_usable e" and sep: "usable_apart (es @ [e])"
    and r: "region_ok r" "fr_next r = fr_start r" "region_span r \<subseteq> entry_span e"
  shows "init_inv (es @ [e])
    (fa\<lparr>fa_allocatable_bytes := b, fa_regions := (fa_regions fa)[fa_region_count fa := r],
        fa_region_count := fa_region_count fa + 1\<rparr>)" (is "init_inv _ ?fa")
proof -
  have act: "active ?fa = active fa @ [r]"
    using inv n active_push [of "fa_regions fa" "fa_region_count fa" r]
    by (simp add: active_def init_inv_def frame_wf_def)
  have "apart x r" if "x \<in> set (active fa)" for x
  proof -
    from inv that obtain d where "d \<in> set es" "is_usable d" "region_span x \<subseteq> entry_span d"
      by (auto simp: init_inv_def regions_from_def)
    moreover from this usable sep have "entry_span d \<inter> entry_span e = {}"
      by (auto simp: usable_apart_def sorted_wrt_append)
    ultimately show ?thesis
      using r(3) by blast
  qed
  with act inv n r usable show ?thesis
    by (auto simp: init_inv_def frame_wf_def regions_from_def sorted_wrt_append)
qed

lemma init_inv_entry:
  assumes "init_inv es fa" and "usable_apart (es @ [e])" and "frame_init_entry fa e = (fa', err)"
  shows "init_inv (es @ [e]) fa'"
proof -
  let ?s = "frame_align_up (max (mm_base e) BOOTSTRAP_RESERVED_END) PAGE_SIZE"
  let ?t = "frame_align_down (sat_add (mm_base e) (mm_length e)) PAGE_SIZE"
  let ?r = "\<lparr>fr_start = ?s, fr_end = ?t, fr_next = ?s\<rparr>"
  let ?fa = "fa\<lparr>fa_total_bytes := sat_add (fa_total_bytes fa) (mm_length e)\<rparr>"
  have weak: "init_inv (es @ [e]) fa" "init_inv es ?fa" "init_inv (es @ [e]) ?fa"
    using assms(1) init_inv_mono [of es _ "es @ [e]"] by (auto simp: init_inv_count)
  show ?thesis
  proof (cases "is_usable e \<and> \<not> ?t \<le> ?s \<and> fa_region_count fa < MAX_USABLE_REGIONS")
    case True
    then have "region_ok ?r" "region_span ?r \<subseteq> entry_span e"
      using region_in_entry [of e] by (auto simp: region_ok_def region_span_def)
    then have "init_inv (es @ [e])
      (?fa\<lparr>fa_allocatable_bytes := sat_add (fa_allocatable_bytes fa) (region_size ?r),
           fa_regions := (fa_regions ?fa)[fa_region_count ?fa := ?r],
           fa_region_count := fa_region_count ?fa + 1\<rparr>)"
      using True weak(2) assms(2) by (intro init_inv_push) auto
    then show ?thesis
      using assms(3) True by (auto simp: frame_init_entry_def Let_def)
  next
    case False
    then show ?thesis
      using assms(3) weak by (auto simp: frame_init_entry_def Let_def split: if_splits)
  qed
qed

lemma init_inv_loop:
  "init_inv es fa \<Longrightarrow> usable_apart (es @ es') \<Longrightarrow> frame_init_loop fa es' = (fa', err)
    \<Longrightarrow> init_inv (es @ es') fa'"
proof (induction es' arbitrary: es fa)
  case Nil
  then show ?case by simp
next
  case (Cons e es')
  obtain fa1 err1 where e: "frame_init_entry fa e = (fa1, err1)"
    by fastforce
  have "usable_apart (es @ [e])"
    using Cons.prems(2) by (auto simp: usable_apart_def sorted_wrt_append)
  then have one: "init_inv (es @ [e]) fa1"
    using init_inv_entry e Cons.prems(1) by blast
  show ?case
  proof (cases err1)
    case None
    then show ?thesis
      using Cons.IH [OF one] Cons.prems e by simp
  next
    case (Some x)
    then show ?thesis
      using Cons.prems e init_inv_mono [OF one, of "es @ e # es'"] by auto
  qed
qed

lemma init_inv_initialize:
  assumes "usable_apart es" and "frame_initialize frame_allocator_new es = (fa, res)"
  shows "init_inv es fa"
proof -
  obtain fa1 err where l: "frame_init_loop frame_allocator_new es = (fa1, err)"
    by fastforce
  then have "init_inv es fa1"
    using init_inv_loop [OF init_inv_new] assms(1) by simp
  with l assms(2) show ?thesis
    by (auto simp: frame_initialize_def frame_allocator_new_def init_inv_count Let_def
        split: option.splits if_splits)
qed

lemma init_inv_owned: "init_inv es fa \<Longrightarrow> frame_owned fa = {}"
  by (auto simp: init_inv_def frame_owned_def region_used_def)

lemma init_inv_pool:
  "init_inv es fa \<Longrightarrow> frame_pool fa \<subseteq> (\<Union>e \<in> {e \<in> set es. is_usable e}. entry_span e)"
  by (fastforce simp: init_inv_def frame_pool_def regions_from_def)

section \<open>Allocation\<close>

lemma frame_scan_None: "frame_scan req rs = None \<longleftrightarrow> (\<forall>r \<in> set rs. region_remaining r < req)"
  by (induction rs) auto

lemma frame_scan_SomeD:
  "frame_scan req rs = Some (a, rs') \<Longrightarrow>
     \<exists>pre r post. rs = pre @ r # post \<and> rs' = pre @ r\<lparr>fr_next := sat_add (fr_next r) req\<rparr> # post
       \<and> a = fr_next r \<and> req \<le> region_remaining r"
proof (induction rs arbitrary: rs')
  case Nil
  then show ?case by simp
next
  case (Cons r rs)
  show ?case
  proof (cases "region_remaining r < req")
    case True
    with Cons.prems obtain rs1 where "frame_scan req rs = Some (a, rs1)" "rs' = r # rs1"
      by auto
    with Cons.IH obtain pre q post where "rs = pre @ q # post"
      "rs1 = pre @ q\<lparr>fr_next := sat_add (fr_next q) req\<rparr> # post"
      "a = fr_next q" "req \<le> region_remaining q"
      by blast
    with \<open>rs' = r # rs1\<close> show ?thesis
      by (intro exI [of _ "r # pre"] exI [of _ q] exI [of _ post]) simp
  next
    case False
    with Cons.prems show ?thesis
      by (intro exI [of _ "[]"] exI [of _ r] exI [of _ rs]) auto
  qed
qed

text \<open>A page request is a contiguous request for one page.\<close>

lemma sat_mul_one: "sat_mul 1 PAGE_SIZE = PAGE_SIZE"
  by (simp add: sat_mul_def)

lemma frame_allocate_is_contiguous: "frame_allocate fa = frame_allocate_contiguous fa 1"
  by (simp add: frame_allocate_def frame_allocate_contiguous_def sat_mul_one)

definition grant :: "u64 \<Rightarrow> u64 \<Rightarrow> nat set" where
  "grant a n = {unat a ..< unat a + 4096 * unat n}"

lemma region_remaining_exact:
  assumes "region_ok r" and "sat_mul n PAGE_SIZE \<le> region_remaining r"
  shows "unat (sat_mul n PAGE_SIZE) = 4096 * unat n"
    and "unat (fr_next r) + 4096 * unat n \<le> unat (fr_end r)"
    and "unat (sat_add (fr_next r) (sat_mul n PAGE_SIZE)) = unat (fr_next r) + 4096 * unat n"
proof -
  have "unat (fr_end r) \<le> 2 ^ 64 - 4096"
    using assms(1) unat_u64_less [of "fr_end r"] by (auto simp: region_ok_def elim!: dvdE)
  moreover have le: "unat (sat_mul n PAGE_SIZE) \<le> unat (fr_end r) - unat (fr_next r)"
    using assms(2) by (simp add: region_remaining_def word_le_nat_alt word_nat)
  ultimately show eq: "unat (sat_mul n PAGE_SIZE) = 4096 * unat n"
    by (auto simp: word_nat min_def split: if_splits)
  with le assms(1) show end': "unat (fr_next r) + 4096 * unat n \<le> unat (fr_end r)"
    by (auto simp: region_ok_def word_le_nat_alt)
  show "unat (sat_add (fr_next r) (sat_mul n PAGE_SIZE)) = unat (fr_next r) + 4096 * unat n"
    using eq end' unat_u64_less [of "fr_end r"] by (simp add: word_nat)
qed

lemma sum_list_bound: "(\<forall>x \<in> set xs. f x \<le> (b :: nat)) \<Longrightarrow> (\<Sum>x\<leftarrow>xs. f x) \<le> length xs * b"
  by (induction xs) auto

lemma allocated_frames_bound:
  assumes "frame_wf fa" shows "unat (fa_allocated_frames fa) \<le> 2 ^ 58"
proof -
  have "(\<Sum>r\<leftarrow>active fa. unat (fr_next r) - unat (fr_start r)) \<le> length (active fa) * 2 ^ 64"
    by (rule sum_list_bound) (use unat_u64_less in \<open>simp add: less_imp_le less_imp_diff_less\<close>)
  also have "\<dots> \<le> 64 * 2 ^ 64"
    using assms length_active [OF assms] by (simp add: frame_wf_def MAX_USABLE_REGIONS_def)
  finally show ?thesis
    using assms by (simp add: frame_wf_def)
qed

text \<open>
  The one place where the state changes: the region that has room gives up its next
  bytes, and nothing else moves.
\<close>

lemma frame_contiguous_cases:
  assumes wf: "frame_wf fa" and call: "frame_allocate_contiguous fa n = (fa', Some a)"
  obtains pre r post r' where "active fa = pre @ r # post" and "active fa' = pre @ r' # post"
    and "r' = r\<lparr>fr_next := sat_add (fr_next r) (sat_mul n PAGE_SIZE)\<rparr>" and "a = fr_next r"
    and "region_ok r" and "sat_mul n PAGE_SIZE \<le> region_remaining r" and "n \<noteq> 0"
    and "fa_region_count fa' = fa_region_count fa" and "length (fa_regions fa') = MAX_USABLE_REGIONS"
    and "fa_allocated_frames fa' = sat_add (fa_allocated_frames fa) n"
proof -
  obtain rs where n: "n \<noteq> 0" and scan: "frame_scan (sat_mul n PAGE_SIZE) (active fa) = Some (a, rs)"
    and fa': "fa' = fa\<lparr>fa_regions := rs @ drop (fa_region_count fa) (fa_regions fa),
                       fa_allocated_frames := sat_add (fa_allocated_frames fa) n\<rparr>"
    using call by (auto simp: frame_allocate_contiguous_def active_def Let_def
        split: if_splits option.splits)
  from frame_scan_SomeD [OF scan] obtain pre r post where *: "active fa = pre @ r # post"
    "rs = pre @ r\<lparr>fr_next := sat_add (fr_next r) (sat_mul n PAGE_SIZE)\<rparr> # post"
    "a = fr_next r" "sat_mul n PAGE_SIZE \<le> region_remaining r"
    by blast
  have len: "length rs = fa_region_count fa"
    using length_active [OF wf] * by simp
  then have "active fa' = rs"
    by (simp add: active_def fa')
  moreover have "region_ok r" "length (fa_regions fa') = MAX_USABLE_REGIONS"
    using wf * len by (auto simp: frame_wf_def fa')
  ultimately show thesis
    using * n that [of pre r post] by (simp add: fa')
qed

lemma region_advance:
  assumes "region_ok r" and "sat_mul n PAGE_SIZE \<le> region_remaining r"
    and "r' = r\<lparr>fr_next := sat_add (fr_next r) (sat_mul n PAGE_SIZE)\<rparr>"
  shows "region_ok r'" and "region_span r' = region_span r"
    and "region_used r' = region_used r \<union> grant (fr_next r) n"
    and "grant (fr_next r) n \<subseteq> region_span r" and "grant (fr_next r) n \<inter> region_used r = {}"
    and "unat (fr_next r') - unat (fr_start r') = unat (fr_next r) - unat (fr_start r) + 4096 * unat n"
  using region_remaining_exact [OF assms(1,2)] assms(1,3)
  by (auto simp: region_ok_def region_span_def region_used_def grant_def word_le_nat_alt)

lemma frame_contiguous_wf:
  assumes wf: "frame_wf fa" and call: "frame_allocate_contiguous fa n = (fa', Some a)"
  shows "frame_wf fa'"
    and "unat (fa_allocated_frames fa') = unat (fa_allocated_frames fa) + unat n"
proof -
  from wf call obtain pre r post r' where 1: "active fa = pre @ r # post" "active fa' = pre @ r' # post"
    and r': "r' = r\<lparr>fr_next := sat_add (fr_next r) (sat_mul n PAGE_SIZE)\<rparr>"
    and r: "region_ok r" "sat_mul n PAGE_SIZE \<le> region_remaining r"
    and 2: "fa_region_count fa' = fa_region_count fa" "length (fa_regions fa') = MAX_USABLE_REGIONS"
      "fa_allocated_frames fa' = sat_add (fa_allocated_frames fa) n"
    by (rule frame_contiguous_cases)
  have "4096 * unat n < 2 ^ 64"
    using region_remaining_exact(2) [OF r] unat_u64_less [of "fr_end r"] by simp
  then show "unat (fa_allocated_frames fa') = unat (fa_allocated_frames fa) + unat n"
    using allocated_frames_bound [OF wf] by (simp add: 2 word_nat)
  then show "frame_wf fa'"
    using wf region_advance [OF r r'] 1 2 by (auto simp: frame_wf_def sorted_wrt_append)
qed

lemma frame_contiguous_grant:
  assumes wf: "frame_wf fa" and call: "frame_allocate_contiguous fa n = (fa', Some a)"
  shows "grant a n \<subseteq> frame_pool fa" and "grant a n \<inter> frame_owned fa = {}"
    and "frame_owned fa' = frame_owned fa \<union> grant a n" and "frame_pool fa' = frame_pool fa"
    and "4096 dvd unat a" and "n \<noteq> 0"
proof -
  from wf call obtain pre r post r' where 1: "active fa = pre @ r # post" "active fa' = pre @ r' # post"
    and r': "r' = r\<lparr>fr_next := sat_add (fr_next r) (sat_mul n PAGE_SIZE)\<rparr>" and a: "a = fr_next r"
    and r: "region_ok r" "sat_mul n PAGE_SIZE \<le> region_remaining r" and n: "n \<noteq> 0"
    by (rule frame_contiguous_cases)
  note adv = region_advance [OF r r']
  have others: "region_used x \<inter> region_span r = {}" if "x \<in> set pre \<union> set post" for x
  proof -
    have "apart x r" "region_ok x"
      using wf that by (auto simp: frame_wf_def 1 sorted_wrt_append)
    then show ?thesis
      using region_used_span by blast
  qed
  show "grant a n \<subseteq> frame_pool fa" "frame_pool fa' = frame_pool fa"
    "frame_owned fa' = frame_owned fa \<union> grant a n"
    using adv by (auto simp: frame_pool_def frame_owned_def 1 a)
  show "grant a n \<inter> frame_owned fa = {}"
    using adv(4,5) others by (auto simp: frame_owned_def 1 a)
  show "4096 dvd unat a" "n \<noteq> 0"
    using r(1) n by (simp_all add: a region_ok_def)
qed

lemma frame_contiguous_None:
  "frame_allocate_contiguous fa n = (fa', None) \<Longrightarrow> fa' = fa"
  by (auto simp: frame_allocate_contiguous_def Let_def split: if_splits option.splits)

lemma frame_owned_pool: "frame_wf fa \<Longrightarrow> frame_owned fa \<subseteq> frame_pool fa"
  using region_used_span by (fastforce simp: frame_wf_def frame_owned_def frame_pool_def)

section \<open>The interface the clients rely on\<close>

text \<open>
  The heap and the page tables only ask for frames and rely on what a grant is: whole
  pages of the pool that nobody holds yet.  A source that promises this serves any
  sequence of requests with ranges that never overlap.
\<close>

fun serve_all ::
  "('s \<Rightarrow> u64 \<Rightarrow> 's \<times> u64 option) \<Rightarrow> 's \<Rightarrow> u64 list \<Rightarrow> 's \<times> (u64 \<times> u64) list" where
  "serve_all alloc s [] = (s, [])"
| "serve_all alloc s (n # ns) =
     (case alloc s n of
        (s', None) \<Rightarrow> serve_all alloc s' ns
      | (s', Some a) \<Rightarrow> (case serve_all alloc s' ns of (s'', gs) \<Rightarrow> (s'', (a, n) # gs)))"

locale frame_source =
  fixes alloc :: "'s \<Rightarrow> u64 \<Rightarrow> 's \<times> u64 option"
    and ok :: "'s \<Rightarrow> bool" and owned :: "'s \<Rightarrow> nat set" and pool :: "'s \<Rightarrow> nat set"
  assumes alloc_refused: "alloc s n = (s', None) \<Longrightarrow> s' = s"
    and alloc_ok: "ok s \<Longrightarrow> alloc s n = (s', Some a) \<Longrightarrow> ok s'"
    and alloc_pool: "ok s \<Longrightarrow> alloc s n = (s', Some a) \<Longrightarrow> pool s' = pool s \<and> grant a n \<subseteq> pool s"
    and alloc_fresh: "ok s \<Longrightarrow> alloc s n = (s', Some a) \<Longrightarrow>
      grant a n \<inter> owned s = {} \<and> owned s' = owned s \<union> grant a n"
    and alloc_aligned: "ok s \<Longrightarrow> alloc s n = (s', Some a) \<Longrightarrow> 4096 dvd unat a"
begin

lemma serve_all_sound:
  "ok s \<Longrightarrow> serve_all alloc s ns = (s', gs) \<Longrightarrow>
     ok s' \<and> owned s' = owned s \<union> (\<Union>(a, n) \<in> set gs. grant a n)
     \<and> (\<forall>(a, n) \<in> set gs. grant a n \<subseteq> pool s \<and> grant a n \<inter> owned s = {} \<and> 4096 dvd unat a)
     \<and> sorted_wrt (\<lambda>(a, n) (b, m). grant a n \<inter> grant b m = {}) gs"
proof (induction ns arbitrary: s gs)
  case Nil
  then show ?case by simp
next
  case (Cons n ns)
  show ?case
  proof (cases "alloc s n")
    case (Pair s1 g)
    show ?thesis
    proof (cases g)
      case None
      then show ?thesis
        using Cons Pair alloc_refused by fastforce
    next
      case (Some a)
      with Pair Cons.prems obtain gs1 where gs: "serve_all alloc s1 ns = (s', gs1)" "gs = (a, n) # gs1"
        by (auto split: prod.splits)
      have call: "alloc s n = (s1, Some a)"
        using Pair Some by simp
      note IH = Cons.IH [OF alloc_ok [OF Cons.prems(1) call] gs(1)]
      note laws = alloc_pool [OF Cons.prems(1) call] alloc_fresh [OF Cons.prems(1) call]
        alloc_aligned [OF Cons.prems(1) call]
      show ?thesis
        using IH laws by (auto simp: gs(2))
    qed
  qed
qed

end

interpretation frames: frame_source frame_allocate_contiguous frame_wf frame_owned frame_pool
  by unfold_locales
    (metis frame_contiguous_None frame_contiguous_wf frame_contiguous_grant)+

lemma frame_initialize_fresh:
  assumes "usable_apart es" and "frame_initialize frame_allocator_new es = (fa, Inr st)"
  shows "frame_wf fa" and "frame_owned fa = {}" and "fa_allocated_frames fa = 0"
    and "frame_pool fa \<subseteq> (\<Union>e \<in> {e \<in> set es. is_usable e}. entry_span e)"
proof -
  have inv: "init_inv es fa"
    using assms by (rule init_inv_initialize)
  then show wf: "frame_wf fa" "frame_owned fa = {}"
    "frame_pool fa \<subseteq> (\<Union>e \<in> {e \<in> set es. is_usable e}. entry_span e)"
    using init_inv_owned init_inv_pool by (simp_all add: init_inv_def)
  have "(\<Sum>r\<leftarrow>active fa. unat (fr_next r) - unat (fr_start r)) = 0"
    using inv by (simp add: init_inv_def sum_list_eq_0_iff)
  with wf(1) show "fa_allocated_frames fa = 0"
    by (simp add: frame_wf_def unsigned_eq_0_iff)
qed

lemma frame_pool_above: "frame_wf fa \<Longrightarrow> frame_pool fa \<subseteq> {0x00100000 ..}"
  by (auto simp: frame_wf_def frame_pool_def region_span_def region_ok_def)

lemma serve_all_frames:
  "frame_wf fa \<Longrightarrow> serve_all frame_allocate_contiguous fa ns = (fa', gs) \<Longrightarrow>
     unat (fa_allocated_frames fa') = unat (fa_allocated_frames fa) + (\<Sum>(a, n)\<leftarrow>gs. unat n)"
proof (induction ns arbitrary: fa gs)
  case Nil
  then show ?case by simp
next
  case (Cons n ns)
  then show ?case
    using frame_contiguous_None [of fa n] frame_contiguous_wf [of fa n]
    by (fastforce split: prod.splits option.splits)
qed

section \<open>Properties\<close>

definition demo_map :: "memory_map_entry list" where
  "demo_map =
     [\<lparr>mm_base = 0, mm_length = 0x9fc00, mm_entry_type = Usable\<rparr>,
      \<lparr>mm_base = 0xf0000, mm_length = 0x10000, mm_entry_type = Reserved\<rparr>,
      \<lparr>mm_base = 0x100000, mm_length = 0x4800, mm_entry_type = Usable\<rparr>]"

definition demo_frames :: "u64 \<Rightarrow> u64 \<Rightarrow> frame_allocator" where
  "demo_frames next_free n =
     \<lparr>fa_initialized = True, fa_region_count = 1, fa_total_bytes = 0xa4400,
      fa_allocatable_bytes = 0x4000, fa_allocated_frames = n,
      fa_regions = \<lparr>fr_start = 0x100000, fr_end = 0x104000, fr_next = next_free\<rparr>
        # replicate 63 frame_region_empty\<rparr>"

lemmas frame_eval =
  frame_initialize_def frame_allocator_new_def frame_init_entry_def is_usable_def Let_def
  frame_align_up_def frame_align_down_def sat_add_def sat_mul_def sat_sub_def PAGE_SIZE_def
  BOOTSTRAP_RESERVED_END_def MAX_USABLE_REGIONS_def frame_stats_of_def region_size_def
  region_remaining_def frame_allocate_contiguous_def

lemma demo_frames_init:
  "frame_initialize frame_allocator_new demo_map =
     (demo_frames 0x100000 0, Inr (frame_stats_of (demo_frames 0x100000 0)))"
proof -
  have "replicate 64 frame_region_empty = frame_region_empty # replicate 63 frame_region_empty"
    using replicate_Suc [of 63 frame_region_empty] by simp
  then show ?thesis
    by (simp add: demo_frames_def demo_map_def frame_eval)
qed

lemma demo_map_apart: "usable_apart demo_map"
  by (simp add: usable_apart_def demo_map_def is_usable_def entry_span_def)

lemma demo_frames_steps:
  "frame_allocate_contiguous (demo_frames 0x100000 0) 1 = (demo_frames 0x101000 1, Some 0x100000)"
  "frame_allocate_contiguous (demo_frames 0x101000 1) 4 = (demo_frames 0x101000 1, None)"
  "frame_allocate_contiguous (demo_frames 0x101000 1) 2 = (demo_frames 0x103000 3, Some 0x101000)"
  by (simp_all add: demo_frames_def frame_eval)

lemma demo_frames_grants:
  "serve_all frame_allocate_contiguous (demo_frames 0x100000 0) [1, 4, 2] =
     (demo_frames 0x103000 3, [(0x100000, 1), (0x101000, 2)])"
  by (simp add: demo_frames_steps)

text \<open>
  C11.  Take an allocator that \<^verbatim>\<open>initialize\<close> accepted on a memory map whose usable
  entries do not overlap, and any sequence of requests, single pages (count 1) and contiguous runs.
  Every range it hands out is page aligned, lies in the usable entries of the map and
  above the first megabyte, and no two ranges overlap.
\<close>

theorem frame_grants_disjoint:
  assumes "usable_apart es" and "frame_initialize frame_allocator_new es = (fa, Inr st)"
    and "serve_all frame_allocate_contiguous fa ns = (fa', gs)"
  shows "(\<forall>(a, n) \<in> set gs. 4096 dvd unat a \<and> grant a n \<subseteq> {0x00100000 ..}
            \<and> grant a n \<subseteq> (\<Union>e \<in> {e \<in> set es. is_usable e}. entry_span e))
      \<and> sorted_wrt (\<lambda>(a, n) (b, m). grant a n \<inter> grant b m = {}) gs"
proof -
  note fresh = frame_initialize_fresh [OF assms(1,2)]
  note sound = frames.serve_all_sound [OF fresh(1) assms(3)]
  have "4096 dvd unat a \<and> grant a n \<subseteq> {0x00100000 ..}
      \<and> grant a n \<subseteq> (\<Union>e \<in> {e \<in> set es. is_usable e}. entry_span e)" if "(a, n) \<in> set gs" for a n
  proof -
    from sound that have "grant a n \<subseteq> frame_pool fa" "4096 dvd unat a"
      by blast+
    then show ?thesis
      by (intro conjI order_trans [OF _ fresh(4)] order_trans [OF _ frame_pool_above [OF fresh(1)]])
  qed
  then show ?thesis
    using sound by (intro conjI) (clarify, assumption | simp only:)+
qed

theorem frame_grants_disjoint_witness:
  "snd (serve_all frame_allocate_contiguous (demo_frames 0x100000 0) [1, 4, 2])
     = [(0x100000, 1), (0x101000, 2)]
   \<and> grant 0x100000 1 \<inter> grant 0x101000 2 = {}"
  using frame_grants_disjoint [OF demo_map_apart demo_frames_init demo_frames_grants]
  by (simp add: demo_frames_steps)

text \<open>
  C34.  The allocator refuses a request for at least one page exactly when no region has that many
  bytes left, also where the size of the request saturates; a refusal changes nothing.
\<close>

theorem frame_refuses_iff_full:
  assumes "frame_wf fa" and "fa_initialized fa" and "n \<noteq> 0"
  shows "(snd (frame_allocate_contiguous fa n) = None \<longleftrightarrow>
      (\<forall>r \<in> set (active fa). unat (fr_end r) - unat (fr_next r) < 4096 * unat n))
    \<and> (snd (frame_allocate_contiguous fa n) = None \<longrightarrow> fst (frame_allocate_contiguous fa n) = fa)"
proof -
  have exact: "region_remaining r < sat_mul n PAGE_SIZE \<longleftrightarrow>
      unat (fr_end r) - unat (fr_next r) < 4096 * unat n" if "r \<in> set (active fa)" for r
  proof -
    have "unat (fr_end r) - unat (fr_next r) < 2 ^ 64 - 1"
      using assms(1) that unat_u64_less [of "fr_end r"]
      by (auto simp: frame_wf_def region_ok_def elim!: dvdE)
    then show ?thesis
      by (auto simp: region_remaining_def word_less_nat_alt word_nat)
  qed
  have "snd (frame_allocate_contiguous fa n) = None \<longleftrightarrow>
      frame_scan (sat_mul n PAGE_SIZE) (active fa) = None"
    using assms by (auto simp: frame_allocate_contiguous_def Let_def active_def split: option.splits)
  also have "\<dots> \<longleftrightarrow> (\<forall>r \<in> set (active fa). unat (fr_end r) - unat (fr_next r) < 4096 * unat n)"
    using exact by (simp add: frame_scan_None)
  finally show ?thesis
    using frame_contiguous_None [of fa n] by (cases "frame_allocate_contiguous fa n") auto
qed

theorem frame_refuses_iff_full_witness:
  "\<exists>r \<in> set (active (demo_frames 0x100000 0)). 4096 \<le> unat (fr_end r) - unat (fr_next r)"
proof -
  have "fa_initialized (demo_frames 0x100000 0)"
    by (simp add: demo_frames_def)
  then show ?thesis
    using frame_refuses_iff_full [OF frame_initialize_fresh(1) [OF demo_map_apart demo_frames_init], of 1]
    by (auto simp: demo_frames_steps not_less)
qed

text \<open>
  The frame counter is exact: however many requests are served, it is the number
  of pages handed out, so its saturating additions never saturate.
\<close>

theorem frame_counter_exact:
  assumes "usable_apart es" and "frame_initialize frame_allocator_new es = (fa, Inr st)"
    and "serve_all frame_allocate_contiguous fa ns = (fa', gs)"
  shows "unat (fs_allocated_frames (frame_stats_of fa')) = (\<Sum>(a, n)\<leftarrow>gs. unat n)"
  using serve_all_frames [OF frame_initialize_fresh(1) [OF assms(1,2)] assms(3)]
    frame_initialize_fresh(3) [OF assms(1,2)]
  by (simp add: frame_stats_of_def)

theorem frame_counter_exact_witness:
  "unat (fs_allocated_frames (frame_stats_of (demo_frames 0x103000 3))) = 3"
  using frame_counter_exact [OF demo_map_apart demo_frames_init demo_frames_grants] by simp

end
