(* ===== verification/Heap.thy ===== *)
theory Heap
  imports Frame
begin

text \<open>
  The kernel heap, \<^verbatim>\<open>kernel/src/mm/heap.rs\<close>: a bump allocator over one contiguous run of
  frames that starts again from the beginning when the last live block is freed.  The
  Rust side of the contract (\<^verbatim>\<open>GlobalAlloc\<close>: only live blocks are freed, a layout has a
  power-of-two alignment and a positive size) is the step relation \<open>heap_step\<close>; the
  lemmas show that the live blocks never overlap however the calls are interleaved.
\<close>

section \<open>State and operations\<close>

definition HEAP_PAGES :: u64 where
  "HEAP_PAGES = 2048"

record bump_allocator =
  ba_start :: u64
  ba_end :: u64
  ba_next :: u64
  ba_allocations :: u64
  ba_initialized :: bool

record heap_stats =
  hs_start :: u64
  hs_size_bytes :: u64
  hs_used_bytes :: u64
  hs_allocation_count :: u64

datatype heap_init_error = HeapAlreadyInitialized | OutOfFrames

record layout =
  ly_size :: u64
  ly_align :: u64

definition bump_new :: bump_allocator where
  "bump_new = \<lparr>ba_start = 0, ba_end = 0, ba_next = 0, ba_allocations = 0, ba_initialized = False\<rparr>"

definition bump_stats :: "bump_allocator \<Rightarrow> heap_stats" where
  "bump_stats h =
     \<lparr>hs_start = ba_start h, hs_size_bytes = sat_sub (ba_end h) (ba_start h),
      hs_used_bytes = sat_sub (ba_next h) (ba_start h), hs_allocation_count = ba_allocations h\<rparr>"

definition bump_initialize ::
  "bump_allocator \<Rightarrow> u64 \<Rightarrow> u64 \<Rightarrow> bump_allocator \<times> (heap_init_error + heap_stats)" where
  "bump_initialize h start nbytes =
     (if ba_initialized h then (h, Inl HeapAlreadyInitialized)
      else if nbytes = 0 then (h, Inl OutOfFrames)
      else
        let h' = h\<lparr>ba_start := start, ba_end := sat_add start nbytes, ba_next := start,
                   ba_allocations := 0, ba_initialized := True\<rparr>
        in (h', Inr (bump_stats h')))"

definition heap_align_up :: "u64 \<Rightarrow> u64 \<Rightarrow> u64" where
  "heap_align_up v alignment =
     (if alignment = 0 then v else sat_add v (alignment - 1) AND NOT (alignment - 1))"

text \<open>The null pointer is the address 0.\<close>

definition heap_alloc :: "bump_allocator \<Rightarrow> layout \<Rightarrow> bump_allocator \<times> u64" where
  "heap_alloc h l =
     (if \<not> ba_initialized h then (h, 0)
      else
        let alloc_start = heap_align_up (ba_next h) (ly_align l);
            alloc_end = sat_add alloc_start (ly_size l)
        in if ba_end h < alloc_end then (h, 0)
           else (h\<lparr>ba_next := alloc_end, ba_allocations := sat_add (ba_allocations h) 1\<rparr>, alloc_start))"

definition heap_dealloc :: "bump_allocator \<Rightarrow> bump_allocator" where
  "heap_dealloc h =
     (if 0 < ba_allocations h then
        let h' = h\<lparr>ba_allocations := ba_allocations h - 1\<rparr>
        in if ba_allocations h' = 0 then h'\<lparr>ba_next := ba_start h'\<rparr> else h'
      else h)"

definition heap_initialize_from ::
  "('s \<Rightarrow> u64 \<Rightarrow> 's \<times> u64 option) \<Rightarrow> 's \<Rightarrow> bump_allocator \<Rightarrow> u64
    \<Rightarrow> 's \<times> bump_allocator \<times> (heap_init_error + heap_stats)" where
  "heap_initialize_from alloc s h hhdm_offset =
     (case alloc s HEAP_PAGES of
        (s', None) \<Rightarrow> (s', h, Inl OutOfFrames)
      | (s', Some a) \<Rightarrow>
          let heap_start = sat_add hhdm_offset a;
              heap_size = HEAP_PAGES * PAGE_SIZE
          in case bump_initialize h heap_start heap_size of (h', res) \<Rightarrow> (s', h', res))"

abbreviation heap_initialize ::
  "frame_allocator \<Rightarrow> bump_allocator \<Rightarrow> u64
    \<Rightarrow> frame_allocator \<times> bump_allocator \<times> (heap_init_error + heap_stats)" where
  "heap_initialize \<equiv> heap_initialize_from frame_allocate_contiguous"

section \<open>Alignment\<close>

lemma pow2_minus_1: "(2 ^ k :: u64) - 1 = mask k"
  by (simp add: mask_eq_exp_minus_1)

lemma unat_pow2_64: "k < 64 \<Longrightarrow> unat (2 ^ k :: u64) = 2 ^ k"
  using unat_of_nat [of "2 ^ k", where 'a = 64] power_strict_increasing [of k 64 "2 :: nat"]
  by (simp add: take_bit_nat_eq_self)

lemma unat_mask_64: "k < 64 \<Longrightarrow> unat (mask k :: u64) = 2 ^ k - 1"
  using unat_sub [of 1 "2 ^ k :: u64"]
  by (simp add: mask_eq_exp_minus_1 unat_pow2_64 word_le_nat_alt)

lemma unat_heap_align_up:
  assumes k: "k < 64" and room: "unat v + 2 ^ k \<le> 2 ^ 64"
  shows "unat v \<le> unat (heap_align_up v (2 ^ k))" and "2 ^ k dvd unat (heap_align_up v (2 ^ k))"
proof -
  have "(2 ^ k :: u64) \<noteq> 0"
    using unat_pow2_64 [OF k] by (metis power_not_zero unsigned_0 zero_neq_numeral)
  then have "unat (heap_align_up v (2 ^ k)) =
      (unat v + (2 ^ k - 1)) - (unat v + (2 ^ k - 1)) mod 2 ^ k"
    using room unat_mask_64 [OF k]
    by (simp add: heap_align_up_def pow2_minus_1 word_nat)
  then show "unat v \<le> unat (heap_align_up v (2 ^ k))" "2 ^ k dvd unat (heap_align_up v (2 ^ k))"
    using nat_sub_mod_le_add [of "2 ^ k" "unat v"] nat_sub_mod_dvd by (simp_all only:) simp
qed

section \<open>The calls a program makes\<close>

definition layout_ok :: "layout \<Rightarrow> bool" where
  "layout_ok l \<longleftrightarrow> 0 < ly_size l \<and> (\<exists>k < 64. ly_align l = 2 ^ k)"

type_synonym heap_state = "bump_allocator \<times> (u64 \<times> u64) list"

text \<open>
  A program state is the allocator with the blocks (address, size) the program holds:
  a successful \<^verbatim>\<open>alloc\<close> adds one, \<^verbatim>\<open>dealloc\<close> takes one of them away.  An alignment may
  not reach past the top of the address space from the heap's end.
\<close>

inductive heap_step :: "heap_state \<Rightarrow> heap_state \<Rightarrow> bool" where
  step_alloc: "layout_ok l \<Longrightarrow> unat (ba_end h) + unat (ly_align l) < 2 ^ 64
    \<Longrightarrow> heap_alloc h l = (h', a) \<Longrightarrow> a \<noteq> 0
    \<Longrightarrow> heap_step (h, live) (h', (a, ly_size l) # live)"
| step_null: "heap_alloc h l = (h', 0) \<Longrightarrow> layout_ok l
    \<Longrightarrow> unat (ba_end h) + unat (ly_align l) < 2 ^ 64 \<Longrightarrow> heap_step (h, live) (h', live)"
| step_dealloc: "b \<in> set live \<Longrightarrow> heap_step (h, live) (heap_dealloc h, remove1 b live)"

definition block :: "u64 \<times> u64 \<Rightarrow> nat set" where
  "block b = {unat (fst b) ..< unat (fst b) + unat (snd b)}"

definition heap_inv :: "heap_state \<Rightarrow> bool" where
  "heap_inv = (\<lambda>(h, live). ba_initialized h \<and> 0 < ba_start h
     \<and> ba_start h \<le> ba_next h \<and> ba_next h \<le> ba_end h
     \<and> unat (ba_allocations h) = length live
     \<and> (\<forall>b \<in> set live. 0 < snd b \<and> block b \<subseteq> {unat (ba_start h) ..< unat (ba_next h)})
     \<and> sorted_wrt (\<lambda>b c. block b \<inter> block c = {}) live
     \<and> (\<Sum>b\<leftarrow>live. unat (snd b)) \<le> unat (ba_next h) - unat (ba_start h)
     \<and> (live = [] \<longrightarrow> ba_next h = ba_start h))"

lemma heap_alloc_success:
  assumes "ba_initialized h" and "0 < ba_start h" "ba_start h \<le> ba_next h" "ba_next h \<le> ba_end h"
    and "layout_ok l" and "unat (ba_end h) + unat (ly_align l) < 2 ^ 64"
    and "heap_alloc h l = (h', a)" and "a \<noteq> 0"
  shows "h' = h\<lparr>ba_next := ba_next h', ba_allocations := sat_add (ba_allocations h) 1\<rparr>"
    and "unat (ba_next h) \<le> unat a" and "unat (ba_next h') = unat a + unat (ly_size l)"
    and "ba_next h' \<le> ba_end h" and "unat (ly_align l) dvd unat a"
proof -
  from assms(5) obtain k where k: "k < 64" "ly_align l = 2 ^ k"
    by (auto simp: layout_ok_def)
  have room: "unat (ba_next h) + 2 ^ k \<le> 2 ^ 64"
    using assms(4,6) k by (auto simp: unat_pow2_64 word_le_nat_alt)
  note up = unat_heap_align_up [OF k(1) room]
  have a: "a = heap_align_up (ba_next h) (2 ^ k)"
    and e: "ba_next h' = sat_add a (ly_size l)" "sat_add a (ly_size l) \<le> ba_end h"
    and h': "h' = h\<lparr>ba_next := sat_add a (ly_size l), ba_allocations := sat_add (ba_allocations h) 1\<rparr>"
    using assms(1,7,8) k by (auto simp: heap_alloc_def Let_def split: if_splits)
  have "0 < unat (ly_align l)"
    using k by (simp add: unat_pow2_64)
  with assms(6) e(2) have "unat (sat_add a (ly_size l)) < 2 ^ 64 - 1"
    by (simp add: word_le_nat_alt)
  then show "unat (ba_next h') = unat a + unat (ly_size l)"
    by (simp add: e(1) word_nat)
  show "unat (ba_next h) \<le> unat a" "unat (ly_align l) dvd unat a"
    using up k by (simp_all add: a unat_pow2_64)
  show "h' = h\<lparr>ba_next := ba_next h', ba_allocations := sat_add (ba_allocations h) 1\<rparr>"
    "ba_next h' \<le> ba_end h"
    using h' e by simp_all
qed

lemma length_le_sum: "(\<forall>x \<in> set xs. 0 < (f x :: nat)) \<Longrightarrow> length xs \<le> (\<Sum>x\<leftarrow>xs. f x)"
  by (induction xs) fastforce+

lemma heap_inv_alloc:
  assumes inv: "heap_inv (h, live)" and l: "layout_ok l" "unat (ba_end h) + unat (ly_align l) < 2 ^ 64"
    and call: "heap_alloc h l = (h', a)" "a \<noteq> 0"
  shows "heap_inv (h', (a, ly_size l) # live)"
proof -
  have h: "ba_initialized h" "0 < ba_start h" "ba_start h \<le> ba_next h" "ba_next h \<le> ba_end h"
    using inv by (auto simp: heap_inv_def)
  note ok = heap_alloc_success [OF h l call]
  have "length live \<le> (\<Sum>b\<leftarrow>live. unat (snd b))"
    using inv by (intro length_le_sum) (auto simp: heap_inv_def word_less_nat_alt)
  moreover have sum: "(\<Sum>b\<leftarrow>live. unat (snd b)) \<le> unat (ba_next h) - unat (ba_start h)"
    "0 < unat (ba_start h)" "0 < unat (ly_size l)" "unat (ba_start h) \<le> unat (ba_next h)"
    using inv l(1) by (auto simp: heap_inv_def layout_ok_def word_less_nat_alt word_le_nat_alt)
  ultimately have "length live + 1 < 18446744073709551616"
    using ok(2,3) unat_u64_less [of "ba_next h'"] by linarith
  then have count: "unat (ba_allocations h') = length live + 1"
    using inv by (subst ok(1)) (simp add: heap_inv_def word_nat)
  have old: "block b \<inter> block (a, ly_size l) = {}" if "b \<in> set live" for b
    using inv that ok(2) by (fastforce simp: heap_inv_def block_def)
  have kept: "block b \<subseteq> {unat (ba_start h) ..< unat (ba_next h')}" if "b \<in> set live" for b
  proof -
    have "block b \<subseteq> {unat (ba_start h) ..< unat (ba_next h)}"
      using inv that by (simp add: heap_inv_def)
    also have "\<dots> \<subseteq> {unat (ba_start h) ..< unat (ba_next h')}"
      using ok(2,3) by (simp add: ivl_subset)
    finally show ?thesis .
  qed
  have start': "ba_start h' = ba_start h" "ba_end h' = ba_end h" "ba_initialized h' = ba_initialized h"
    by (subst ok(1), simp)+
  have new: "block (a, ly_size l) \<subseteq> {unat (ba_start h) ..< unat (ba_next h')}"
    using ok(2,3) h(3) by (auto simp: block_def word_le_nat_alt)
  have size: "(\<Sum>b\<leftarrow>live. unat (snd b)) + unat (ly_size l) \<le> unat (ba_next h') - unat (ba_start h)"
    using sum(1,4) ok(2,3) by linarith
  have order: "ba_start h \<le> ba_next h'"
    using h(3) ok(2,3) by (simp add: word_le_nat_alt)
  show ?thesis
    using inv count old kept new size order ok(4) l(1)
    by (simp add: heap_inv_def start' layout_ok_def Int_commute add.commute)
qed

lemma heap_alloc_null:
  assumes "heap_inv (h, live)" and "layout_ok l" "unat (ba_end h) + unat (ly_align l) < 2 ^ 64"
    and "heap_alloc h l = (h', 0)"
  shows "h' = h"
proof -
  from assms(2) obtain k where k: "k < 64" "ly_align l = 2 ^ k"
    by (auto simp: layout_ok_def)
  have "unat (ba_next h) + 2 ^ k \<le> 2 ^ 64" "0 < unat (ba_next h)"
    using assms(1,3) k by (auto simp: heap_inv_def unat_pow2_64 word_le_nat_alt word_less_nat_alt)
  with unat_heap_align_up(1) [OF k(1), of "ba_next h"] have "heap_align_up (ba_next h) (2 ^ k) \<noteq> 0"
    by (auto simp: unsigned_eq_0_iff)
  with assms(4) k show ?thesis
    by (auto simp: heap_alloc_def Let_def split: if_splits)
qed

lemma sorted_wrt_remove1: "sorted_wrt P xs \<Longrightarrow> sorted_wrt P (remove1 x xs)"
  by (induction xs) (auto dest: set_remove1_subset [THEN subsetD])

lemma heap_inv_dealloc:
  assumes inv: "heap_inv (h, live)" and b: "b \<in> set live"
  shows "heap_inv (heap_dealloc h, remove1 b live)"
proof -
  have count: "unat (ba_allocations h) = length live" "0 < length live"
    using inv b by (auto simp: heap_inv_def)
  then have pos: "0 < ba_allocations h"
    by (metis unat_gt_0 word_greater_zero_iff less_numeral_extra(3))
  then have minus: "unat (ba_allocations h - 1) = length (remove1 b live)"
    using count b by (simp add: unat_minus_one length_remove1)
  have empty: "ba_allocations h - 1 = 0 \<longleftrightarrow> remove1 b live = []"
    using minus by (metis length_0_conv unsigned_eq_0_iff)
  have "(\<Sum>c\<leftarrow>remove1 b live. unat (snd c)) \<le> (\<Sum>c\<leftarrow>live. unat (snd c))"
    using sum_list_map_remove1 [OF b, of "\<lambda>c. unat (snd c)"] by simp
  then show ?thesis
    using inv minus empty pos sorted_wrt_remove1
    by (auto simp: heap_inv_def heap_dealloc_def Let_def dest: set_remove1_subset [THEN subsetD])
qed

lemma heap_inv_step: "heap_step s s' \<Longrightarrow> heap_inv s \<Longrightarrow> heap_inv s'"
  by (induction rule: heap_step.induct)
    (metis heap_inv_alloc, metis heap_alloc_null, metis heap_inv_dealloc)

lemma heap_inv_steps: "heap_step\<^sup>*\<^sup>* s s' \<Longrightarrow> heap_inv s \<Longrightarrow> heap_inv s'"
  by (induction rule: rtranclp_induct) (auto intro: heap_inv_step)

lemma heap_inv_init:
  assumes "bump_initialize h start nbytes = (h', Inr st)" and "0 < start"
  shows "heap_inv (h', [])"
proof -
  have "start \<le> sat_add start nbytes"
    using unat_u64_less [of start] by (simp add: word_le_nat_alt word_nat)
  then show ?thesis
    using assms by (auto simp: bump_initialize_def heap_inv_def Let_def split: if_splits)
qed

section \<open>Taking the heap from the frames\<close>

context frame_source
begin

lemma heap_takes_a_grant:
  assumes "ok s" and "heap_initialize_from alloc s h hhdm = (s', h', Inr st)"
  shows "\<exists>a. alloc s HEAP_PAGES = (s', Some a) \<and> grant a HEAP_PAGES \<subseteq> pool s
    \<and> grant a HEAP_PAGES \<inter> owned s = {} \<and> owned s' = owned s \<union> grant a HEAP_PAGES
    \<and> ba_start h' = sat_add hhdm a \<and> ba_end h' = sat_add (sat_add hhdm a) 0x800000 \<and> ba_next h' = ba_start h'"
proof -
  obtain s1 g where call: "alloc s HEAP_PAGES = (s1, g)"
    by fastforce
  with assms(2) obtain a where g: "g = Some a" "s1 = s'"
    by (auto simp: heap_initialize_from_def split: option.splits prod.splits)
  have "bump_initialize h (sat_add hhdm a) (HEAP_PAGES * PAGE_SIZE) = (h', Inr st)"
    using assms(2) call g by (simp add: heap_initialize_from_def Let_def split: prod.splits)
  then have "ba_start h' = sat_add hhdm a" "ba_end h' = sat_add (sat_add hhdm a) 0x800000"
    "ba_next h' = ba_start h'"
    by (auto simp: bump_initialize_def Let_def HEAP_PAGES_def PAGE_SIZE_def split: if_splits)
  then show ?thesis
    using call g alloc_pool [OF assms(1)] alloc_fresh [OF assms(1)] by blast
qed

end

section \<open>Properties\<close>

text \<open>
  C15.  Start from a heap that \<^verbatim>\<open>initialize\<close> accepted and let a program allocate and free
  in any order.  The blocks it holds never overlap, lie inside the heap below the bump
  pointer, and when it holds none the whole heap is free again.
\<close>

theorem heap_blocks_disjoint:
  assumes "bump_initialize bump_new start nbytes = (h0, Inr st)" and "0 < start"
    and "heap_step\<^sup>*\<^sup>* (h0, []) (h, live)"
  shows "sorted_wrt (\<lambda>b c. block b \<inter> block c = {}) live
    \<and> (\<forall>b \<in> set live. block b \<subseteq> {unat (ba_start h) ..< unat (ba_next h)})
    \<and> ba_next h \<le> ba_end h \<and> (live = [] \<longrightarrow> ba_next h = ba_start h)"
  using heap_inv_steps [OF assms(3) heap_inv_init [OF assms(1,2)]] by (auto simp: heap_inv_def)

lemma demo_heap:
  defines "h0 \<equiv> fst (bump_initialize bump_new 0x1003 0x2000)"
  shows "bump_initialize bump_new 0x1003 0x2000 = (h0, Inr (bump_stats h0))"
    and "heap_step (h0, []) (h0\<lparr>ba_next := 0x1018, ba_allocations := 1\<rparr>, [(0x1008, 0x10)])"
proof -
  show "bump_initialize bump_new 0x1003 0x2000 = (h0, Inr (bump_stats h0))"
    by (simp add: h0_def bump_initialize_def bump_new_def Let_def)
  have "heap_alloc h0 \<lparr>ly_size = 0x10, ly_align = 8\<rparr>
      = (h0\<lparr>ba_next := 0x1018, ba_allocations := 1\<rparr>, 0x1008)"
    by (simp add: h0_def bump_initialize_def bump_new_def Let_def heap_alloc_def heap_align_up_def
        sat_add_def)
  then have "heap_step (h0, []) (h0\<lparr>ba_next := 0x1018, ba_allocations := 1\<rparr>,
      [(0x1008, ly_size \<lparr>ly_size = 0x10, ly_align = 8\<rparr>)])"
    by (rule step_alloc [rotated 2])
      (auto simp: layout_ok_def h0_def bump_initialize_def bump_new_def Let_def sat_add_def
        intro!: exI [of _ 3])
  then show "heap_step (h0, []) (h0\<lparr>ba_next := 0x1018, ba_allocations := 1\<rparr>, [(0x1008, 0x10)])"
    by simp
qed

theorem heap_blocks_disjoint_witness:
  "block (0x1008, 0x10) \<subseteq> {0x1003 ..< 0x1018}"
  using heap_blocks_disjoint [OF demo_heap(1) _ r_into_rtranclp, OF _ demo_heap(2)]
  by (simp add: bump_initialize_def bump_new_def Let_def)

text \<open>
  A successful allocation returns an address with the layout's alignment, gives the
  caller exactly the requested number of bytes inside the heap, and moves the bump
  pointer past them; an unsuccessful one leaves the heap as it was.
\<close>

theorem heap_alloc_aligned:
  assumes "heap_inv (h, live)" and "layout_ok l" and "unat (ba_end h) + unat (ly_align l) < 2 ^ 64"
    and "heap_alloc h l = (h', a)"
  shows "if a = 0 then h' = h
    else unat (ly_align l) dvd unat a \<and> unat (ba_next h) \<le> unat a
      \<and> unat (ba_next h') = unat a + unat (ly_size l) \<and> ba_next h' \<le> ba_end h"
proof (cases "a = 0")
  case True
  then show ?thesis
    using assms heap_alloc_null by simp
next
  case False
  have "ba_initialized h" "0 < ba_start h" "ba_start h \<le> ba_next h" "ba_next h \<le> ba_end h"
    using assms(1) by (auto simp: heap_inv_def)
  from heap_alloc_success [OF this assms(2-4) False] False show ?thesis
    by simp
qed

theorem heap_alloc_aligned_witness:
  "unat (snd (heap_alloc (fst (bump_initialize bump_new 0x1003 0x2000)) \<lparr>ly_size = 0x10, ly_align = 8\<rparr>)) mod 8 = 0"
proof -
  let ?h = "fst (bump_initialize bump_new 0x1003 0x2000)"
  let ?l = "\<lparr>ly_size = 0x10, ly_align = 8\<rparr>"
  have "heap_inv (?h, [])"
    by (rule heap_inv_init [OF demo_heap(1)]) simp
  moreover have "layout_ok ?l" "unat (ba_end ?h) + unat (ly_align ?l) < 2 ^ 64"
    "snd (heap_alloc ?h ?l) = 0x1008"
    by (auto simp: layout_ok_def bump_initialize_def bump_new_def Let_def sat_add_def heap_alloc_def
        heap_align_up_def intro!: exI [of _ 3])
  ultimately show ?thesis
    using heap_alloc_aligned [of ?h "[]" ?l, OF _ _ _ surjective_pairing] by (simp add: dvd_eq_mod_eq_0)
qed

text \<open>
  C35.  Setting up the heap takes one run of 2048 frames that nobody held, and the heap is
  exactly that run seen through the higher-half map.
\<close>

theorem heap_initialize_takes_frames:
  assumes "frame_wf fa" and "heap_initialize fa h hhdm = (fa', h', Inr st)"
  shows "frame_wf fa' \<and> (\<exists>a. grant a HEAP_PAGES \<subseteq> frame_pool fa \<and> grant a HEAP_PAGES \<inter> frame_owned fa = {}
    \<and> frame_owned fa' = frame_owned fa \<union> grant a HEAP_PAGES
    \<and> ba_start h' = sat_add hhdm a \<and> ba_end h' = sat_add (sat_add hhdm a) 0x800000)"
  using frames.heap_takes_a_grant [OF assms] frame_contiguous_wf(1) [OF assms(1)] by blast

definition demo_big_frames :: frame_allocator where
  "demo_big_frames =
     \<lparr>fa_initialized = True, fa_region_count = 1, fa_total_bytes = 0x1000000,
      fa_allocatable_bytes = 0x1000000, fa_allocated_frames = 0,
      fa_regions = \<lparr>fr_start = 0x100000, fr_end = 0x1100000, fr_next = 0x100000\<rparr>
        # replicate 63 frame_region_empty\<rparr>"

theorem heap_initialize_takes_frames_witness:
  "\<exists>a. grant a HEAP_PAGES \<subseteq> frame_pool demo_big_frames
     \<and> 0xffff800000100000 = sat_add 0xffff800000000000 a"
proof -
  let ?r = "heap_initialize demo_big_frames bump_new 0xffff800000000000"
  let ?h = "fst (snd ?r)"
  have wf: "frame_wf demo_big_frames"
    by (simp add: frame_wf_def demo_big_frames_def active_def MAX_USABLE_REGIONS_def region_ok_def)
  have run: "?r = (fst ?r, ?h, Inr (bump_stats ?h))" and h: "ba_start ?h = 0xffff800000100000"
    by (simp_all add: heap_initialize_from_def demo_big_frames_def frame_eval HEAP_PAGES_def
        bump_initialize_def bump_new_def)
  from heap_initialize_takes_frames [OF wf run] h show ?thesis
    by auto
qed

end
