(* ===== verification/Codec.thy ===== *)
theory Codec
  imports Prelude
begin

text \<open>
  The page codec of the compressed store: \<^verbatim>\<open>kernel/src/mm/compress/checksum.rs\<close>,
  \<^verbatim>\<open>header.rs\<close>, \<^verbatim>\<open>profile_generated.rs\<close> and \<^verbatim>\<open>codec.rs\<close>.  The scratch and output
  buffers the Rust code writes through are passed and returned, also on failure.  The
  lemmas show that every page survives encoding and decoding, that the decoder never
  panics on any input and that it rejects every single-byte corruption of a payload.
\<close>

section \<open>Classes, errors and profile\<close>

datatype compression_class = Zero | Same | Sxrc | Raw

datatype compression_error =
    NotInitialized | OutputTooSmall | TruncatedInput | InvalidHeaderMagic
  | UnsupportedHeaderVersion | InvalidPayloadLength | InvalidDecodedLength
  | ChecksumMismatch | UnsupportedClass

fun class_id :: "compression_class \<Rightarrow> u8" where
  "class_id Zero = 0"
| "class_id Same = 1"
| "class_id Sxrc = 2"
| "class_id Raw = 3"

definition class_from_id :: "u8 \<Rightarrow> (compression_error, compression_class) outcome" where
  "class_from_id i =
     (if i = 0 then Ok Zero else if i = 1 then Ok Same else if i = 2 then Ok Sxrc
      else if i = 3 then Ok Raw else Fail UnsupportedClass)"

definition PAGE_BYTES :: nat where
  "PAGE_BYTES = 4096"

definition HXNU_SXRC_STATIC_DICTIONARY :: "(u16 \<times> u32) list" where
  "HXNU_SXRC_STATIC_DICTIONARY =
     [(0x0001, 0x00000000), (0x0002, 0x0000ffff), (0x0003, 0x000007fe), (0x0004, 0x000004ee),
      (0x0005, 0x00009090)]"

definition HXNU_SXRC_STATIC_PATTERNS :: "(u16 \<times> bytes) list" where
  "HXNU_SXRC_STATIC_PATTERNS = [(0x0001, [0x48, 0x89, 0xd8]), (0x0002, [0x55])]"

record encoded_page =
  ep_class :: compression_class
  ep_bytes :: bytes

section \<open>Checksum\<close>

definition fnv1a32_step :: "u32 \<Rightarrow> u8 \<Rightarrow> u32" where
  "fnv1a32_step hash byte = (hash XOR ucast byte) * 0x01000193"

definition fnv1a32 :: "bytes \<Rightarrow> u32" where
  "fnv1a32 bs = foldl fnv1a32_step 0x811c9dc5 bs"

section \<open>Header\<close>

definition HEADER_BYTES :: nat where
  "HEADER_BYTES = 16"

definition MAGIC :: u32 where
  "MAGIC = of_le [0x48, 0x58, 0x43, 0x50]"

definition VERSION :: u8 where
  "VERSION = 1"

record encoded_header =
  eh_class :: compression_class
  eh_payload_len :: u16
  eh_checksum :: u32

definition header_encode_into :: "encoded_header \<Rightarrow> bytes \<Rightarrow> (compression_error, bytes) outcome" where
  "header_encode_into h out =
     (if length out < HEADER_BYTES then Fail OutputTooSmall
      else
        and_then (copy_at out 0 (to_le 4 MAGIC)) (\<lambda>out.
        and_then (copy_at out 4 [VERSION]) (\<lambda>out.
        and_then (copy_at out 5 [class_id (eh_class h)]) (\<lambda>out.
        and_then (copy_at out 6 (to_le 2 (eh_payload_len h))) (\<lambda>out.
        and_then (copy_at out 8 (to_le 2 (of_nat PAGE_BYTES :: u16))) (\<lambda>out.
        and_then (copy_at out 10 (to_le 2 (0 :: u16))) (\<lambda>out.
        copy_at out 12 (to_le 4 (eh_checksum h)))))))))"

definition read_u16_le :: "bytes \<Rightarrow> nat \<Rightarrow> (compression_error, u16) outcome" where
  "read_u16_le input offset =
     and_then (index_at input offset) (\<lambda>a.
     and_then (index_at input (offset + 1)) (\<lambda>b. Ok (of_le [a, b])))"

definition read_u32_le :: "bytes \<Rightarrow> nat \<Rightarrow> (compression_error, u32) outcome" where
  "read_u32_le input offset =
     and_then (index_at input offset) (\<lambda>a.
     and_then (index_at input (offset + 1)) (\<lambda>b.
     and_then (index_at input (offset + 2)) (\<lambda>c.
     and_then (index_at input (offset + 3)) (\<lambda>d. Ok (of_le [a, b, c, d])))))"

definition header_decode :: "bytes \<Rightarrow> (compression_error, encoded_header) outcome" where
  "header_decode input =
     (if length input < HEADER_BYTES then Fail TruncatedInput
      else
        and_then (read_u32_le input 0) (\<lambda>magic.
        if magic \<noteq> MAGIC then Fail InvalidHeaderMagic
        else
          and_then (index_at input 4) (\<lambda>version.
          if version \<noteq> VERSION then Fail UnsupportedHeaderVersion
          else
            and_then (index_at input 5) (\<lambda>i.
            and_then (class_from_id i) (\<lambda>cls.
            and_then (read_u16_le input 6) (\<lambda>payload_len.
            and_then (read_u16_le input 8) (\<lambda>decoded_len.
            if decoded_len \<noteq> of_nat PAGE_BYTES then Fail InvalidDecodedLength
            else
              and_then (read_u32_le input 12) (\<lambda>checksum.
              Ok \<lparr>eh_class = cls, eh_payload_len = payload_len, eh_checksum = checksum\<rparr>))))))))"

section \<open>Dictionary and patterns\<close>

definition TOKEN_LITERAL :: u8 where "TOKEN_LITERAL = 0x00"
definition TOKEN_DICT :: u8 where "TOKEN_DICT = 0x01"
definition TOKEN_PATTERN :: u8 where "TOKEN_PATTERN = 0x02"
definition TOKEN_REF_BYTES :: nat where "TOKEN_REF_BYTES = 3"
definition DICT_DECODE_BYTES :: nat where "DICT_DECODE_BYTES = 4"

definition lookup_dictionary_by_value :: "u32 \<Rightarrow> u16 option" where
  "lookup_dictionary_by_value v =
     map_option fst (find (\<lambda>(i, word). word = v) HXNU_SXRC_STATIC_DICTIONARY)"

definition lookup_dictionary_by_id :: "u16 \<Rightarrow> u32 option" where
  "lookup_dictionary_by_id i =
     map_option snd (find (\<lambda>(entry_id, word). entry_id = i) HXNU_SXRC_STATIC_DICTIONARY)"

definition lookup_pattern_by_id :: "u16 \<Rightarrow> bytes option" where
  "lookup_pattern_by_id i =
     map_option snd (find (\<lambda>(entry_id, bs). entry_id = i) HXNU_SXRC_STATIC_PATTERNS)"

datatype encode_token =
    Dictionary (token_id: u16) (decoded_len: nat)
  | Pattern (token_id: u16) (decoded_len: nat)

fun best_pattern_loop ::
  "bytes \<Rightarrow> nat \<Rightarrow> (u16 \<times> bytes) list \<Rightarrow> (u16 \<times> bytes) option
    \<Rightarrow> (compression_error, (u16 \<times> bytes) option) outcome" where
  "best_pattern_loop page offset [] best = Ok best"
| "best_pattern_loop page offset ((i, bs) # rest) best =
     (if bs = [] then best_pattern_loop page offset rest best
      else if PAGE_BYTES < offset + length bs then best_pattern_loop page offset rest best
      else
        and_then (slice_at page offset (offset + length bs)) (\<lambda>here.
        if here \<noteq> bs then best_pattern_loop page offset rest best
        else if (case best of None \<Rightarrow> True | Some (_, current) \<Rightarrow> length current < length bs)
        then best_pattern_loop page offset rest (Some (i, bs))
        else best_pattern_loop page offset rest best))"

definition best_pattern_at ::
  "bytes \<Rightarrow> nat \<Rightarrow> (compression_error, (u16 \<times> bytes) option) outcome" where
  "best_pattern_at page offset = best_pattern_loop page offset HXNU_SXRC_STATIC_PATTERNS None"

definition pick_dictionary ::
  "bytes \<Rightarrow> nat \<Rightarrow> (compression_error, (nat \<times> encode_token) option) outcome" where
  "pick_dictionary page offset =
     (if offset + DICT_DECODE_BYTES \<le> PAGE_BYTES then
        and_then (index_at page offset) (\<lambda>a.
        and_then (index_at page (offset + 1)) (\<lambda>b.
        and_then (index_at page (offset + 2)) (\<lambda>c.
        and_then (index_at page (offset + 3)) (\<lambda>d.
        case lookup_dictionary_by_value (of_le [a, b, c, d]) of
          None \<Rightarrow> Ok None
        | Some i \<Rightarrow>
            let savings = DICT_DECODE_BYTES - TOKEN_REF_BYTES
            in Ok (if 0 < savings then Some (savings, Dictionary i DICT_DECODE_BYTES) else None)))))
      else Ok None)"

definition pick_token :: "bytes \<Rightarrow> nat \<Rightarrow> (compression_error, encode_token option) outcome" where
  "pick_token page offset =
     and_then (pick_dictionary page offset) (\<lambda>best.
     and_then (best_pattern_at page offset) (\<lambda>found.
     Ok (case found of
           None \<Rightarrow> map_option snd best
         | Some (i, bs) \<Rightarrow>
             let savings = length bs - TOKEN_REF_BYTES
             in if 0 < savings \<and> (case best of None \<Rightarrow> True | Some (current, _) \<Rightarrow> current < savings)
                then Some (Pattern i (length bs)) else map_option snd best)))"

section \<open>Encoder\<close>

text \<open>The loop of \<^verbatim>\<open>emit_literal_run\<close> at \<^verbatim>\<open>offset\<close>; one turn writes a run of up to 255 bytes.\<close>

function emit_literal_loop ::
  "bytes \<Rightarrow> nat \<Rightarrow> bytes \<Rightarrow> nat \<Rightarrow> bytes \<times> (compression_error, nat) outcome" where
  "emit_literal_loop out wr bs offset =
     (if offset < length bs then
        let chunk = min (length bs - offset) 255;
            needed = usize_sat_add 2 chunk
        in if past_end wr needed (length out) then (out, Fail OutputTooSmall)
           else case
             and_then (copy_at out wr [TOKEN_LITERAL]) (\<lambda>out.
             and_then (copy_at out (wr + 1) [of_nat chunk]) (\<lambda>out.
             and_then (slice_at bs offset (offset + chunk)) (\<lambda>run.
             copy_at out (wr + 2) run)))
           of Inl e \<Rightarrow> (out, Inl e)
            | Inr out' \<Rightarrow>
                emit_literal_loop out' (usize_sat_add wr needed) bs (offset + chunk)
      else (out, Ok wr))"
  by pat_completeness auto
termination
  by (relation "measure (\<lambda>(out, wr, bs, offset). length bs - offset)") auto

definition emit_literal_run ::
  "bytes \<Rightarrow> nat \<Rightarrow> bytes \<Rightarrow> bytes \<times> (compression_error, nat) outcome" where
  "emit_literal_run out wr bs = emit_literal_loop out wr bs 0"

definition emit_ref_token ::
  "bytes \<Rightarrow> nat \<Rightarrow> u8 \<Rightarrow> u16 \<Rightarrow> bytes \<times> (compression_error, nat) outcome" where
  "emit_ref_token out wr tag i =
     (if past_end wr TOKEN_REF_BYTES (length out) then (out, Fail OutputTooSmall)
      else case
        and_then (copy_at out wr [tag]) (\<lambda>out. copy_at out (wr + 1) (to_le 2 i))
      of Inl e \<Rightarrow> (out, Inl e)
       | Inr out' \<Rightarrow> (out', Ok (wr + TOKEN_REF_BYTES)))"

text \<open>Write out the literal run collected so far, if there is one.\<close>

definition flush_literals ::
  "bytes \<Rightarrow> bytes \<Rightarrow> nat \<Rightarrow> nat \<Rightarrow> nat \<Rightarrow> bytes \<times> (compression_error, nat) outcome" where
  "flush_literals page out wr literal_start literal_len =
     (if 0 < literal_len then
        case slice_at page literal_start (literal_start + literal_len) of
          Inl e \<Rightarrow> (out, Inl e)
        | Inr run \<Rightarrow> emit_literal_run out wr run
      else (out, Ok wr))"

fun token_tag :: "encode_token \<Rightarrow> u8" where
  "token_tag (Dictionary _ _) = TOKEN_DICT"
| "token_tag (Pattern _ _) = TOKEN_PATTERN"

lemma pick_dictionary_Some:
  "pick_dictionary page offset = Ok (Some (n, t)) \<Longrightarrow>
     \<exists>i. t = Dictionary i DICT_DECODE_BYTES \<and> offset + DICT_DECODE_BYTES \<le> PAGE_BYTES
       \<and> lookup_dictionary_by_value
            (of_le [page ! offset, page ! (offset + 1), page ! (offset + 2), page ! (offset + 3)]) = Some i"
  by (auto simp: pick_dictionary_def Let_def index_at_def split: option.splits if_splits elim!: and_then_InrE)

lemma pick_token_cases:
  assumes "pick_token page offset = Ok (Some t)"
  obtains n where "pick_dictionary page offset = Ok (Some (n, t))"
  | i bs where "best_pattern_at page offset = Ok (Some (i, bs))" and "t = Pattern i (length bs)"
    and "TOKEN_REF_BYTES < length bs"
  using assms
  by (auto simp: pick_token_def Let_def split: option.splits if_splits elim!: and_then_InrE)

lemma pick_token_progress: "pick_token page offset = Ok (Some t) \<Longrightarrow> 0 < decoded_len t"
  by (erule pick_token_cases) (auto simp: DICT_DECODE_BYTES_def dest!: pick_dictionary_Some)

function encode_sxrc_loop ::
  "bytes \<Rightarrow> bytes \<Rightarrow> nat \<Rightarrow> nat \<Rightarrow> nat \<Rightarrow> nat \<Rightarrow> bytes \<times> (compression_error, nat) outcome" where
  "encode_sxrc_loop page out rd wr literal_start literal_len =
     (if rd < PAGE_BYTES then
        case pick_token page rd of
          Inl e \<Rightarrow> (out, Inl e)
        | Inr (Some token) \<Rightarrow>
            st_then (flush_literals page out wr literal_start literal_len) (\<lambda>out wr.
            st_then (emit_ref_token out wr (token_tag token) (token_id token)) (\<lambda>out wr.
            encode_sxrc_loop page out (usize_sat_add rd (decoded_len token)) wr literal_start 0))
        | Inr None \<Rightarrow>
            let literal_start = (if literal_len = 0 then rd else literal_start);
                literal_len = usize_sat_add literal_len 1;
                rd = usize_sat_add rd 1
            in if literal_len = 255 then
                 st_then (flush_literals page out wr literal_start literal_len) (\<lambda>out wr.
                 encode_sxrc_loop page out rd wr literal_start 0)
               else encode_sxrc_loop page out rd wr literal_start literal_len
      else flush_literals page out wr literal_start literal_len)"
  by pat_completeness auto
termination
  by (relation "measure (\<lambda>(page, out, rd, wr, literal_start, literal_len). PAGE_BYTES - rd)")
    (auto simp: usize_sat_add_def usize_max_def PAGE_BYTES_def dest!: pick_token_progress)

definition encode_sxrc_payload :: "bytes \<Rightarrow> bytes \<Rightarrow> bytes \<times> (compression_error, nat) outcome" where
  "encode_sxrc_payload page out = encode_sxrc_loop page out 0 0 0 0"

declare emit_literal_loop.simps [simp del] encode_sxrc_loop.simps [simp del]

definition is_zero_page :: "bytes \<Rightarrow> bool" where
  "is_zero_page page = list_all (\<lambda>byte. byte = 0) page"

definition is_same_page :: "bytes \<Rightarrow> (compression_error, bool) outcome" where
  "is_same_page page = and_then (index_at page 0) (\<lambda>first. Ok (list_all (\<lambda>byte. byte = first) page))"

text \<open>The class and the length of the payload, with the payload written behind the header's place.\<close>

definition encode_payload ::
  "bytes \<Rightarrow> bytes \<Rightarrow> bytes \<times> (compression_error, compression_class \<times> nat) outcome" where
  "encode_payload page scratch =
     (if is_zero_page page then (scratch, Ok (Zero, 0))
      else case is_same_page page of
        Inl e \<Rightarrow> (scratch, Inl e)
      | Inr same \<Rightarrow>
          if same then
            if length scratch < HEADER_BYTES + 1 then (scratch, Fail OutputTooSmall)
            else case and_then (index_at page 0) (\<lambda>b. copy_at scratch HEADER_BYTES [b]) of
              Inl e \<Rightarrow> (scratch, Inl e)
            | Inr scratch' \<Rightarrow> (scratch', Ok (Same, 1))
          else if length scratch < HEADER_BYTES + PAGE_BYTES then (scratch, Fail OutputTooSmall)
          else case encode_sxrc_payload page (drop HEADER_BYTES scratch) of
            (payload_scratch, r) \<Rightarrow>
              if (case r of Inr sxrc_len \<Rightarrow> sxrc_len < PAGE_BYTES | Inl _ \<Rightarrow> False)
              then (take HEADER_BYTES scratch @ payload_scratch, map_sum id (\<lambda>n. (Sxrc, n)) r)
              else if (case r of Inr _ \<Rightarrow> True | Inl e \<Rightarrow> e = Err OutputTooSmall)
              then case copy_at payload_scratch 0 page of
                  Inl e \<Rightarrow> (take HEADER_BYTES scratch @ payload_scratch, Inl e)
                | Inr payload_scratch' \<Rightarrow>
                    (take HEADER_BYTES scratch @ payload_scratch', Ok (Raw, PAGE_BYTES))
              else (take HEADER_BYTES scratch @ payload_scratch, map_sum id (\<lambda>n. (Sxrc, n)) r))"

definition encode_page :: "bytes \<Rightarrow> bytes \<Rightarrow> bytes \<times> (compression_error, encoded_page) outcome" where
  "encode_page page scratch =
     (if length scratch < HEADER_BYTES then (scratch, Fail OutputTooSmall)
      else
        st_then (encode_payload page scratch) (\<lambda>scratch (cls, payload_len).
        case
          and_then (ok_or (usize_checked_add HEADER_BYTES payload_len) InvalidPayloadLength) (\<lambda>encoded_len.
          and_then (slice_at scratch HEADER_BYTES encoded_len) (\<lambda>payload.
          and_then (header_encode_into
            \<lparr>eh_class = cls, eh_payload_len = of_nat payload_len, eh_checksum = fnv1a32 payload\<rparr>
            scratch) (\<lambda>scratch'.
          and_then (slice_at scratch' 0 encoded_len) (\<lambda>encoded.
          Ok (scratch', \<lparr>ep_class = cls, ep_bytes = encoded\<rparr>)))))
        of Inl e \<Rightarrow> (scratch, Inl e)
         | Inr (scratch', encoded) \<Rightarrow> (scratch', Ok encoded)))"

section \<open>Decoder\<close>

text \<open>\<^verbatim>\<open>read_u16\<close> returns the value and the advanced cursor.\<close>

definition read_u16 :: "bytes \<Rightarrow> nat \<Rightarrow> (compression_error, u16 \<times> nat) outcome" where
  "read_u16 payload rd =
     (if past_end rd 2 (length payload) then Fail InvalidPayloadLength
      else
        and_then (index_at payload rd) (\<lambda>a.
        and_then (index_at payload (rd + 1)) (\<lambda>b.
        Ok (of_le [a, b], usize_sat_add rd 2))))"

text \<open>
  One token of the stream: the bytes it stands for and the cursor after it.  The room
  left in the page is checked before anything is written.
\<close>

definition decode_literal :: "bytes \<Rightarrow> nat \<Rightarrow> nat \<Rightarrow> (compression_error, bytes \<times> nat) outcome" where
  "decode_literal payload rd wr =
     (if length payload \<le> rd then Fail InvalidPayloadLength
      else
        and_then (index_at payload rd) (\<lambda>l.
        let len = unat l; rd = usize_sat_add rd 1
        in if len = 0 then Fail InvalidPayloadLength
           else if past_end rd len (length payload) then Fail InvalidPayloadLength
           else if past_end wr len PAGE_BYTES then Fail InvalidPayloadLength
           else and_then (slice_at payload rd (rd + len)) (\<lambda>run.
             Ok (run, usize_sat_add rd len))))"

definition decode_dict :: "bytes \<Rightarrow> nat \<Rightarrow> nat \<Rightarrow> (compression_error, bytes \<times> nat) outcome" where
  "decode_dict payload rd wr =
     and_then (read_u16 payload rd) (\<lambda>(i, rd).
     and_then (ok_or (lookup_dictionary_by_id i) InvalidPayloadLength) (\<lambda>v.
     if past_end wr DICT_DECODE_BYTES PAGE_BYTES then Fail InvalidPayloadLength
     else Ok (to_le 4 v, rd)))"

definition decode_pattern :: "bytes \<Rightarrow> nat \<Rightarrow> nat \<Rightarrow> (compression_error, bytes \<times> nat) outcome" where
  "decode_pattern payload rd wr =
     and_then (read_u16 payload rd) (\<lambda>(i, rd).
     and_then (ok_or (lookup_pattern_by_id i) InvalidPayloadLength) (\<lambda>bs.
     if past_end wr (length bs) PAGE_BYTES then Fail InvalidPayloadLength
     else Ok (bs, rd)))"

definition decode_token :: "bytes \<Rightarrow> nat \<Rightarrow> nat \<Rightarrow> (compression_error, bytes \<times> nat) outcome" where
  "decode_token payload rd wr =
     (if length payload \<le> rd then Fail InvalidPayloadLength
      else
        and_then (index_at payload rd) (\<lambda>token.
        let rd = usize_sat_add rd 1
        in if token = TOKEN_LITERAL then decode_literal payload rd wr
           else if token = TOKEN_DICT then decode_dict payload rd wr
           else if token = TOKEN_PATTERN then decode_pattern payload rd wr
           else Fail InvalidPayloadLength))"

lemma lookup_pattern_nonempty: "lookup_pattern_by_id i = Some bs \<Longrightarrow> bs \<noteq> []"
  by (auto simp: lookup_pattern_by_id_def HXNU_SXRC_STATIC_PATTERNS_def split: if_splits)

lemma decode_token_Ok:
  assumes "decode_token payload rd wr = Ok (run, rd')"
  shows "0 < length run" and "wr + length run \<le> PAGE_BYTES"
  using assms
  by (auto simp: decode_token_def decode_literal_def decode_dict_def decode_pattern_def Let_def
      ok_or_Inr past_end_iff slice_at_def DICT_DECODE_BYTES_def lookup_pattern_nonempty
      split: if_splits elim!: and_then_InrE)

function decode_sxrc_loop ::
  "bytes \<Rightarrow> bytes \<Rightarrow> nat \<Rightarrow> nat \<Rightarrow> bytes \<times> (compression_error, unit) outcome" where
  "decode_sxrc_loop payload out rd wr =
     (if wr < PAGE_BYTES then
        case decode_token payload rd wr of
          Inl e \<Rightarrow> (out, Inl e)
        | Inr (run, rd') \<Rightarrow>
            (case copy_at out wr run of
               Inl e \<Rightarrow> (out, Inl e)
             | Inr out' \<Rightarrow> decode_sxrc_loop payload out' rd' (usize_sat_add wr (length run)))
      else if rd \<noteq> length payload then (out, Fail InvalidPayloadLength)
      else (out, Ok ()))"
  by pat_completeness auto
termination
  by (relation "measure (\<lambda>(payload, out, rd, wr). PAGE_BYTES - wr)")
    (auto simp: usize_sat_add_def usize_max_def PAGE_BYTES_def neq_Nil_conv dest!: decode_token_Ok(1))

declare decode_sxrc_loop.simps [simp del]

definition decode_sxrc_payload :: "bytes \<Rightarrow> bytes \<Rightarrow> bytes \<times> (compression_error, unit) outcome" where
  "decode_sxrc_payload payload out = decode_sxrc_loop payload out 0 0"

text \<open>The checks before anything is written: header, length and checksum.\<close>

definition decode_check :: "bytes \<Rightarrow> (compression_error, encoded_header \<times> bytes) outcome" where
  "decode_check encoded =
     and_then (header_decode encoded) (\<lambda>header.
     let payload_len = unat (eh_payload_len header)
     in and_then (ok_or (usize_checked_add HEADER_BYTES payload_len) InvalidPayloadLength) (\<lambda>encoded_len.
        if length encoded \<noteq> encoded_len then Fail InvalidPayloadLength
        else and_then (slice_at encoded HEADER_BYTES encoded_len) (\<lambda>payload.
          if fnv1a32 payload \<noteq> eh_checksum header then Fail ChecksumMismatch
          else Ok (header, payload))))"

definition decode_class ::
  "compression_class \<Rightarrow> bytes \<Rightarrow> bytes \<Rightarrow> bytes \<times> (compression_error, unit) outcome" where
  "decode_class cls payload out =
     (case cls of
        Zero \<Rightarrow> if payload \<noteq> [] then (out, Fail InvalidPayloadLength)
                else (replicate (length out) 0, Ok ())
      | Same \<Rightarrow> if length payload \<noteq> 1 then (out, Fail InvalidPayloadLength)
                else (case index_at payload 0 of
                        Inl e \<Rightarrow> (out, Inl e)
                      | Inr b \<Rightarrow> (replicate (length out) b, Ok ()))
      | Raw \<Rightarrow> if length payload \<noteq> PAGE_BYTES then (out, Fail InvalidPayloadLength)
               else if length payload \<noteq> length out then (out, Abort)
               else (payload, Ok ())
      | Sxrc \<Rightarrow> decode_sxrc_payload payload out)"

definition decode_page ::
  "bytes \<Rightarrow> bytes \<Rightarrow> bytes \<times> (compression_error, compression_class) outcome" where
  "decode_page encoded out =
     (case decode_check encoded of
        Inl e \<Rightarrow> (out, Inl e)
      | Inr (header, payload) \<Rightarrow>
          st_then (decode_class (eh_class header) payload out) (\<lambda>out _. (out, Ok (eh_class header))))"

section \<open>Header round trip\<close>

definition header_bytes :: "encoded_header \<Rightarrow> bytes" where
  "header_bytes h =
     to_le 4 MAGIC @ [VERSION] @ [class_id (eh_class h)] @ to_le 2 (eh_payload_len h)
     @ to_le 2 (of_nat PAGE_BYTES :: u16) @ to_le 2 (0 :: u16) @ to_le 4 (eh_checksum h)"

lemma length_header_bytes [simp]: "length (header_bytes h) = HEADER_BYTES"
  by (simp add: header_bytes_def HEADER_BYTES_def)

lemma to_le_2: "to_le 2 w = [ucast w, ucast (drop_bit 8 w)]"
  by (simp add: numeral_eq_Suc)

lemma to_le_4:
  "to_le 4 w = [ucast w, ucast (drop_bit 8 w), ucast (drop_bit 16 w), ucast (drop_bit 24 w)]"
  by (simp add: numeral_eq_Suc)

lemma header_encode_into_bytes:
  assumes "HEADER_BYTES \<le> length out"
  shows "header_encode_into h out = Ok (header_bytes h @ drop HEADER_BYTES out)"
proof -
  obtain a0 a1 a2 a3 a4 a5 a6 a7 a8 a9 a10 a11 a12 a13 a14 a15 rest where
    "out = [a0, a1, a2, a3, a4, a5, a6, a7, a8, a9, a10, a11, a12, a13, a14, a15] @ rest"
    using assms by (auto simp: HEADER_BYTES_def numeral_eq_Suc Suc_le_length_iff)
  then show ?thesis
    by (simp add: header_encode_into_def header_bytes_def HEADER_BYTES_def copy_at_def copy_into_def
        to_le_2 to_le_4)
qed

lemma class_from_id_id [simp]: "class_from_id (class_id c) = Ok c"
  by (cases c) (auto simp: class_from_id_def)

lemma header_decode_bytes: "header_decode (header_bytes h @ payload) = Ok h"
proof -
  have two: "of_le [ucast w, ucast (drop_bit 8 w)] = w" for w :: u16
    using of_le_to_le_full [of 2 w] by (simp add: to_le_2)
  have four: "of_le [ucast w, ucast (drop_bit 8 w), ucast (drop_bit 16 w), ucast (drop_bit 24 w)] = w"
    for w :: u32
    using of_le_to_le_full [of 4 w] by (simp add: to_le_4)
  show ?thesis
    by (simp add: header_decode_def header_bytes_def HEADER_BYTES_def read_u32_le_def read_u16_le_def
        to_le_2 to_le_4 two four index_at_def)
qed

section \<open>Token streams\<close>

text \<open>
  What the payload means, apart from buffers and cursors: a list of tokens, the bytes
  each is written as and the bytes each stands for.
\<close>

datatype token = Literal bytes | DictRef u16 | PatternRef u16

fun token_ok :: "token \<Rightarrow> bool" where
  "token_ok (Literal bs) \<longleftrightarrow> bs \<noteq> [] \<and> length bs \<le> 255"
| "token_ok (DictRef i) \<longleftrightarrow> lookup_dictionary_by_id i \<noteq> None"
| "token_ok (PatternRef i) \<longleftrightarrow> lookup_pattern_by_id i \<noteq> None"

fun token_render :: "token \<Rightarrow> bytes" where
  "token_render (Literal bs) = TOKEN_LITERAL # of_nat (length bs) # bs"
| "token_render (DictRef i) = TOKEN_DICT # to_le 2 i"
| "token_render (PatternRef i) = TOKEN_PATTERN # to_le 2 i"

fun token_expand :: "token \<Rightarrow> bytes" where
  "token_expand (Literal bs) = bs"
| "token_expand (DictRef i) = to_le 4 (the (lookup_dictionary_by_id i))"
| "token_expand (PatternRef i) = the (lookup_pattern_by_id i)"

abbreviation render :: "token list \<Rightarrow> bytes" where "render ts \<equiv> concat (map token_render ts)"
abbreviation expand :: "token list \<Rightarrow> bytes" where "expand ts \<equiv> concat (map token_expand ts)"

text \<open>
  What a writer of the stream does to the buffer: it appends the rendering of tokens that
  stand for \<open>data\<close>, or runs out of room.
\<close>

definition writes :: "bytes \<Rightarrow> bytes \<Rightarrow> nat \<Rightarrow> bytes \<times> (compression_error, nat) outcome \<Rightarrow> bool" where
  "writes data out wr r \<longleftrightarrow> length (fst r) = length out
     \<and> (case snd r of
          Inl e \<Rightarrow> e = Err OutputTooSmall
        | Inr wr' \<Rightarrow> wr' \<le> length out \<and> (\<exists>ts. list_all token_ok ts \<and> expand ts = data
            \<and> take wr' (fst r) = take wr out @ render ts))"

lemma writes_full: "writes data out wr (out, Fail OutputTooSmall)"
  by (simp add: writes_def)

lemma writes_nothing: "wr \<le> length out \<Longrightarrow> writes [] out wr (out, Ok wr)"
  by (auto simp: writes_def intro: exI [of _ "[]"])

lemma writes_one:
  assumes "token_ok t" and "wr + length (token_render t) \<le> length out"
  shows "writes (token_expand t) out wr
    (copy_into out wr (token_render t), Ok (wr + length (token_render t)))"
  using assms by (auto simp: writes_def intro: exI [of _ "[t]"])

lemma writes_trans:
  assumes "writes d1 out wr r"
    and "\<And>out' wr'. r = (out', Inr wr') \<Longrightarrow> wr' \<le> length out' \<Longrightarrow> writes d2 out' wr' (f out' wr')"
  shows "writes (d1 @ d2) out wr (st_then r f)"
proof (cases r)
  case (Pair out' x)
  show ?thesis
  proof (cases x)
    case (Inl e)
    with Pair assms(1) show ?thesis by (simp add: writes_def)
  next
    case (Inr wr')
    with Pair assms obtain ts where 1: "length out' = length out" "list_all token_ok ts" "expand ts = d1"
      "take wr' out' = take wr out @ render ts" and 2: "writes d2 out' wr' (f out' wr')"
      by (auto simp: writes_def)
    show ?thesis
    proof (cases "snd (f out' wr')")
      case (Inl e)
      with 1 2 \<open>x = Inr wr'\<close> Pair show ?thesis by (simp add: writes_def)
    next
      case (Inr wr'')
      with 2 obtain us where "list_all token_ok us" "expand us = d2" "wr'' \<le> length out'"
        "take wr'' (fst (f out' wr')) = take wr' out' @ render us" "length (fst (f out' wr')) = length out'"
        by (auto simp: writes_def)
      with 1 Inr \<open>x = Inr wr'\<close> Pair show ?thesis
        by (auto simp: writes_def intro!: exI [of _ "ts @ us"])
    qed
  qed
qed

lemma copy_into_append:
  assumes "i + length xs + length ys \<le> length out"
  shows "copy_into (copy_into out i xs) (i + length xs) ys = copy_into out i (xs @ ys)"
  using assms by (simp add: copy_into_def ac_simps)

lemma emit_literal_loop_writes:
  assumes "wr \<le> length out" and "offset \<le> length bs"
  shows "writes (drop offset bs) out wr (emit_literal_loop out wr bs offset)"
  using assms
proof (induction out wr bs offset rule: emit_literal_loop.induct)
  case (1 out wr bs offset)
  define chunk where "chunk = min (length bs - offset) 255"
  define run where "run = slice bs offset (offset + chunk)"
  have needed: "usize_sat_add 2 chunk = 2 + chunk"
    by (simp add: chunk_def usize_sat_add_def usize_max_def)
  show ?case
  proof (cases "offset < length bs \<and> \<not> past_end wr (2 + chunk) (length out)")
    case True
    then have room: "wr + (2 + chunk) \<le> length out" "wr + (2 + chunk) \<le> usize_max"
      by (auto simp: past_end_iff)
    have run: "length run = chunk" "run \<noteq> []" "chunk \<le> 255" "offset + chunk \<le> length bs"
      using True by (auto simp: run_def chunk_def)
    let ?out = "copy_into out wr (token_render (Literal run))"
    have steps: "and_then (copy_at out wr [TOKEN_LITERAL]) (\<lambda>out.
        and_then (copy_at out (wr + 1) [of_nat chunk]) (\<lambda>out.
        and_then (slice_at bs offset (offset + chunk)) (\<lambda>r. copy_at out (wr + 2) r)))
        = (Ok ?out :: (compression_error, bytes) outcome)"
      using room run copy_into_append [of wr "[TOKEN_LITERAL]" "[of_nat chunk]" out]
        copy_into_append [of wr "[TOKEN_LITERAL, of_nat chunk]" run out]
      by (simp add: run_def [symmetric])
    have "emit_literal_loop out wr bs offset
        = emit_literal_loop ?out (wr + (2 + chunk)) bs (offset + chunk)"
      using True room steps
      by (subst emit_literal_loop.simps) (simp add: Let_def chunk_def [symmetric] needed)
    moreover have "writes (run @ drop (offset + chunk) bs) out wr
        (st_then (?out, Ok (wr + length (token_render (Literal run))))
          (\<lambda>out wr. emit_literal_loop out wr bs (offset + chunk)))"
    proof (rule writes_trans)
      show "writes run out wr (?out, Ok (wr + length (token_render (Literal run))))"
        using writes_one [of "Literal run" wr out] run room by simp
    next
      fix out' wr'
      assume "(?out, Ok (wr + length (token_render (Literal run)))) = (out', Inr wr')" "wr' \<le> length out'"
      then show "writes (drop (offset + chunk) bs) out' wr' (emit_literal_loop out' wr' bs (offset + chunk))"
        using "1.IH" [OF _ chunk_def needed [symmetric] _ steps] True run room
        by (simp add: past_end_iff usize_sat_add_def)
    qed
    moreover have "run @ drop (offset + chunk) bs = drop offset bs"
      using run(4) by (simp add: run_def slice_def flip: drop_drop) (metis append_take_drop_id drop_drop add.commute)
    ultimately show ?thesis
      using run by simp
  next
    case False
    then show ?thesis
      using "1.prems" writes_full writes_nothing
      by (subst emit_literal_loop.simps) (auto simp: Let_def needed chunk_def [symmetric])
  qed
qed

lemma emit_ref_token_writes:
  assumes "wr \<le> length out" and "token_ok t" and "token_render t = tag # to_le 2 i"
  shows "writes (token_expand t) out wr (emit_ref_token out wr tag i)"
proof (cases "past_end wr TOKEN_REF_BYTES (length out)")
  case True
  then show ?thesis by (simp add: emit_ref_token_def writes_full)
next
  case False
  then have room: "wr + 3 \<le> length out"
    by (simp add: past_end_iff TOKEN_REF_BYTES_def)
  then have "emit_ref_token out wr tag i = (copy_into out wr (tag # to_le 2 i), Ok (wr + 3))"
    using False copy_into_append [of wr "[tag]" "to_le 2 i" out]
    by (simp add: emit_ref_token_def TOKEN_REF_BYTES_def)
  then show ?thesis
    using writes_one [of t wr out] assms room by simp
qed

section \<open>What the encoder picks\<close>

lemma lookup_dictionary_consistent:
  "lookup_dictionary_by_value v = Some i \<Longrightarrow> lookup_dictionary_by_id i = Some v"
  by (auto simp: lookup_dictionary_by_value_def lookup_dictionary_by_id_def
      HXNU_SXRC_STATIC_DICTIONARY_def split: if_splits)

lemma best_pattern_loop_spec:
  assumes "length page = PAGE_BYTES"
  shows "\<exists>r. best_pattern_loop page offset ps best = Ok r
    \<and> (\<forall>i bs. r = Some (i, bs) \<longrightarrow> best = Some (i, bs) \<or>
         ((i, bs) \<in> set ps \<and> offset + length bs \<le> PAGE_BYTES \<and> slice page offset (offset + length bs) = bs))"
proof (induction ps arbitrary: best)
  case (Cons p ps)
  obtain i bs where p: "p = (i, bs)"
    by fastforce
  have "\<exists>best'. best_pattern_loop page offset (p # ps) best = best_pattern_loop page offset ps best'
    \<and> (best' = best \<or> best' = Some (i, bs) \<and> offset + length bs \<le> PAGE_BYTES
         \<and> slice page offset (offset + length bs) = bs)"
    using assms by (auto simp: p)
  then show ?case
    using Cons.IH by (fastforce simp: p)
qed simp

lemma best_pattern_at_spec:
  assumes "length page = PAGE_BYTES"
  shows "\<exists>r. best_pattern_at page offset = Ok r
    \<and> (\<forall>i bs. r = Some (i, bs) \<longrightarrow> lookup_pattern_by_id i = Some bs
         \<and> offset + length bs \<le> PAGE_BYTES \<and> slice page offset (offset + length bs) = bs)"
proof -
  have "lookup_pattern_by_id i = Some bs" if "(i, bs) \<in> set HXNU_SXRC_STATIC_PATTERNS" for i bs
    using that by (auto simp: lookup_pattern_by_id_def HXNU_SXRC_STATIC_PATTERNS_def)
  then show ?thesis
    using best_pattern_loop_spec [OF assms, of offset HXNU_SXRC_STATIC_PATTERNS None]
    unfolding best_pattern_at_def by fastforce
qed

lemma slice_four:
  assumes "offset + 4 \<le> length xs"
  shows "slice xs offset (offset + 4) = [xs ! offset, xs ! (offset + 1), xs ! (offset + 2), xs ! (offset + 3)]"
  using assms by (intro nth_equalityI) (auto simp: nth_slice less_Suc_eq numeral_eq_Suc)

lemma pick_dictionary_ok:
  "length page = PAGE_BYTES \<Longrightarrow> \<exists>r. pick_dictionary page offset = Ok r"
  by (auto simp: pick_dictionary_def DICT_DECODE_BYTES_def Let_def split: option.splits)

lemma pick_token_ok:
  assumes "length page = PAGE_BYTES" shows "\<exists>r. pick_token page offset = Ok r"
  using pick_dictionary_ok [OF assms, of offset] best_pattern_at_spec [OF assms, of offset]
  by (auto simp: pick_token_def)

fun ref_token :: "encode_token \<Rightarrow> token" where
  "ref_token (Dictionary i _) = DictRef i"
| "ref_token (Pattern i _) = PatternRef i"

lemma ref_token_render: "token_render (ref_token t) = token_tag t # to_le 2 (token_id t)"
  by (cases t) auto

lemma pick_token_Some:
  assumes page: "length page = PAGE_BYTES" and pick: "pick_token page offset = Ok (Some t)"
  shows "token_ok (ref_token t) \<and> offset + decoded_len t \<le> PAGE_BYTES
    \<and> token_expand (ref_token t) = slice page offset (offset + decoded_len t)"
  using pick
proof (cases rule: pick_token_cases)
  case (1 n)
  then obtain i where i: "t = Dictionary i DICT_DECODE_BYTES" "offset + 4 \<le> PAGE_BYTES"
    "lookup_dictionary_by_value
      (of_le [page ! offset, page ! (offset + 1), page ! (offset + 2), page ! (offset + 3)]) = Some i"
    using pick_dictionary_Some by (fastforce simp: DICT_DECODE_BYTES_def)
  then have "lookup_dictionary_by_id i = Some (of_le (slice page offset (offset + 4)))"
    using lookup_dictionary_consistent page by (simp add: slice_four)
  with i page show ?thesis
    by (simp add: DICT_DECODE_BYTES_def to_le_of_le)
next
  case (2 i bs)
  then show ?thesis
    using best_pattern_at_spec [OF page, of offset] by auto
qed

section \<open>The encoder writes a stream for the page\<close>

lemma flush_literals_writes:
  assumes "rd \<le> length page" "ll \<le> rd" and "0 < ll \<Longrightarrow> ls = rd - ll" and "wr \<le> length out"
  shows "writes (slice page (rd - ll) rd) out wr (flush_literals page out wr ls ll)"
proof (cases "0 < ll")
  case True
  then show ?thesis
    using assms emit_literal_loop_writes [of wr out 0 "slice page (rd - ll) rd"]
    by (simp add: flush_literals_def emit_literal_run_def)
next
  case False
  then show ?thesis
    using writes_nothing [OF assms(4)] by (simp add: flush_literals_def slice_def)
qed

lemma slice_join: "i \<le> j \<Longrightarrow> slice xs i j @ drop j xs = drop i xs"
  by (simp add: slice_def) (metis append_take_drop_id drop_drop le_add_diff_inverse2)

lemma encode_sxrc_loop_writes:
  assumes "length page = PAGE_BYTES" "rd \<le> PAGE_BYTES" "ll \<le> rd" "ll < 255"
    and "0 < ll \<Longrightarrow> ls = rd - ll" and "wr \<le> length out"
  shows "writes (drop (rd - ll) page) out wr (encode_sxrc_loop page out rd wr ls ll)"
  using assms
proof (induction page out rd wr ls ll rule: encode_sxrc_loop.induct)
  case (1 page out rd wr ls ll)
  note page = \<open>length page = PAGE_BYTES\<close>
  have small: "PAGE_BYTES < usize_max"
    by (simp add: PAGE_BYTES_def usize_max_def)
  show ?case
  proof (cases "rd < PAGE_BYTES")
    case False
    with "1.prems" have "rd = length page" by simp
    then show ?thesis
      using "1.prems" flush_literals_writes [of rd page ll ls wr out] slice_join [of "rd - ll" rd page]
      by (subst encode_sxrc_loop.simps) simp
  next
    case True
    obtain pick where pick: "pick_token page rd = Ok pick"
      using pick_token_ok [OF page] by blast
    show ?thesis
    proof (cases pick)
      case (Some t)
      note t = pick_token_Some [OF page pick [unfolded Some]]
      have "writes (slice page (rd - ll) rd @ slice page rd (rd + decoded_len t) @ drop (rd + decoded_len t) page)
          out wr (encode_sxrc_loop page out rd wr ls ll)"
      proof -
        have next_rd: "usize_sat_add rd (decoded_len t) = rd + decoded_len t"
          using t small by simp
        have rest: "writes (drop (rd + decoded_len t) page) out2 wr2
            (encode_sxrc_loop page out2 (rd + decoded_len t) wr2 ls 0)"
          if "flush_literals page out wr ls ll = (out1, Inr wr1)"
            "emit_ref_token out1 wr1 (token_tag t) (token_id t) = (out2, Inr wr2)" "wr2 \<le> length out2"
          for out1 wr1 out2 wr2
          using "1.IH"(3) [OF True pick Some that(1) that(2)] that(3) page t
          by (simp add: next_rd)
        show ?thesis
          using True pick Some "1.prems"
          by (subst encode_sxrc_loop.simps)
            (simp add: next_rd, intro writes_trans flush_literals_writes, simp_all,
              metis t emit_ref_token_writes ref_token_render, rule rest, simp_all)
      qed
      then show ?thesis
        using slice_join [of "rd - ll" rd page] slice_join [of rd "rd + decoded_len t" page] by simp
    next
      case None
      define ls' where "ls' = (if ll = 0 then rd else ls)"
      have start: "ls' = Suc rd - Suc ll"
        using "1.prems" by (cases "ll = 0") (simp_all add: ls'_def)
      have steps: "usize_sat_add ll 1 = Suc ll" "usize_sat_add rd 1 = Suc rd"
        using "1.prems" True small by simp_all
      have loop: "encode_sxrc_loop page out rd wr ls ll =
          (if Suc ll = 255 then st_then (flush_literals page out wr ls' (Suc ll))
             (\<lambda>out wr. encode_sxrc_loop page out (Suc rd) wr ls' 0)
           else encode_sxrc_loop page out (Suc rd) wr ls' (Suc ll))"
        using True pick None
        by (subst encode_sxrc_loop.simps) (simp add: Let_def steps [simplified] ls'_def)
      show ?thesis
      proof (cases "Suc ll = 255")
        case full: True
        have rest: "writes (drop (Suc rd) page) out1 wr1 (encode_sxrc_loop page out1 (Suc rd) wr1 ls' 0)"
          if "flush_literals page out wr ls' (Suc ll) = (out1, Inr wr1)" "wr1 \<le> length out1" for out1 wr1
          using "1.IH"(1) [OF True pick None ls'_def steps [symmetric] full that(1)] that(2) True page
          by simp
        have "writes (slice page (Suc rd - Suc ll) (Suc rd) @ drop (Suc rd) page) out wr
            (st_then (flush_literals page out wr ls' (Suc ll))
              (\<lambda>out wr. encode_sxrc_loop page out (Suc rd) wr ls' 0))"
          using True page "1.prems" start
          by (intro writes_trans flush_literals_writes rest) simp_all
        then show ?thesis
          using slice_join [of "rd - ll" "Suc rd" page] full unfolding loop by simp
      next
        case more: False
        have "writes (drop (Suc rd - Suc ll) page) out wr (encode_sxrc_loop page out (Suc rd) wr ls' (Suc ll))"
          using "1.IH"(2) [OF True pick None ls'_def refl refl] True page "1.prems" start more
          by (simp add: steps [simplified])
        then show ?thesis
          using more unfolding loop by simp
      qed
    qed
  qed
qed

section \<open>The decoder reads a stream back\<close>

lemma read_u16_at:
  assumes "rd = length pre" and "length (pre @ to_le 2 i @ post) \<le> usize_max"
  shows "read_u16 (pre @ to_le 2 i @ post) rd = Ok (i, rd + 2)"
proof -
  have "of_le [ucast i, ucast (drop_bit 8 i)] = i"
    using of_le_to_le_full [of 2 i] by (simp add: to_le_2)
  with assms show ?thesis
    by (simp add: read_u16_def past_end_iff to_le_2 nth_append)
qed

lemma decode_token_render:
  assumes ok: "token_ok t" and rd: "rd = length pre" and fits: "wr + length (token_expand t) \<le> PAGE_BYTES"
    and len: "length (pre @ token_render t @ post) \<le> usize_max"
  shows "decode_token (pre @ token_render t @ post) rd wr
    = Ok (token_expand t, rd + length (token_render t))"
proof -
  have small: "wr + length (token_expand t) \<le> usize_max"
    using fits by (simp add: PAGE_BYTES_def usize_max_def)
  show ?thesis
  proof (cases t)
    case (Literal bs)
    have n: "unat (of_nat (length bs) :: u8) = length bs"
      using ok Literal by (simp add: unat_of_nat take_bit_nat_eq_self)
    have "slice (pre @ token_render t @ post) (rd + 2) (rd + 2 + length bs) = bs"
      using rd Literal by (simp add: slice_def)
    then show ?thesis
      using assms small n Literal
      by (simp add: decode_token_def decode_literal_def past_end_iff nth_append Let_def)
  next
    case (DictRef i)
    then show ?thesis
      using assms small read_u16_at [of "rd + 1" "pre @ [TOKEN_DICT]" i post]
      by (auto simp: decode_token_def decode_dict_def past_end_iff nth_append Let_def
          TOKEN_DICT_def TOKEN_LITERAL_def DICT_DECODE_BYTES_def)
  next
    case (PatternRef i)
    then show ?thesis
      using assms small read_u16_at [of "rd + 1" "pre @ [TOKEN_PATTERN]" i post]
      by (auto simp: decode_token_def decode_pattern_def past_end_iff nth_append Let_def
          TOKEN_DICT_def TOKEN_LITERAL_def TOKEN_PATTERN_def)
  qed
qed

lemma token_expand_nonempty: "token_ok t \<Longrightarrow> token_expand t \<noteq> []"
  by (cases t) (auto simp: lookup_pattern_nonempty)

lemma decode_sxrc_loop_render:
  assumes "list_all token_ok ts" and "rd = length pre" and "wr + length (expand ts) = PAGE_BYTES"
    and "length out = PAGE_BYTES" and "length (pre @ render ts) \<le> usize_max"
  shows "decode_sxrc_loop (pre @ render ts) out rd wr = (take wr out @ expand ts, Ok ())"
  using assms
proof (induction ts arbitrary: pre rd wr out)
  case Nil
  then show ?case
    by (subst decode_sxrc_loop.simps) simp
next
  case (Cons t ts)
  have t: "token_ok t" "wr < PAGE_BYTES" "wr + length (token_expand t) \<le> PAGE_BYTES"
    using Cons.prems token_expand_nonempty [of t] by (auto simp: neq_Nil_conv)
  have small: "wr + length (token_expand t) \<le> usize_max"
    using t(3) by (simp add: PAGE_BYTES_def usize_max_def)
  have "decode_token (pre @ token_render t @ render ts) rd wr
      = Ok (token_expand t, rd + length (token_render t))"
    using Cons.prems t by (intro decode_token_render) simp_all
  then have "decode_sxrc_loop (pre @ render (t # ts)) out rd wr =
      decode_sxrc_loop ((pre @ token_render t) @ render ts) (copy_into out wr (token_expand t))
        (rd + length (token_render t)) (wr + length (token_expand t))"
    using t small Cons.prems by (subst decode_sxrc_loop.simps) simp
  also have "\<dots> = (take (wr + length (token_expand t)) (copy_into out wr (token_expand t)) @ expand ts, Ok ())"
    using Cons.prems t by (intro Cons.IH) simp_all
  finally show ?case
    using Cons.prems t by simp
qed

section \<open>Encoding and decoding a page\<close>

lemma encode_sxrc_payload_writes:
  "length page = PAGE_BYTES \<Longrightarrow> writes page out 0 (encode_sxrc_payload page out)"
  using encode_sxrc_loop_writes [of page 0 0 0 0 out]
  by (simp add: encode_sxrc_payload_def PAGE_BYTES_def)

text \<open>A payload of a class that decodes to the page.\<close>

definition decodes_to :: "compression_class \<Rightarrow> bytes \<Rightarrow> bytes \<Rightarrow> bool" where
  "decodes_to cls payload page \<longleftrightarrow>
     (case cls of
        Zero \<Rightarrow> payload = [] \<and> page = replicate PAGE_BYTES 0
      | Same \<Rightarrow> (\<exists>b. payload = [b] \<and> page = replicate PAGE_BYTES b)
      | Raw \<Rightarrow> payload = page
      | Sxrc \<Rightarrow> (\<exists>ts. list_all token_ok ts \<and> expand ts = page \<and> payload = render ts))"

lemma PAGE_BYTES_pos [simp]: "0 < PAGE_BYTES" "PAGE_BYTES \<noteq> 0"
  by (simp_all add: PAGE_BYTES_def)

lemma list_all_eq_replicate: "list_all (\<lambda>x. x = a) xs \<longleftrightarrow> xs = replicate (length xs) a"
  by (induction xs) auto

text \<open>The payload is complete, or the scratch buffer is too small for a page that needs it.\<close>

definition payload_result ::
  "bytes \<Rightarrow> bytes \<Rightarrow> bytes \<times> (compression_error, compression_class \<times> nat) outcome \<Rightarrow> bool" where
  "payload_result page scratch r \<longleftrightarrow>
     (\<exists>scratch' cls n. r = (scratch', Ok (cls, n)) \<and> n \<le> PAGE_BYTES \<and> HEADER_BYTES + n \<le> length scratch
        \<and> length scratch' = length scratch
        \<and> decodes_to cls (slice scratch' HEADER_BYTES (HEADER_BYTES + n)) page)
     \<or> r = (scratch, Fail OutputTooSmall) \<and> length scratch < HEADER_BYTES + PAGE_BYTES"

lemma encode_payload_other:
  assumes page: "length page = PAGE_BYTES" and room: "HEADER_BYTES + PAGE_BYTES \<le> length scratch"
    and other: "\<not> is_zero_page page" "is_same_page page = Ok False"
  shows "payload_result page scratch (encode_payload page scratch)"
proof -
  obtain out r where enc: "encode_sxrc_payload page (drop HEADER_BYTES scratch) = (out, r)"
    by fastforce
  have w: "writes page (drop HEADER_BYTES scratch) 0 (out, r)"
    using encode_sxrc_payload_writes [OF page, of "drop HEADER_BYTES scratch"] by (simp add: enc)
  then have len: "length out = length scratch - HEADER_BYTES"
    by (simp add: writes_def)
  show ?thesis
  proof (cases "\<exists>n. r = Inr n \<and> n < PAGE_BYTES")
    case True
    then obtain n where n: "r = Inr n" "n < PAGE_BYTES" by blast
    with w obtain ts where "list_all token_ok ts" "expand ts = page" "take n out = render ts"
      by (auto simp: writes_def)
    then have "decodes_to Sxrc (slice (take HEADER_BYTES scratch @ out) HEADER_BYTES (HEADER_BYTES + n)) page"
      using room by (auto simp: decodes_to_def slice_def)
    then show ?thesis
      using other room n len enc by (simp add: encode_payload_def payload_result_def)
  next
    case False
    then have "(case r of Inr _ \<Rightarrow> True | Inl e \<Rightarrow> e = Err OutputTooSmall)"
      using w by (auto simp: writes_def split: sum.splits)
    moreover have "copy_at out 0 page = (Ok (copy_into out 0 page) :: (compression_error, bytes) outcome)"
      using room page len by simp
    moreover have "decodes_to Raw
        (slice (take HEADER_BYTES scratch @ copy_into out 0 page) HEADER_BYTES (HEADER_BYTES + PAGE_BYTES)) page"
      using room page len by (simp add: decodes_to_def slice_def copy_into_def)
    ultimately show ?thesis
      using other room enc len page False
      by (auto simp: encode_payload_def payload_result_def split: sum.splits)
  qed
qed

lemma encode_payload_cases:
  assumes page: "length page = PAGE_BYTES" and header: "HEADER_BYTES \<le> length scratch"
  shows "payload_result page scratch (encode_payload page scratch)"
proof -
  have page0: "page \<noteq> []"
    using page by (auto simp: PAGE_BYTES_def)
  consider (zero) "is_zero_page page" | (same) "\<not> is_zero_page page" "is_same_page page = Ok True"
    | (other) "\<not> is_zero_page page" "is_same_page page = Ok False"
    using page0 by (auto simp: is_same_page_def)
  then show ?thesis
  proof cases
    case zero
    then show ?thesis
      using page header
      by (simp add: encode_payload_def payload_result_def decodes_to_def is_zero_page_def
          list_all_eq_replicate slice_def)
  next
    case same
    have "page = replicate PAGE_BYTES (page ! 0)"
      using same(2) page page0 by (simp add: is_same_page_def list_all_eq_replicate)
    then show ?thesis
      using same page0
      by (auto simp: encode_payload_def payload_result_def decodes_to_def slice_def copy_into_def
          PAGE_BYTES_def HEADER_BYTES_def)
  next
    case other
    then show ?thesis
      using encode_payload_other [OF page _ other]
      by (cases "HEADER_BYTES + PAGE_BYTES \<le> length scratch") (auto simp: encode_payload_def payload_result_def)
  qed
qed

abbreviation header_of :: "compression_class \<Rightarrow> bytes \<Rightarrow> encoded_header" where
  "header_of cls payload \<equiv>
     \<lparr>eh_class = cls, eh_payload_len = of_nat (length payload), eh_checksum = fnv1a32 payload\<rparr>"

lemma encode_page_cases:
  assumes page: "length page = PAGE_BYTES"
  obtains (done') scratch' cls payload where
    "encode_page page scratch =
      (scratch', Ok \<lparr>ep_class = cls, ep_bytes = header_bytes (header_of cls payload) @ payload\<rparr>)"
    "length scratch' = length scratch" "length payload \<le> PAGE_BYTES" "decodes_to cls payload page"
  | (small) "encode_page page scratch = (scratch, Fail OutputTooSmall)"
    "length scratch < HEADER_BYTES + PAGE_BYTES"
proof (cases "HEADER_BYTES \<le> length scratch")
  case False
  then show thesis
    using small by (simp add: encode_page_def)
next
  case header: True
  from encode_payload_cases [OF page header] show thesis
    unfolding payload_result_def
  proof (elim disjE exE conjE)
    fix scratch' cls n
    assume enc: "encode_payload page scratch = (scratch', Ok (cls, n))" and n: "n \<le> PAGE_BYTES"
      "HEADER_BYTES + n \<le> length scratch" and len: "length scratch' = length scratch"
      and dec: "decodes_to cls (slice scratch' HEADER_BYTES (HEADER_BYTES + n)) page"
    define payload where "payload = slice scratch' HEADER_BYTES (HEADER_BYTES + n)"
    have lp: "length payload = n"
      using n len by (simp add: payload_def)
    have sum: "usize_checked_add HEADER_BYTES n = Some (HEADER_BYTES + n)"
      using n by (simp add: HEADER_BYTES_def PAGE_BYTES_def usize_max_def)
    have whole: "slice (header_bytes h @ drop HEADER_BYTES scratch') 0 (HEADER_BYTES + n)
        = header_bytes h @ payload" for h
      by (simp add: slice_def payload_def)
    have "encode_page page scratch =
        (header_bytes (header_of cls payload) @ drop HEADER_BYTES scratch',
         Ok \<lparr>ep_class = cls, ep_bytes = header_bytes (header_of cls payload) @ payload\<rparr>)"
      using header n len
      by (simp add: encode_page_def enc sum header_encode_into_bytes whole lp flip: payload_def)
    then show thesis
      by (rule done') (use dec n lp len header in \<open>simp_all flip: payload_def\<close>)
  next
    assume "encode_payload page scratch = (scratch, Fail OutputTooSmall)"
      "length scratch < HEADER_BYTES + PAGE_BYTES"
    with header small show thesis
      by (simp add: encode_page_def)
  qed
qed

lemma decode_check_ok:
  assumes "length payload \<le> PAGE_BYTES"
  shows "decode_check (header_bytes (header_of cls payload) @ payload) = Ok (header_of cls payload, payload)"
proof -
  have "unat (of_nat (length payload) :: u16) = length payload"
    using assms by (simp add: unat_of_nat take_bit_nat_eq_self PAGE_BYTES_def)
  moreover have "HEADER_BYTES + length payload \<le> usize_max"
    using assms by (simp add: HEADER_BYTES_def PAGE_BYTES_def usize_max_def)
  moreover have "slice (header_bytes h @ payload) HEADER_BYTES (HEADER_BYTES + length payload) = payload" for h
    by (simp add: slice_def)
  ultimately show ?thesis
    by (simp add: decode_check_def header_decode_bytes)
qed

lemma decode_class_ok:
  assumes dec: "decodes_to cls payload page" and page: "length page = PAGE_BYTES"
    and n: "length payload \<le> PAGE_BYTES" and out: "length out = PAGE_BYTES"
  shows "decode_class cls payload out = (page, Ok ())"
proof (cases "cls = Sxrc")
  case True
  with dec obtain ts where ts: "list_all token_ok ts" "expand ts = page" "payload = render ts"
    by (auto simp: decodes_to_def)
  have "length payload \<le> usize_max"
    using n by (simp add: PAGE_BYTES_def usize_max_def)
  then show ?thesis
    using decode_sxrc_loop_render [of ts 0 "[]" 0 out] ts page out True
    by (simp add: decode_class_def decode_sxrc_payload_def)
next
  case False
  with dec page out show ?thesis
    by (cases cls) (auto simp: decode_class_def decodes_to_def)
qed

lemma decode_page_ok:
  assumes "decodes_to cls payload page" "length page = PAGE_BYTES"
    and "length payload \<le> PAGE_BYTES" "length out = PAGE_BYTES"
  shows "decode_page (header_bytes (header_of cls payload) @ payload) out = (page, Ok cls)"
  by (simp add: decode_page_def decode_check_ok [OF assms(3)] decode_class_ok [OF assms])

section \<open>The decoder does not panic\<close>

lemma and_then_no_panic:
  "r \<noteq> Inl Panic \<Longrightarrow> (\<And>x. r = Inr x \<Longrightarrow> f x \<noteq> Inl Panic) \<Longrightarrow> and_then r f \<noteq> Inl Panic"
  by (cases r) auto

lemma header_decode_no_panic: "header_decode input \<noteq> Abort"
  by (auto simp: header_decode_def read_u32_le_def read_u16_le_def HEADER_BYTES_def class_from_id_def
      index_at_def and_then_Inl split: if_splits)

lemma read_u16_no_panic: "read_u16 payload rd \<noteq> Abort"
  by (auto simp: read_u16_def past_end_iff)

lemma decode_token_no_panic: "decode_token payload rd wr \<noteq> Abort"
  using read_u16_no_panic
  by (auto simp: decode_token_def decode_literal_def decode_dict_def decode_pattern_def Let_def
      past_end_iff and_then_Inl split: if_splits)

lemma decode_sxrc_loop_no_panic:
  "length out = PAGE_BYTES \<Longrightarrow> snd (decode_sxrc_loop payload out rd wr) \<noteq> Abort
    \<and> length (fst (decode_sxrc_loop payload out rd wr)) = PAGE_BYTES"
proof (induction payload out rd wr rule: decode_sxrc_loop.induct)
  case (1 payload out rd wr)
  then show ?case
    using decode_token_no_panic [of payload rd wr] decode_token_Ok(2) [of payload rd wr]
    by (subst (1 2) decode_sxrc_loop.simps) (auto split: sum.splits simp: copy_at_def)
qed

lemma decode_check_no_panic: "decode_check encoded \<noteq> Abort"
  using header_decode_no_panic
  by (auto simp: decode_check_def Let_def and_then_Inl slice_at_def ok_or_Inr usize_checked_add_def
      split: if_splits)

lemma decode_class_no_panic:
  "length out = PAGE_BYTES \<Longrightarrow> snd (decode_class cls payload out) \<noteq> Abort
    \<and> length (fst (decode_class cls payload out)) = PAGE_BYTES"
  using decode_sxrc_loop_no_panic [of out payload 0 0]
  by (cases cls) (auto simp: decode_class_def decode_sxrc_payload_def)

lemma decode_page_no_panic_length:
  assumes "length out = PAGE_BYTES"
  shows "snd (decode_page encoded out) \<noteq> Abort" and "length (fst (decode_page encoded out)) = PAGE_BYTES"
proof -
  have "snd (decode_page encoded out) \<noteq> Abort \<and> length (fst (decode_page encoded out)) = PAGE_BYTES"
  proof (cases "decode_check encoded")
    case (Inr hp)
    obtain header payload where hp: "hp = (header, payload)"
      by fastforce
    obtain out' r where "decode_class (eh_class header) payload out = (out', r)"
      by fastforce
    with decode_class_no_panic [OF assms, of "eh_class header" payload] Inr hp show ?thesis
      by (cases r) (auto simp: decode_page_def)
  qed (use decode_check_no_panic [of encoded] assms in \<open>auto simp: decode_page_def\<close>)
  then show "snd (decode_page encoded out) \<noteq> Abort" "length (fst (decode_page encoded out)) = PAGE_BYTES"
    by simp_all
qed

section \<open>The checksum sees every changed byte\<close>

lemma fnv_prime_odd: "(0x01000193 :: u32) * 0x359c449b = 1"
  by code_simp

lemma fnv1a32_step_cancel:
  "fnv1a32_step h b = fnv1a32_step h' b' \<Longrightarrow> h XOR ucast b = h' XOR ucast b'"
proof -
  assume "fnv1a32_step h b = fnv1a32_step h' b'"
  then have "(h XOR ucast b) * 0x01000193 * 0x359c449b = (h' XOR ucast b') * 0x01000193 * (0x359c449b :: u32)"
    by (simp only: fnv1a32_step_def)
  then show ?thesis
    by (simp only: mult.assoc fnv_prime_odd mult_1_right)
qed

lemma xor_cancel_right: "a XOR c = b XOR c \<longleftrightarrow> a = b" for a b c :: "'a::len word"
  by (metis xor.assoc xor.right_neutral xor_self_eq)

lemma fnv1a32_step_inj_hash: "fnv1a32_step h b = fnv1a32_step h' b \<longleftrightarrow> h = h'"
  using fnv1a32_step_cancel [of h b h' b] by (auto simp: xor_cancel_right)

lemma fnv1a32_step_inj_byte: "fnv1a32_step h b = fnv1a32_step h b' \<longleftrightarrow> b = b'"
proof
  assume "fnv1a32_step h b = fnv1a32_step h b'"
  then have "h XOR ucast b = h XOR ucast b'"
    by (rule fnv1a32_step_cancel)
  then have eq: "(ucast b :: u32) = ucast b'"
    by (simp only: xor.commute [of h] xor_cancel_right)
  show "b = b'"
  proof (rule bit_word_eqI)
    fix n assume "n < LENGTH(8)"
    then show "bit b n = bit b' n"
      using arg_cong [OF eq, of "\<lambda>w. bit w n"] by (simp add: bit_simps)
  qed
qed simp

lemma fnv1a32_fold_inj: "foldl fnv1a32_step h bs = foldl fnv1a32_step h' bs \<longleftrightarrow> h = h'"
  by (induction bs arbitrary: h h') (simp_all add: fnv1a32_step_inj_hash)

lemma fnv1a32_change:
  assumes "i < length bs" and "bs ! i \<noteq> b"
  shows "fnv1a32 (bs[i := b]) \<noteq> fnv1a32 bs"
proof -
  have split: "bs = take i bs @ bs ! i # drop (Suc i) bs"
    using assms(1) by (rule id_take_nth_drop)
  have "fnv1a32 (take i bs @ x # drop (Suc i) bs) =
      foldl fnv1a32_step (fnv1a32_step (fnv1a32 (take i bs)) x) (drop (Suc i) bs)" for x
    by (simp add: fnv1a32_def)
  note change = this
  have "fnv1a32 bs = foldl fnv1a32_step (fnv1a32_step (fnv1a32 (take i bs)) (bs ! i)) (drop (Suc i) bs)"
    by (subst split) (rule change)
  with change [of b] assms show ?thesis
    by (simp add: upd_conv_take_nth_drop fnv1a32_fold_inj fnv1a32_step_inj_byte)
qed

lemma index_at_update: "j \<noteq> i \<Longrightarrow> index_at (bs[i := b]) j = index_at bs j"
  by (simp add: index_at_def)

lemma read_le_update:
  "offset + 1 < i \<Longrightarrow> read_u16_le (bs[i := b]) offset = read_u16_le bs offset"
  "offset + 3 < i \<Longrightarrow> read_u32_le (bs[i := b]) offset = read_u32_le bs offset"
  by (simp_all add: read_u16_le_def read_u32_le_def index_at_update)

lemma header_decode_payload:
  assumes "HEADER_BYTES \<le> i" shows "header_decode (bs[i := b]) = header_decode bs"
  using assms by (simp add: header_decode_def HEADER_BYTES_def index_at_update read_le_update cong: if_cong)

section \<open>Properties\<close>

text \<open>
  C2.  Every page survives the codec.  With a scratch buffer of the maximal encoded size,
  encoding any 4096-byte page succeeds, the encoding is at most 16 bytes longer than the page,
  and decoding it into any page buffer gives back the page and the class.
\<close>

theorem page_roundtrip:
  assumes "length page = PAGE_BYTES" and "HEADER_BYTES + PAGE_BYTES \<le> length scratch"
    and "length out = PAGE_BYTES"
  shows "\<exists>scratch' ep. encode_page page scratch = (scratch', Ok ep)
    \<and> length (ep_bytes ep) \<le> HEADER_BYTES + PAGE_BYTES \<and> length scratch' = length scratch
    \<and> decode_page (ep_bytes ep) out = (page, Ok (ep_class ep))"
  using assms(1)
proof (cases rule: encode_page_cases [where scratch = scratch])
  case done'
  then show ?thesis
    using decode_page_ok [OF done'(4) assms(1) done'(3) assms(3)] by simp
next
  case small
  with assms(2) show ?thesis by simp
qed

theorem page_roundtrip_witness:
  "\<exists>scratch' ep. encode_page (5 # replicate 4095 7) (replicate 4112 0) = (scratch', Ok ep)
    \<and> decode_page (ep_bytes ep) (replicate 4096 1) = (5 # replicate 4095 7, Ok (ep_class ep))"
  using page_roundtrip [of "5 # replicate 4095 7" "replicate 4112 0" "replicate 4096 1"]
  by (auto simp: PAGE_BYTES_def HEADER_BYTES_def)

text \<open>
  C19.  The decoder never panics, whatever bytes it is given: every index and every slice
  is in range, and the page buffer keeps its size.
\<close>

theorem decode_page_no_panic:
  assumes "length out = PAGE_BYTES"
  shows "snd (decode_page encoded out) \<noteq> Abort \<and> length (fst (decode_page encoded out)) = PAGE_BYTES"
  using decode_page_no_panic_length [OF assms] by blast

theorem decode_page_no_panic_witness: "snd (decode_page [0x48, 0x58] (replicate 4096 0)) \<noteq> Abort"
  using decode_page_no_panic [of "replicate 4096 0" "[0x48, 0x58]"] by (simp add: PAGE_BYTES_def)

text \<open>
  Encoding fails only for lack of room: the one error is \<^verbatim>\<open>OutputTooSmall\<close>, it
  leaves the scratch buffer as it was, and it needs a buffer below the maximal encoded size.
\<close>

theorem encode_page_error:
  assumes "length page = PAGE_BYTES" and "encode_page page scratch = (scratch', Inl e)"
  shows "e = Err OutputTooSmall \<and> scratch' = scratch \<and> length scratch < HEADER_BYTES + PAGE_BYTES"
  using assms(1)
proof (cases rule: encode_page_cases [where scratch = scratch])
  case done'
  with assms(2) show ?thesis by simp
next
  case small
  with assms(2) show ?thesis by auto
qed

theorem encode_page_error_witness:
  "encode_page (replicate PAGE_BYTES 0) [] = ([], Fail OutputTooSmall) \<and> [] = ([] :: bytes)"
proof -
  have "encode_page (replicate PAGE_BYTES 0) [] = ([], Fail OutputTooSmall)"
    by (simp add: encode_page_def HEADER_BYTES_def)
  with encode_page_error [OF _ this] show ?thesis
    by simp
qed

text \<open>
  C25.  Corruption is noticed: in an encoding the decoder accepts, changing any single byte
  of the payload makes it stop with \<^verbatim>\<open>ChecksumMismatch\<close> before the page is touched.
\<close>

theorem decode_detects_changed_byte:
  assumes "snd (decode_page encoded out) = Ok cls" and "HEADER_BYTES \<le> i" "i < length encoded"
    and "b \<noteq> encoded ! i"
  shows "decode_page (encoded[i := b]) out' = (out', Fail ChecksumMismatch)"
proof -
  have "decode_check encoded \<noteq> Inl e" for e
    using assms(1) by (auto simp: decode_page_def)
  then obtain header payload where chk: "decode_check encoded = Ok (header, payload)"
    by (metis obj_sumE surj_pair)
  then have h: "header_decode encoded = Ok header" "length encoded = HEADER_BYTES + unat (eh_payload_len header)"
    "payload = slice encoded HEADER_BYTES (length encoded)" "fnv1a32 payload = eh_checksum header"
    "usize_checked_add HEADER_BYTES (unat (eh_payload_len header)) = Some (length encoded)"
    by (auto simp: decode_check_def Let_def ok_or_Inr slice_at_def usize_checked_add_def
        split: if_splits elim!: and_then_InrE)
  have "slice (encoded[i := b]) HEADER_BYTES (length encoded) = payload[i - HEADER_BYTES := b]"
    using assms(2,3) by (simp add: h(3) slice_def drop_update_swap)
  moreover have "fnv1a32 (payload[i - HEADER_BYTES := b]) \<noteq> fnv1a32 payload"
    using assms(2-4) by (intro fnv1a32_change) (simp_all add: h(3) nth_slice)
  ultimately have "decode_check (encoded[i := b]) = Fail ChecksumMismatch"
    using assms(2,3) h by (simp add: decode_check_def header_decode_payload)
  then show ?thesis
    by (simp add: decode_page_def)
qed

theorem decode_detects_changed_byte_witness:
  "\<exists>encoded. decode_page (encoded[16 := 9]) (replicate 4096 3) = (replicate 4096 3, Fail ChecksumMismatch)"
proof -
  let ?e = "header_bytes (header_of Same [8]) @ [8]"
  have dec: "snd (decode_page ?e (replicate PAGE_BYTES 0)) = Ok Same"
    by (subst decode_page_ok [where page = "replicate PAGE_BYTES 8"])
      (simp_all add: decodes_to_def PAGE_BYTES_def)
  have "decode_page (?e[16 := 9]) (replicate 4096 3) = (replicate 4096 3, Fail ChecksumMismatch)"
    by (rule decode_detects_changed_byte [OF dec]) (simp_all add: HEADER_BYTES_def nth_append)
  then show ?thesis by blast
qed

text \<open>
  The header round trip: what \<^verbatim>\<open>encode_into\<close> writes in front of any buffer, \<^verbatim>\<open>decode\<close>
  reads back, and only the first sixteen bytes of the buffer change.
\<close>

theorem header_roundtrip:
  assumes "HEADER_BYTES \<le> length out"
  shows "\<exists>out'. header_encode_into h out = Ok out' \<and> header_decode out' = Ok h
    \<and> drop HEADER_BYTES out' = drop HEADER_BYTES out"
  using assms by (simp add: header_encode_into_bytes header_decode_bytes)

theorem header_roundtrip_witness:
  "\<exists>out'. header_encode_into \<lparr>eh_class = Sxrc, eh_payload_len = 0x1234, eh_checksum = 0xdeadbeef\<rparr>
     (replicate 20 1) = Ok out' \<and> header_decode out' =
     Ok \<lparr>eh_class = Sxrc, eh_payload_len = 0x1234, eh_checksum = 0xdeadbeef\<rparr>"
  using header_roundtrip [of "replicate 20 1" "\<lparr>eh_class = Sxrc, eh_payload_len = 0x1234, eh_checksum = 0xdeadbeef\<rparr>"]
  by (auto simp: HEADER_BYTES_def)

end
