(* ===== verification/Compress.thy ===== *)
theory Compress
  imports Codec
begin

text \<open>
  The compression runtime, \<^verbatim>\<open>kernel/src/mm/compress/mod.rs\<close>: the backend that counts what
  the codec does and the runtime that guards it until it is initialised.  The contract the
  store relies on, that what was encoded decodes to the same page, is the locale
  \<open>page_codec\<close>; the runtime is its instance.
\<close>

section \<open>State and operations\<close>

definition MAX_ENCODED_PAGE_BYTES :: nat where
  "MAX_ENCODED_PAGE_BYTES = HEADER_BYTES + PAGE_BYTES"

record compression_stats =
  cs_encoded_pages :: u64
  cs_decoded_pages :: u64
  cs_zero_pages :: u64
  cs_same_pages :: u64
  cs_sxrc_pages :: u64
  cs_raw_pages :: u64
  cs_fallback_raw_pages :: u64
  cs_encode_failures :: u64
  cs_decode_failures :: u64

definition compression_stats_new :: compression_stats where
  "compression_stats_new =
     \<lparr>cs_encoded_pages = 0, cs_decoded_pages = 0, cs_zero_pages = 0, cs_same_pages = 0,
      cs_sxrc_pages = 0, cs_raw_pages = 0, cs_fallback_raw_pages = 0, cs_encode_failures = 0,
      cs_decode_failures = 0\<rparr>"

fun account_encoded_class :: "compression_stats \<Rightarrow> compression_class \<Rightarrow> compression_stats" where
  "account_encoded_class s Zero = s\<lparr>cs_zero_pages := sat_add (cs_zero_pages s) 1\<rparr>"
| "account_encoded_class s Same = s\<lparr>cs_same_pages := sat_add (cs_same_pages s) 1\<rparr>"
| "account_encoded_class s Sxrc = s\<lparr>cs_sxrc_pages := sat_add (cs_sxrc_pages s) 1\<rparr>"
| "account_encoded_class s Raw =
     s\<lparr>cs_raw_pages := sat_add (cs_raw_pages s) 1,
       cs_fallback_raw_pages := sat_add (cs_fallback_raw_pages s) 1\<rparr>"

definition null_encode_page ::
  "compression_stats \<Rightarrow> bytes \<Rightarrow> bytes
    \<Rightarrow> compression_stats \<times> bytes \<times> (compression_error, encoded_page) outcome" where
  "null_encode_page s page scratch =
     (let s = s\<lparr>cs_encoded_pages := sat_add (cs_encoded_pages s) 1\<rparr>
      in case encode_page page scratch of
        (scratch', Inr encoded) \<Rightarrow> (account_encoded_class s (ep_class encoded), scratch', Ok encoded)
      | (scratch', Inl e) \<Rightarrow>
          (s\<lparr>cs_encode_failures := sat_add (cs_encode_failures s) 1\<rparr>, scratch', Inl e))"

definition null_decode_page ::
  "compression_stats \<Rightarrow> bytes \<Rightarrow> bytes
    \<Rightarrow> compression_stats \<times> bytes \<times> (compression_error, unit) outcome" where
  "null_decode_page s encoded out =
     (case decode_page encoded out of
        (out', Inr _) \<Rightarrow> (s\<lparr>cs_decoded_pages := sat_add (cs_decoded_pages s) 1\<rparr>, out', Ok ())
      | (out', Inl e) \<Rightarrow>
          (s\<lparr>cs_decode_failures := sat_add (cs_decode_failures s) 1\<rparr>, out', Inl e))"

record compression_runtime =
  cr_initialized :: bool
  cr_backend :: compression_stats

definition compression_runtime_new :: compression_runtime where
  "compression_runtime_new = \<lparr>cr_initialized = False, cr_backend = compression_stats_new\<rparr>"

record runtime_summary =
  rs_backend :: string
  rs_profile :: string
  rs_profile_version :: u32
  rs_page_bytes :: nat
  rs_compression_unit_bytes :: nat
  rs_little_endian :: bool
  rs_dynamic_patterns :: bool
  rs_static_dictionary_entries :: nat
  rs_static_pattern_entries :: nat
  rs_encoded_header_bytes :: nat
  rs_max_encoded_page_bytes :: nat

definition runtime_summary_of :: runtime_summary where
  "runtime_summary_of =
     \<lparr>rs_backend = ''null'', rs_profile = ''minimal-v1'', rs_profile_version = 1,
      rs_page_bytes = PAGE_BYTES, rs_compression_unit_bytes = 2, rs_little_endian = True,
      rs_dynamic_patterns = False,
      rs_static_dictionary_entries = length HXNU_SXRC_STATIC_DICTIONARY,
      rs_static_pattern_entries = length HXNU_SXRC_STATIC_PATTERNS,
      rs_encoded_header_bytes = HEADER_BYTES, rs_max_encoded_page_bytes = MAX_ENCODED_PAGE_BYTES\<rparr>"

datatype compression_init_error = RuntimeAlreadyInitialized

definition runtime_initialize ::
  "compression_runtime \<Rightarrow> compression_runtime \<times> (compression_init_error + runtime_summary)" where
  "runtime_initialize r =
     (if cr_initialized r then (r, Inl RuntimeAlreadyInitialized)
      else (r\<lparr>cr_initialized := True\<rparr>, Inr runtime_summary_of))"

definition runtime_encode_page ::
  "compression_runtime \<Rightarrow> bytes \<Rightarrow> bytes
    \<Rightarrow> compression_runtime \<times> bytes \<times> (compression_error, encoded_page) outcome" where
  "runtime_encode_page r page scratch =
     (if \<not> cr_initialized r then (r, scratch, Fail NotInitialized)
      else case null_encode_page (cr_backend r) page scratch of
        (s, scratch', res) \<Rightarrow> (r\<lparr>cr_backend := s\<rparr>, scratch', res))"

definition runtime_decode_page ::
  "compression_runtime \<Rightarrow> bytes \<Rightarrow> bytes
    \<Rightarrow> compression_runtime \<times> bytes \<times> (compression_error, unit) outcome" where
  "runtime_decode_page r encoded out =
     (if \<not> cr_initialized r then (r, out, Fail NotInitialized)
      else case null_decode_page (cr_backend r) encoded out of
        (s, out', res) \<Rightarrow> (r\<lparr>cr_backend := s\<rparr>, out', res))"

section \<open>The contract of a codec\<close>

text \<open>
  What a client of the runtime may rely on: a ready codec encodes every page into a buffer
  of the maximal size, and the bytes decode to that page as long as the codec is ready.
\<close>

locale page_codec =
  fixes enc :: "'c \<Rightarrow> bytes \<Rightarrow> bytes \<Rightarrow> 'c \<times> bytes \<times> (compression_error, encoded_page) outcome"
    and dec :: "'c \<Rightarrow> bytes \<Rightarrow> bytes \<Rightarrow> 'c \<times> bytes \<times> (compression_error, unit) outcome"
    and ready :: "'c \<Rightarrow> bool" and stands_for :: "bytes \<Rightarrow> bytes \<Rightarrow> bool"
  assumes enc_total: "ready c \<Longrightarrow> length page = PAGE_BYTES \<Longrightarrow> length scratch = MAX_ENCODED_PAGE_BYTES \<Longrightarrow>
      \<exists>c' scratch' ep. enc c page scratch = (c', scratch', Ok ep) \<and> ready c'
        \<and> length (ep_bytes ep) \<le> MAX_ENCODED_PAGE_BYTES \<and> stands_for (ep_bytes ep) page"
    and dec_total: "ready c \<Longrightarrow> stands_for bs page \<Longrightarrow> length out = PAGE_BYTES \<Longrightarrow>
      \<exists>c'. dec c bs out = (c', page, Ok ()) \<and> ready c'"

definition encodes :: "bytes \<Rightarrow> bytes \<Rightarrow> bool" where
  "encodes bs page \<longleftrightarrow> (\<forall>out. length out = PAGE_BYTES \<longrightarrow> (\<exists>cls. decode_page bs out = (page, Ok cls)))"

lemma null_encode_total:
  assumes "length page = PAGE_BYTES" and "length scratch = MAX_ENCODED_PAGE_BYTES"
  shows "\<exists>s' scratch' ep. null_encode_page s page scratch = (s', scratch', Ok ep)
    \<and> length (ep_bytes ep) \<le> MAX_ENCODED_PAGE_BYTES \<and> encodes (ep_bytes ep) page"
  using assms(1)
proof (cases rule: encode_page_cases [where scratch = scratch])
  case (done' scratch' cls payload)
  then have "encodes (header_bytes (header_of cls payload) @ payload) page"
    using decode_page_ok [OF done'(4) assms(1) done'(3)] by (simp add: encodes_def)
  with done' show ?thesis
    by (simp add: null_encode_page_def MAX_ENCODED_PAGE_BYTES_def)
next
  case small
  with assms(2) show ?thesis
    by (simp add: MAX_ENCODED_PAGE_BYTES_def)
qed

interpretation runtime: page_codec runtime_encode_page runtime_decode_page cr_initialized encodes
proof
  fix r :: compression_runtime and page scratch :: bytes
  assume "cr_initialized r" "length page = PAGE_BYTES" "length scratch = MAX_ENCODED_PAGE_BYTES"
  then show "\<exists>r' scratch' ep. runtime_encode_page r page scratch = (r', scratch', Ok ep) \<and> cr_initialized r'
      \<and> length (ep_bytes ep) \<le> MAX_ENCODED_PAGE_BYTES \<and> encodes (ep_bytes ep) page"
    using null_encode_total [of page scratch "cr_backend r"] by (auto simp: runtime_encode_page_def)
next
  fix r :: compression_runtime and bs page out :: bytes
  assume "cr_initialized r" "encodes bs page" "length out = PAGE_BYTES"
  then show "\<exists>r'. runtime_decode_page r bs out = (r', page, Ok ()) \<and> cr_initialized r'"
    by (auto simp: encodes_def runtime_decode_page_def null_decode_page_def)
qed

end
