(* ===== verification/Store.thy ===== *)
theory Store
  imports Compress
begin

text \<open>
  The compressed page store, \<^verbatim>\<open>kernel/src/mm/compress/store.rs\<close>: 64 slots of encoded
  pages with round-robin eviction.  The operations take the codec they call as an argument
  and are proved against the contract \<open>page_codec\<close>; the kernel's store is the instance
  at the compression runtime.  The lemmas show that a load returns the page stored last
  under its id, that nothing is lost while at most 64 ids are in use, and that the
  counters of stored pages and bytes are exact.
\<close>

section \<open>State\<close>

definition STORE_CAPACITY_PAGES :: nat where
  "STORE_CAPACITY_PAGES = 64"

definition STORE_CAPACITY_BYTES :: nat where
  "STORE_CAPACITY_BYTES = STORE_CAPACITY_PAGES * MAX_ENCODED_PAGE_BYTES"

record store_summary =
  su_capacity_pages :: nat
  su_capacity_bytes :: nat
  su_page_bytes :: nat
  su_max_encoded_page_bytes :: nat

datatype store_init_error = StoreAlreadyInitialized | CompressionRuntimeUnavailable

datatype store_error =
    StoreNotInitialized | NotFound | Encode compression_error | Decode compression_error

record store_entry =
  se_page_id :: u64
  se_class :: compression_class
  se_encoded_bytes :: nat

record store_stats =
  st_capacity_pages :: nat
  st_capacity_bytes :: nat
  st_stored_pages :: u64
  st_stored_zero_pages :: u64
  st_stored_same_pages :: u64
  st_stored_sxrc_pages :: u64
  st_stored_raw_pages :: u64
  st_current_encoded_bytes :: u64
  st_total_input_bytes :: u64
  st_total_encoded_bytes :: u64
  st_store_requests :: u64
  st_store_successes :: u64
  st_load_requests :: u64
  st_load_successes :: u64
  st_load_misses :: u64
  st_replacements :: u64
  st_evictions :: u64
  st_encode_failures :: u64
  st_decode_failures :: u64

definition store_stats_new :: store_stats where
  "store_stats_new =
     \<lparr>st_capacity_pages = STORE_CAPACITY_PAGES, st_capacity_bytes = STORE_CAPACITY_BYTES,
      st_stored_pages = 0, st_stored_zero_pages = 0, st_stored_same_pages = 0,
      st_stored_sxrc_pages = 0, st_stored_raw_pages = 0, st_current_encoded_bytes = 0,
      st_total_input_bytes = 0, st_total_encoded_bytes = 0, st_store_requests = 0,
      st_store_successes = 0, st_load_requests = 0, st_load_successes = 0, st_load_misses = 0,
      st_replacements = 0, st_evictions = 0, st_encode_failures = 0, st_decode_failures = 0\<rparr>"

record store_slot =
  sl_occupied :: bool
  sl_page_id :: u64
  sl_class :: compression_class
  sl_encoded_len :: u16
  sl_encoded :: bytes

definition store_slot_empty :: store_slot where
  "store_slot_empty =
     \<lparr>sl_occupied = False, sl_page_id = 0, sl_class = Raw, sl_encoded_len = 0,
      sl_encoded = replicate MAX_ENCODED_PAGE_BYTES 0\<rparr>"

record store_state =
  ss_initialized :: bool
  ss_next_evict :: nat
  ss_slots :: "store_slot list"
  ss_stats :: store_stats

definition store_state_new :: store_state where
  "store_state_new =
     \<lparr>ss_initialized = False, ss_next_evict = 0,
      ss_slots = replicate STORE_CAPACITY_PAGES store_slot_empty, ss_stats = store_stats_new\<rparr>"

section \<open>Operations\<close>

definition store_summary_of :: store_summary where
  "store_summary_of =
     \<lparr>su_capacity_pages = STORE_CAPACITY_PAGES, su_capacity_bytes = STORE_CAPACITY_BYTES,
      su_page_bytes = PAGE_BYTES, su_max_encoded_page_bytes = MAX_ENCODED_PAGE_BYTES\<rparr>"

definition store_initialize ::
  "compression_runtime \<Rightarrow> store_state \<Rightarrow> store_state \<times> (store_init_error + store_summary)" where
  "store_initialize r st =
     (if ss_initialized st then (st, Inl StoreAlreadyInitialized)
      else if \<not> cr_initialized r then (st, Inl CompressionRuntimeUnavailable)
      else (st\<lparr>ss_initialized := True\<rparr>, Inr store_summary_of))"

definition find_slot :: "store_state \<Rightarrow> u64 \<Rightarrow> nat option" where
  "find_slot st page_id = find_index (\<lambda>slot. sl_occupied slot \<and> sl_page_id slot = page_id) (ss_slots st)"

definition find_empty_slot :: "store_state \<Rightarrow> nat option" where
  "find_empty_slot st = find_index (\<lambda>slot. \<not> sl_occupied slot) (ss_slots st)"

definition account_added :: "store_stats \<Rightarrow> compression_class \<Rightarrow> nat \<Rightarrow> store_stats" where
  "account_added s cls encoded_len =
     (let s = s\<lparr>st_current_encoded_bytes := sat_add (st_current_encoded_bytes s) (of_nat encoded_len)\<rparr>
      in case cls of
        Zero \<Rightarrow> s\<lparr>st_stored_zero_pages := sat_add (st_stored_zero_pages s) 1\<rparr>
      | Same \<Rightarrow> s\<lparr>st_stored_same_pages := sat_add (st_stored_same_pages s) 1\<rparr>
      | Sxrc \<Rightarrow> s\<lparr>st_stored_sxrc_pages := sat_add (st_stored_sxrc_pages s) 1\<rparr>
      | Raw \<Rightarrow> s\<lparr>st_stored_raw_pages := sat_add (st_stored_raw_pages s) 1\<rparr>)"

definition account_removed :: "store_stats \<Rightarrow> compression_class \<Rightarrow> nat \<Rightarrow> store_stats" where
  "account_removed s cls encoded_len =
     (let s = s\<lparr>st_current_encoded_bytes := sat_sub (st_current_encoded_bytes s) (of_nat encoded_len)\<rparr>
      in case cls of
        Zero \<Rightarrow> s\<lparr>st_stored_zero_pages := sat_sub (st_stored_zero_pages s) 1\<rparr>
      | Same \<Rightarrow> s\<lparr>st_stored_same_pages := sat_sub (st_stored_same_pages s) 1\<rparr>
      | Sxrc \<Rightarrow> s\<lparr>st_stored_sxrc_pages := sat_sub (st_stored_sxrc_pages s) 1\<rparr>
      | Raw \<Rightarrow> s\<lparr>st_stored_raw_pages := sat_sub (st_stored_raw_pages s) 1\<rparr>)"

text \<open>The slot a page goes to: its own, else an empty one, else the next one to evict.\<close>

definition choose_slot :: "store_state \<Rightarrow> u64 \<Rightarrow> store_state \<times> nat" where
  "choose_slot st page_id =
     (case find_slot st page_id of
        Some idx \<Rightarrow>
          (st\<lparr>ss_stats := (ss_stats st)\<lparr>st_replacements := sat_add (st_replacements (ss_stats st)) 1\<rparr>\<rparr>, idx)
      | None \<Rightarrow>
          (case find_empty_slot st of
             Some idx \<Rightarrow> (st, idx)
           | None \<Rightarrow>
               (st\<lparr>ss_next_evict := (ss_next_evict st + 1) mod STORE_CAPACITY_PAGES,
                   ss_stats := (ss_stats st)\<lparr>st_evictions := sat_add (st_evictions (ss_stats st)) 1\<rparr>\<rparr>,
                ss_next_evict st)))"

text \<open>The accounting when a slot takes an encoded page, and the slot with the page in it.\<close>

definition fill_stats :: "store_stats \<Rightarrow> store_slot \<Rightarrow> encoded_page \<Rightarrow> store_stats" where
  "fill_stats stats old encoded =
     (let stats = (if sl_occupied old
                   then account_removed stats (sl_class old) (unat (sl_encoded_len old))
                   else stats\<lparr>st_stored_pages := sat_add (st_stored_pages stats) 1\<rparr>);
          encoded_len = length (ep_bytes encoded);
          stats = account_added stats (ep_class encoded) encoded_len
      in stats\<lparr>st_store_successes := sat_add (st_store_successes stats) 1,
               st_total_encoded_bytes := sat_add (st_total_encoded_bytes stats) (of_nat encoded_len)\<rparr>)"

definition fill_slot ::
  "store_state \<Rightarrow> nat \<Rightarrow> u64 \<Rightarrow> encoded_page \<Rightarrow> (store_error, store_state) outcome" where
  "fill_slot st idx page_id encoded =
     and_then (index_at (ss_slots st) idx) (\<lambda>old.
     and_then (copy_at (sl_encoded old) 0 (ep_bytes encoded)) (\<lambda>buffer.
     let slot = \<lparr>sl_occupied = True, sl_page_id = page_id, sl_class = ep_class encoded,
                 sl_encoded_len = of_nat (length (ep_bytes encoded)), sl_encoded = buffer\<rparr>
     in Ok (st\<lparr>ss_slots := (ss_slots st)[idx := slot],
               ss_stats := fill_stats (ss_stats st) old encoded\<rparr>)))"

definition store_page_with ::
  "('c \<Rightarrow> bytes \<Rightarrow> bytes \<Rightarrow> 'c \<times> bytes \<times> (compression_error, encoded_page) outcome)
    \<Rightarrow> 'c \<Rightarrow> store_state \<Rightarrow> u64 \<Rightarrow> bytes \<Rightarrow> 'c \<times> store_state \<times> (store_error, store_entry) outcome" where
  "store_page_with enc c st page_id page =
     (if \<not> ss_initialized st then (c, st, Fail StoreNotInitialized)
      else
        let stats = ss_stats st;
            st = st\<lparr>ss_stats := stats\<lparr>
              st_store_requests := sat_add (st_store_requests stats) 1,
              st_total_input_bytes := sat_add (st_total_input_bytes stats) (of_nat PAGE_BYTES)\<rparr>\<rparr>
        in case enc c page (replicate MAX_ENCODED_PAGE_BYTES 0) of
          (c', _, Inl e) \<Rightarrow>
            (c', st\<lparr>ss_stats := (ss_stats st)\<lparr>
               st_encode_failures := sat_add (st_encode_failures (ss_stats st)) 1\<rparr>\<rparr>,
             Inl (map_failure Encode e))
        | (c', _, Inr encoded) \<Rightarrow>
            (case choose_slot st page_id of (st, idx) \<Rightarrow>
              case fill_slot st idx page_id encoded of
                Inl e \<Rightarrow> (c', st, Inl e)
              | Inr st' \<Rightarrow>
                  (c', st', Ok \<lparr>se_page_id = page_id, se_class = ep_class encoded,
                                se_encoded_bytes = length (ep_bytes encoded)\<rparr>)))"

definition load_page_with ::
  "('c \<Rightarrow> bytes \<Rightarrow> bytes \<Rightarrow> 'c \<times> bytes \<times> (compression_error, unit) outcome)
    \<Rightarrow> 'c \<Rightarrow> store_state \<Rightarrow> u64 \<Rightarrow> bytes
    \<Rightarrow> 'c \<times> store_state \<times> bytes \<times> (store_error, store_entry) outcome" where
  "load_page_with dec c st page_id out =
     (if \<not> ss_initialized st then (c, st, out, Fail StoreNotInitialized)
      else
        let stats = (ss_stats st)\<lparr>st_load_requests := sat_add (st_load_requests (ss_stats st)) 1\<rparr>
        in case find_slot st page_id of
          None \<Rightarrow>
            (c, st\<lparr>ss_stats := stats\<lparr>st_load_misses := sat_add (st_load_misses stats) 1\<rparr>\<rparr>, out, Fail NotFound)
        | Some idx \<Rightarrow>
            (case and_then (index_at (ss_slots st) idx) (\<lambda>slot.
                    and_then (slice_at (sl_encoded slot) 0 (unat (sl_encoded_len slot))) (\<lambda>encoded.
                    Ok (slot, encoded)))
             of Inl e \<Rightarrow> (c, st\<lparr>ss_stats := stats\<rparr>, out, Inl e)
              | Inr (slot, encoded) \<Rightarrow>
                  (case dec c encoded out of
                     (c', out', Inr _) \<Rightarrow>
                       (c', st\<lparr>ss_stats := stats\<lparr>st_load_successes := sat_add (st_load_successes stats) 1\<rparr>\<rparr>, out',
                        Ok \<lparr>se_page_id = page_id, se_class = sl_class slot,
                            se_encoded_bytes = unat (sl_encoded_len slot)\<rparr>)
                   | (c', out', Inl e) \<Rightarrow>
                       (c', st\<lparr>ss_stats := stats\<lparr>st_decode_failures := sat_add (st_decode_failures stats) 1\<rparr>\<rparr>, out',
                        Inl (map_failure Decode e)))))"

abbreviation store_page ::
  "compression_runtime \<Rightarrow> store_state \<Rightarrow> u64 \<Rightarrow> bytes
    \<Rightarrow> compression_runtime \<times> store_state \<times> (store_error, store_entry) outcome" where
  "store_page \<equiv> store_page_with runtime_encode_page"

abbreviation load_page ::
  "compression_runtime \<Rightarrow> store_state \<Rightarrow> u64 \<Rightarrow> bytes
    \<Rightarrow> compression_runtime \<times> store_state \<times> bytes \<times> (store_error, store_entry) outcome" where
  "load_page \<equiv> load_page_with runtime_decode_page"

section \<open>The slot table\<close>

definition slot_bytes :: "store_slot \<Rightarrow> bytes" where
  "slot_bytes slot = slice (sl_encoded slot) 0 (unat (sl_encoded_len slot))"

definition holds :: "store_state \<Rightarrow> nat \<Rightarrow> u64 \<Rightarrow> bool" where
  "holds st i page_id \<longleftrightarrow> i < length (ss_slots st)
     \<and> sl_occupied (ss_slots st ! i) \<and> sl_page_id (ss_slots st ! i) = page_id"

definition store_wf :: "store_state \<Rightarrow> bool" where
  "store_wf st \<longleftrightarrow> length (ss_slots st) = STORE_CAPACITY_PAGES \<and> ss_next_evict st < STORE_CAPACITY_PAGES
     \<and> (\<forall>slot \<in> set (ss_slots st). length (sl_encoded slot) = MAX_ENCODED_PAGE_BYTES
          \<and> unat (sl_encoded_len slot) \<le> MAX_ENCODED_PAGE_BYTES)
     \<and> (\<forall>i j page_id. holds st i page_id \<longrightarrow> holds st j page_id \<longrightarrow> i = j)"

lemma find_slot_Some: "find_slot st page_id = Some i \<Longrightarrow> holds st i page_id"
  by (auto simp: find_slot_def holds_def dest!: find_index_SomeD)

lemma find_slot_None: "find_slot st page_id = None \<longleftrightarrow> (\<forall>i. \<not> holds st i page_id)"
  by (auto simp: find_slot_def holds_def find_index_None set_conv_nth)

lemma find_slot_iff: "store_wf st \<Longrightarrow> find_slot st page_id = Some i \<longleftrightarrow> holds st i page_id"
  by (metis find_slot_None find_slot_Some not_Some_eq store_wf_def)

lemma holds_stats [simp]:
  "holds (st\<lparr>ss_stats := s\<rparr>) = holds st" "holds (st\<lparr>ss_next_evict := n\<rparr>) = holds st"
  by (auto simp: holds_def fun_eq_iff)

lemma store_wf_stats [simp]: "store_wf (st\<lparr>ss_stats := s\<rparr>) = store_wf st"
  by (simp add: store_wf_def)

lemma find_slot_stats [simp]:
  "find_slot (st\<lparr>ss_stats := s\<rparr>) = find_slot st" "find_empty_slot (st\<lparr>ss_stats := s\<rparr>) = find_empty_slot st"
  by (auto simp: find_slot_def find_empty_slot_def fun_eq_iff)

text \<open>The slot chosen for a page either holds it, or no slot does and it is empty or all are taken.\<close>

lemma choose_slot_spec:
  assumes wf: "store_wf st" and choose: "choose_slot st page_id = (st', idx)"
  shows "store_wf st'" and "ss_slots st' = ss_slots st" and "ss_initialized st' = ss_initialized st"
    and "idx < STORE_CAPACITY_PAGES"
    and "holds st idx page_id \<or> (\<forall>i. \<not> holds st i page_id)
      \<and> (\<not> sl_occupied (ss_slots st ! idx) \<or> (\<forall>slot \<in> set (ss_slots st). sl_occupied slot))"
proof -
  have len: "length (ss_slots st) = STORE_CAPACITY_PAGES" "ss_next_evict st < STORE_CAPACITY_PAGES"
    using wf by (simp_all add: store_wf_def)
  have "(ss_next_evict st + 1) mod STORE_CAPACITY_PAGES < STORE_CAPACITY_PAGES"
    by (simp add: STORE_CAPACITY_PAGES_def)
  then show "store_wf st'" "ss_slots st' = ss_slots st" "ss_initialized st' = ss_initialized st"
    using wf choose
    by (auto simp: choose_slot_def store_wf_def holds_def split: option.splits)
  show "idx < STORE_CAPACITY_PAGES"
    using choose len find_slot_Some [of st page_id idx] find_index_SomeD [of _ "ss_slots st" idx]
    by (fastforce simp: choose_slot_def holds_def find_empty_slot_def split: option.splits)
  show "holds st idx page_id \<or> (\<forall>i. \<not> holds st i page_id)
      \<and> (\<not> sl_occupied (ss_slots st ! idx) \<or> (\<forall>slot \<in> set (ss_slots st). sl_occupied slot))"
    using choose
    by (auto simp: choose_slot_def find_empty_slot_def find_slot_None find_index_None
        split: option.splits dest: find_slot_Some find_index_SomeD)
qed

lemma slot_bytes_filled:
  assumes "length bs \<le> MAX_ENCODED_PAGE_BYTES" and "length buffer = MAX_ENCODED_PAGE_BYTES"
  shows "slot_bytes \<lparr>sl_occupied = True, sl_page_id = i, sl_class = cls,
      sl_encoded_len = of_nat (length bs), sl_encoded = copy_into buffer 0 bs\<rparr> = bs"
    and "unat (of_nat (length bs) :: u16) = length bs"
proof -
  show len: "unat (of_nat (length bs) :: u16) = length bs"
    using assms(1)
    by (simp add: unat_of_nat take_bit_nat_eq_self MAX_ENCODED_PAGE_BYTES_def HEADER_BYTES_def PAGE_BYTES_def)
  show "slot_bytes \<lparr>sl_occupied = True, sl_page_id = i, sl_class = cls,
      sl_encoded_len = of_nat (length bs), sl_encoded = copy_into buffer 0 bs\<rparr> = bs"
    using assms by (simp add: slot_bytes_def len slice_def copy_into_def)
qed

lemma fill_slot_ok:
  assumes wf: "store_wf st" and idx: "idx < STORE_CAPACITY_PAGES"
    and len: "length (ep_bytes ep) \<le> MAX_ENCODED_PAGE_BYTES"
  obtains slot where
    "fill_slot st idx page_id ep = Ok (st\<lparr>ss_slots := (ss_slots st)[idx := slot],
       ss_stats := fill_stats (ss_stats st) (ss_slots st ! idx) ep\<rparr>)"
    and "sl_occupied slot" "sl_page_id slot = page_id" "sl_class slot = ep_class ep"
    and "slot_bytes slot = ep_bytes ep" "unat (sl_encoded_len slot) = length (ep_bytes ep)"
    and "length (sl_encoded slot) = MAX_ENCODED_PAGE_BYTES"
proof -
  have in_table: "idx < length (ss_slots st)"
    and buf: "length (sl_encoded (ss_slots st ! idx)) = MAX_ENCODED_PAGE_BYTES"
    using wf idx by (auto simp: store_wf_def)
  then have "fill_slot st idx page_id ep = Ok (st\<lparr>ss_slots := (ss_slots st)[idx :=
      \<lparr>sl_occupied = True, sl_page_id = page_id, sl_class = ep_class ep,
       sl_encoded_len = of_nat (length (ep_bytes ep)),
       sl_encoded = copy_into (sl_encoded (ss_slots st ! idx)) 0 (ep_bytes ep)\<rparr>],
      ss_stats := fill_stats (ss_stats st) (ss_slots st ! idx) ep\<rparr>)"
    using len by (simp add: fill_slot_def Let_def)
  then show thesis
    by (rule that) (use buf len slot_bytes_filled [OF len buf] in simp_all)
qed

lemma holds_update:
  assumes "idx < length (ss_slots st)" and "sl_occupied slot"
  shows "holds (st\<lparr>ss_slots := (ss_slots st)[idx := slot], ss_stats := s\<rparr>) i page_id
    \<longleftrightarrow> (if i = idx then page_id = sl_page_id slot else holds st i page_id)"
  using assms by (auto simp: holds_def)

lemma store_wf_fill:
  assumes wf: "store_wf st" and idx: "idx < STORE_CAPACITY_PAGES"
    and slot: "sl_occupied slot" "length (sl_encoded slot) = MAX_ENCODED_PAGE_BYTES"
      "unat (sl_encoded_len slot) \<le> MAX_ENCODED_PAGE_BYTES"
    and own: "holds st idx (sl_page_id slot) \<or> (\<forall>i. \<not> holds st i (sl_page_id slot))"
  shows "store_wf (st\<lparr>ss_slots := (ss_slots st)[idx := slot], ss_stats := s\<rparr>)"
proof -
  have "idx < length (ss_slots st)"
    using wf idx by (simp add: store_wf_def)
  note upd = holds_update [OF this slot(1)]
  have unique: "i = j" if "holds st i p" "holds st j p" for i j p
    using wf that by (auto simp: store_wf_def)
  show ?thesis
    unfolding store_wf_def upd
    using wf slot own unique by (auto simp: store_wf_def dest!: set_update_subset_insert [THEN subsetD])
qed

section \<open>What the store remembers\<close>

text \<open>
  \<open>G\<close> records, for every id, the page stored last.  Every occupied slot holds an
  encoding of it, and ids get lost only when more than 64 were used.
\<close>

definition store_inv :: "(bytes \<Rightarrow> bytes \<Rightarrow> bool) \<Rightarrow> store_state \<Rightarrow> (u64 \<rightharpoonup> bytes) \<Rightarrow> bool" where
  "store_inv stands_for st G \<longleftrightarrow> store_wf st \<and> finite (dom G)
     \<and> (\<forall>i page_id. holds st i page_id \<longrightarrow>
          (\<exists>page. G page_id = Some page \<and> stands_for (slot_bytes (ss_slots st ! i)) page))
     \<and> (card (dom G) \<le> STORE_CAPACITY_PAGES \<longrightarrow> (\<forall>page_id \<in> dom G. \<exists>i. holds st i page_id))"

lemma full_table_card:
  assumes wf: "store_wf st" and full: "\<forall>slot \<in> set (ss_slots st). sl_occupied slot"
    and fin: "finite (dom G)" and sub: "\<And>i p. holds st i p \<Longrightarrow> p \<in> dom G"
    and new: "\<forall>i. \<not> holds st i page_id"
  shows "STORE_CAPACITY_PAGES < card (dom (G(page_id \<mapsto> page)))"
proof -
  let ?ids = "(\<lambda>i. sl_page_id (ss_slots st ! i)) ` {..< STORE_CAPACITY_PAGES}"
  have len: "length (ss_slots st) = STORE_CAPACITY_PAGES"
    using wf by (simp add: store_wf_def)
  then have all: "holds st i (sl_page_id (ss_slots st ! i))" if "i < STORE_CAPACITY_PAGES" for i
    using full that by (simp add: holds_def)
  have "inj_on (\<lambda>i. sl_page_id (ss_slots st ! i)) {..< STORE_CAPACITY_PAGES}"
    using wf all unfolding store_wf_def inj_on_def by (metis lessThan_iff)
  then have card: "card ?ids = STORE_CAPACITY_PAGES"
    by (simp add: card_image)
  have "insert page_id ?ids \<subseteq> dom (G(page_id \<mapsto> page))" "page_id \<notin> ?ids"
    using all sub new by auto
  then have "card (insert page_id ?ids) \<le> card (dom (G(page_id \<mapsto> page)))"
    using fin by (intro card_mono) auto
  then show ?thesis
    using card \<open>page_id \<notin> ?ids\<close> by simp
qed

lemma store_inv_fill:
  assumes inv: "store_inv P st G" and choose: "choose_slot st page_id = (st1, idx)"
    and len: "length (ep_bytes ep) \<le> MAX_ENCODED_PAGE_BYTES" and ok: "P (ep_bytes ep) page"
  obtains st2 where "fill_slot st1 idx page_id ep = Ok st2" and "store_inv P st2 (G(page_id \<mapsto> page))"
    and "ss_initialized st2 = ss_initialized st" and "\<exists>i. holds st2 i page_id"
proof -
  have wf: "store_wf st"
    using inv by (simp add: store_inv_def)
  note ch = choose_slot_spec [OF wf choose]
  from ch(1,4) len obtain slot where fill: "fill_slot st1 idx page_id ep = Ok (st1\<lparr>ss_slots :=
      (ss_slots st1)[idx := slot], ss_stats := fill_stats (ss_stats st1) (ss_slots st1 ! idx) ep\<rparr>)"
    and slot: "sl_occupied slot" "sl_page_id slot = page_id" "slot_bytes slot = ep_bytes ep"
      "unat (sl_encoded_len slot) \<le> MAX_ENCODED_PAGE_BYTES" "length (sl_encoded slot) = MAX_ENCODED_PAGE_BYTES"
    by (rule fill_slot_ok [where page_id = page_id]) (use len in simp)
  define st2 where "st2 = st1\<lparr>ss_slots := (ss_slots st1)[idx := slot],
    ss_stats := fill_stats (ss_stats st1) (ss_slots st1 ! idx) ep\<rparr>"
  have same: "holds st1 = holds st"
    using ch(2) by (simp add: holds_def fun_eq_iff)
  have in_table: "idx < length (ss_slots st1)"
    using ch(1,4) by (simp add: store_wf_def)
  have upd: "holds st2 i p \<longleftrightarrow> (if i = idx then p = page_id else holds st i p)" for i p
    using holds_update [OF in_table slot(1)] by (simp add: st2_def same slot(2))
  have own: "holds st idx page_id \<or> (\<forall>i. \<not> holds st i page_id)"
    using ch(5) by blast
  have wf2: "store_wf st2"
    unfolding st2_def using ch(1,4) slot own by (intro store_wf_fill) (auto simp: same)
  have slots: "slot_bytes (ss_slots st2 ! i) = (if i = idx then ep_bytes ep else slot_bytes (ss_slots st ! i))" for i
    using in_table slot(3) ch(2) by (simp add: st2_def nth_list_update)
  have kept: "\<exists>i. holds st2 i p" if few: "card (dom (G(page_id \<mapsto> page))) \<le> STORE_CAPACITY_PAGES"
    and p: "p \<in> dom (G(page_id \<mapsto> page))" for p
  proof (cases "p = page_id")
    case True
    then show ?thesis
      using upd [of idx p] by auto
  next
    case False
    have sub: "q \<in> dom G" if "holds st i q" for i q
      using inv that unfolding store_inv_def by blast
    have fin: "finite (dom G)"
      using inv by (simp add: store_inv_def)
    have "STORE_CAPACITY_PAGES < card (dom (G(page_id \<mapsto> page)))"
      if "\<forall>slot \<in> set (ss_slots st). sl_occupied slot" "\<forall>i. \<not> holds st i page_id"
      by (rule full_table_card [OF wf that(1) fin _ that(2)]) (rule sub)
    then have "\<not> (\<forall>slot \<in> set (ss_slots st). sl_occupied slot) \<or> holds st idx page_id"
      using few own by fastforce
    then have free: "holds st idx q \<Longrightarrow> q = page_id" for q
      using ch(5) by (auto simp: holds_def)
    have "card (dom G) \<le> card (dom (G(page_id \<mapsto> page)))"
      using inv by (intro card_mono) (auto simp: store_inv_def)
    then have "card (dom G) \<le> STORE_CAPACITY_PAGES"
      using few by (rule order_trans)
    moreover have "p \<in> dom G"
      using p False by auto
    ultimately obtain i where "holds st i p"
      using inv unfolding store_inv_def by blast
    then show ?thesis
      using upd [of i p] free [of p] False by (cases "i = idx") auto
  qed
  have other: "\<not> holds st i page_id" if "i \<noteq> idx" for i
    using own wf that unfolding store_wf_def by blast
  have "\<exists>page'. (G(page_id \<mapsto> page)) p = Some page' \<and> P (slot_bytes (ss_slots st2 ! i)) page'"
    if "holds st2 i p" for i p
  proof (cases "i = idx")
    case True
    then show ?thesis
      using ok upd [of i p] that by (simp add: slots)
  next
    case False
    then have "holds st i p" "p \<noteq> page_id"
      using upd [of i p] other [of i] that by auto
    then show ?thesis
      using inv False unfolding store_inv_def by (simp add: slots)
  qed
  then have "store_inv P st2 (G(page_id \<mapsto> page))"
    using inv wf2 kept by (simp add: store_inv_def)
  then show thesis
    using fill ch(3) upd [of idx page_id] by (intro that [of st2]) (auto simp: st2_def)
qed

text \<open>A sequence of requests, with the pages stored last as the abstract result.\<close>

datatype store_op = StoreOp u64 bytes | LoadOp u64 bytes

fun store_exec ::
  "('c \<Rightarrow> bytes \<Rightarrow> bytes \<Rightarrow> 'c \<times> bytes \<times> (compression_error, encoded_page) outcome)
    \<Rightarrow> ('c \<Rightarrow> bytes \<Rightarrow> bytes \<Rightarrow> 'c \<times> bytes \<times> (compression_error, unit) outcome)
    \<Rightarrow> 'c \<Rightarrow> store_state \<Rightarrow> store_op list \<Rightarrow> 'c \<times> store_state" where
  "store_exec enc dec c st [] = (c, st)"
| "store_exec enc dec c st (StoreOp page_id page # ops) =
     (case store_page_with enc c st page_id page of (c', st', _) \<Rightarrow> store_exec enc dec c' st' ops)"
| "store_exec enc dec c st (LoadOp page_id out # ops) =
     (case load_page_with dec c st page_id out of (c', st', _) \<Rightarrow> store_exec enc dec c' st' ops)"

fun op_ok :: "store_op \<Rightarrow> bool" where
  "op_ok (StoreOp _ page) \<longleftrightarrow> length page = PAGE_BYTES"
| "op_ok (LoadOp _ out) \<longleftrightarrow> length out = PAGE_BYTES"

fun last_stored :: "(u64 \<rightharpoonup> bytes) \<Rightarrow> store_op list \<Rightarrow> u64 \<rightharpoonup> bytes" where
  "last_stored G [] = G"
| "last_stored G (StoreOp page_id page # ops) = last_stored (G(page_id \<mapsto> page)) ops"
| "last_stored G (LoadOp _ _ # ops) = last_stored G ops"

lemma store_inv_stats: "store_inv P (st\<lparr>ss_stats := s\<rparr>) G = store_inv P st G"
  by (simp add: store_inv_def)

context page_codec
begin

lemma store_page_step:
  assumes c: "ready c" and st: "ss_initialized st" "store_inv stands_for st G" and page: "length page = PAGE_BYTES"
  obtains c' st' e where "store_page_with enc c st page_id page = (c', st', Ok e)" and "ready c'"
    and "ss_initialized st'" and "store_inv stands_for st' (G(page_id \<mapsto> page))"
    and "\<exists>i. holds st' i page_id"
proof -
  define st1 where "st1 = st\<lparr>ss_stats := (ss_stats st)\<lparr>
    st_store_requests := sat_add (st_store_requests (ss_stats st)) 1,
    st_total_input_bytes := sat_add (st_total_input_bytes (ss_stats st)) (of_nat PAGE_BYTES)\<rparr>\<rparr>"
  have inv1: "store_inv stands_for st1 G" "ss_initialized st1"
    using st by (simp_all add: st1_def store_inv_stats)
  obtain c' scratch' ep where enc: "enc c page (replicate MAX_ENCODED_PAGE_BYTES 0) = (c', scratch', Ok ep)"
    and ep: "ready c'" "length (ep_bytes ep) \<le> MAX_ENCODED_PAGE_BYTES" "stands_for (ep_bytes ep) page"
    using enc_total [OF c page] by (metis length_replicate)
  obtain st2 idx where choose: "choose_slot st1 page_id = (st2, idx)"
    by fastforce
  from inv1(1) choose ep(2,3) obtain st3 where fill: "fill_slot st2 idx page_id ep = Ok st3"
    and inv3: "store_inv stands_for st3 (G(page_id \<mapsto> page))" "ss_initialized st3 = ss_initialized st1"
      "\<exists>i. holds st3 i page_id"
    by (rule store_inv_fill)
  have "store_page_with enc c st page_id page = (c', st3, Ok \<lparr>se_page_id = page_id,
      se_class = ep_class ep, se_encoded_bytes = length (ep_bytes ep)\<rparr>)"
    using st(1) enc choose fill by (simp add: store_page_with_def flip: st1_def)
  then show thesis
    using ep(1) inv1(2) inv3 by (intro that) simp_all
qed

lemma load_page_step:
  assumes c: "ready c" and st: "ss_initialized st" "store_inv stands_for st G" and out: "length out = PAGE_BYTES"
  obtains c' s out' r where "load_page_with dec c st page_id out = (c', st\<lparr>ss_stats := s\<rparr>, out', r)"
    and "ready c'"
    and "if \<exists>i. holds st i page_id then \<exists>e. r = Ok e \<and> G page_id = Some out'
         else r = Fail NotFound \<and> out' = out"
proof (cases "find_slot st page_id")
  case None
  then have none: "\<not> (\<exists>i. holds st i page_id)"
    by (simp add: find_slot_None)
  show thesis
    by (rule that [of c]) (use None none c st(1) in \<open>simp_all add: load_page_with_def Let_def\<close>)
next
  case (Some i)
  then have h: "holds st i page_id"
    by (rule find_slot_Some)
  then obtain page where page: "G page_id = Some page" "stands_for (slot_bytes (ss_slots st ! i)) page"
    using st(2) unfolding store_inv_def by blast
  have slot: "i < length (ss_slots st)" "ss_slots st ! i \<in> set (ss_slots st)" "store_wf st"
    using h st(2) by (auto simp: holds_def store_inv_def)
  have len: "unat (sl_encoded_len (ss_slots st ! i)) \<le> length (sl_encoded (ss_slots st ! i))"
    using slot by (auto simp: store_wf_def)
  obtain c' where "dec c (slot_bytes (ss_slots st ! i)) out = (c', page, Ok ())" "ready c'"
    using dec_total [OF c page(2) out] by blast
  note dec = this
  have "\<exists>s e. load_page_with dec c st page_id out = (c', st\<lparr>ss_stats := s\<rparr>, page, Ok e)"
    using Some st(1) dec(1) slot(1) len by (simp add: load_page_with_def Let_def slot_bytes_def) blast
  then obtain s e where l: "load_page_with dec c st page_id out = (c', st\<lparr>ss_stats := s\<rparr>, page, Ok e)"
    by blast
  show thesis
    by (rule that [OF l dec(2)]) (use page(1) h in auto)
qed

lemma store_exec_inv:
  assumes "ready c" "ss_initialized st" "store_inv stands_for st G" and "\<forall>x \<in> set ops. op_ok x"
    and "store_exec enc dec c st ops = (c', st')"
  shows "ready c' \<and> ss_initialized st' \<and> store_inv stands_for st' (last_stored G ops)"
  using assms
proof (induction ops arbitrary: c st G)
  case Nil
  then show ?case by simp
next
  case (Cons x ops)
  show ?case
  proof (cases x)
    case (StoreOp page_id page)
    with Cons.prems have "length page = PAGE_BYTES" by simp
    with Cons.prems(1-3) obtain c1 st1 e where call: "store_page_with enc c st page_id page = (c1, st1, Ok e)"
      and inv1: "ready c1" "ss_initialized st1" "store_inv stands_for st1 (G(page_id \<mapsto> page))"
      by (rule store_page_step [where page_id = page_id])
    have ok: "\<forall>x \<in> set ops. op_ok x" and rest: "store_exec enc dec c1 st1 ops = (c', st')"
      using Cons.prems StoreOp call by simp_all
    show ?thesis
      unfolding StoreOp last_stored.simps by (rule Cons.IH [OF inv1 ok rest])
  next
    case (LoadOp page_id out)
    with Cons.prems have "length out = PAGE_BYTES" by simp
    with Cons.prems(1-3) obtain c1 s out1 r where
      call: "load_page_with dec c st page_id out = (c1, st\<lparr>ss_stats := s\<rparr>, out1, r)" and c1: "ready c1"
      by (rule load_page_step [where page_id = page_id])
    have st1: "ss_initialized (st\<lparr>ss_stats := s\<rparr>)" "store_inv stands_for (st\<lparr>ss_stats := s\<rparr>) G"
      and ok: "\<forall>x \<in> set ops. op_ok x" and rest: "store_exec enc dec c1 (st\<lparr>ss_stats := s\<rparr>) ops = (c', st')"
      using Cons.prems LoadOp call by (simp_all add: store_inv_stats)
    show ?thesis
      unfolding LoadOp last_stored.simps by (rule Cons.IH [OF c1 st1 ok rest])
  qed
qed

end

section \<open>Counters\<close>

text \<open>The total of a quantity over the occupied slots.\<close>

definition slot_total :: "(store_slot \<Rightarrow> nat) \<Rightarrow> store_slot list \<Rightarrow> nat" where
  "slot_total f slots = (\<Sum>slot\<leftarrow>slots. if sl_occupied slot then f slot else 0)"

abbreviation of_class :: "compression_class \<Rightarrow> store_slot \<Rightarrow> nat" where
  "of_class cls slot \<equiv> (if sl_class slot = cls then 1 else 0)"

fun class_count :: "store_stats \<Rightarrow> compression_class \<Rightarrow> u64" where
  "class_count s Zero = st_stored_zero_pages s"
| "class_count s Same = st_stored_same_pages s"
| "class_count s Sxrc = st_stored_sxrc_pages s"
| "class_count s Raw = st_stored_raw_pages s"

definition counters_exact :: "store_state \<Rightarrow> bool" where
  "counters_exact st \<longleftrightarrow>
     unat (st_stored_pages (ss_stats st)) = slot_total (\<lambda>_. 1) (ss_slots st)
     \<and> unat (st_current_encoded_bytes (ss_stats st)) = slot_total (\<lambda>slot. unat (sl_encoded_len slot)) (ss_slots st)
     \<and> (\<forall>cls. unat (class_count (ss_stats st) cls) = slot_total (of_class cls) (ss_slots st))"

lemma class_count_account [simp]:
  "class_count (account_added s c n) cls = (if c = cls then sat_add (class_count s cls) 1 else class_count s cls)"
  "class_count (account_removed s c n) cls = (if c = cls then sat_sub (class_count s cls) 1 else class_count s cls)"
  by (cases c; cases cls; simp add: account_added_def account_removed_def Let_def)+

lemma account_fields [simp]:
  "st_stored_pages (account_added s c n) = st_stored_pages s"
  "st_stored_pages (account_removed s c n) = st_stored_pages s"
  "st_current_encoded_bytes (account_added s c n) = sat_add (st_current_encoded_bytes s) (of_nat n)"
  "st_current_encoded_bytes (account_removed s c n) = sat_sub (st_current_encoded_bytes s) (of_nat n)"
  by (cases c; simp add: account_added_def account_removed_def Let_def)+

lemma class_count_fields [simp]:
  "class_count (s\<lparr>st_stored_pages := a\<rparr>) cls = class_count s cls"
  "class_count (s\<lparr>st_store_successes := a, st_total_encoded_bytes := b\<rparr>) cls = class_count s cls"
  by (cases cls; simp)+

lemma total_update:
  assumes "i < length slots" and "sl_occupied slot"
  shows "slot_total f (slots[i := slot]) + (if sl_occupied (slots ! i) then f (slots ! i) else 0)
    = slot_total f slots + f slot"
proof -
  have split: "slots = take i slots @ slots ! i # drop (Suc i) slots"
    using assms(1) by (rule id_take_nth_drop)
  have "slot_total f (slots[i := slot]) = slot_total f (take i slots) + f slot + slot_total f (drop (Suc i) slots)"
    using assms by (simp add: slot_total_def upd_conv_take_nth_drop)
  moreover have "slot_total f slots = slot_total f (take i slots)
      + (if sl_occupied (slots ! i) then f (slots ! i) else 0) + slot_total f (drop (Suc i) slots)"
    by (subst split) (simp add: slot_total_def)
  ultimately show ?thesis by simp
qed

lemma total_bound:
  assumes "\<forall>slot \<in> set slots. f slot \<le> b" shows "slot_total f slots \<le> length slots * b"
  using assms by (induction slots) (auto simp: slot_total_def)

lemma total_ge: "i < length slots \<Longrightarrow> sl_occupied (slots ! i) \<Longrightarrow> f (slots ! i) \<le> slot_total f slots"
  using member_le_sum_list [of "f (slots ! i)" "map (\<lambda>slot. if sl_occupied slot then f slot else 0) slots"]
  by (force simp: slot_total_def)

lemma sat_zero [simp]: "sat_add (a :: u64) 0 = a" "sat_sub (a :: u64) 0 = a"
  using unat_u64_less [of a] by (simp_all add: sat_add_def sat_sub_def)

lemma unat_sat_add_exact:
  "unat (a :: u64) + n < 2 ^ 64 - 1 \<Longrightarrow> unat (sat_add a (of_nat n)) = unat a + n"
  by (simp add: word_nat unat_of_nat take_bit_nat_eq_self)

lemma unat_sat_sub_exact:
  "n \<le> unat (a :: u64) \<Longrightarrow> unat (sat_sub a (of_nat n)) = unat a - n"
  using unat_u64_less [of a] by (simp add: word_nat unat_of_nat take_bit_nat_eq_self)

text \<open>Taking a quantity off a counter and adding another keeps it at the new total.\<close>

lemma counter_step:
  assumes i: "i < length slots" and slot: "sl_occupied slot"
    and c: "unat (c :: u64) = slot_total f slots" and small: "slot_total f slots + f slot < 2 ^ 64 - 1"
  shows "unat (sat_add (if sl_occupied (slots ! i) then sat_sub c (of_nat (f (slots ! i))) else c)
      (of_nat (f slot))) = slot_total f (slots[i := slot])"
proof (cases "sl_occupied (slots ! i)")
  case True
  then have "f (slots ! i) \<le> unat c"
    using total_ge [OF i, of f] c by simp
  moreover have "slot_total f (slots[i := slot]) + f (slots ! i) = slot_total f slots + f slot"
    using total_update [OF i slot, of f] True by simp
  moreover have "unat (sat_sub c (of_nat (f (slots ! i)))) = unat c - f (slots ! i)"
    using calculation(1) by (rule unat_sat_sub_exact)
  ultimately show ?thesis
    using c small True unat_sat_add_exact [of "sat_sub c (of_nat (f (slots ! i)))" "f slot"] by simp
next
  case False
  then show ?thesis
    using total_update [OF i slot, of f] c small by (simp add: unat_sat_add_exact)
qed

lemma unat_u16_le: "unat (w :: u16) \<le> 65535"
proof -
  have "unat w < 2 ^ LENGTH(16)"
    by (rule unsigned_less)
  then show ?thesis by simp
qed

lemma fill_stats_exact:
  assumes exact: "counters_exact st" and len: "length (ss_slots st) = STORE_CAPACITY_PAGES"
    and i: "i < length (ss_slots st)"
    and slot: "sl_occupied slot" "sl_class slot = ep_class ep" "unat (sl_encoded_len slot) = length (ep_bytes ep)"
  shows "counters_exact (st\<lparr>ss_slots := (ss_slots st)[i := slot],
    ss_stats := fill_stats (ss_stats st) (ss_slots st ! i) ep\<rparr>)"
proof -
  let ?old = "ss_slots st ! i" and ?slots = "ss_slots st"
  have one: "slot_total (\<lambda>_. 1) ?slots \<le> 64" "slot_total (of_class cls) ?slots \<le> 64" for cls
    using total_bound [of ?slots "\<lambda>_. 1" 1] total_bound [of ?slots "of_class cls" 1] len
    by (auto simp: STORE_CAPACITY_PAGES_def)
  have bytes: "slot_total (\<lambda>s. unat (sl_encoded_len s)) ?slots \<le> 64 * 65535" "length (ep_bytes ep) \<le> 65535"
    using total_bound [of ?slots "\<lambda>s. unat (sl_encoded_len s)" 65535] len unat_u16_le [of "sl_encoded_len slot"] slot(3)
    by (auto simp: STORE_CAPACITY_PAGES_def unat_u16_le)
  note step = counter_step [OF i slot(1)]
  have "unat (st_stored_pages (fill_stats (ss_stats st) ?old ep)) = slot_total (\<lambda>_. 1) (?slots[i := slot])"
    using exact one(1) step [of "st_stored_pages (ss_stats st)" "\<lambda>_. 1"]
    using total_update [OF i slot(1), of "\<lambda>_. 1"]
    by (auto simp: counters_exact_def fill_stats_def Let_def)
  moreover have "unat (st_current_encoded_bytes (fill_stats (ss_stats st) ?old ep))
      = slot_total (\<lambda>s. unat (sl_encoded_len s)) (?slots[i := slot])"
    using exact bytes step [of "st_current_encoded_bytes (ss_stats st)" "\<lambda>s. unat (sl_encoded_len s)"] slot(3)
    by (auto simp: counters_exact_def fill_stats_def Let_def)
  moreover have "unat (class_count (fill_stats (ss_stats st) ?old ep) cls)
      = slot_total (of_class cls) (?slots[i := slot])" for cls
    using exact one(2) [of cls] step [of "class_count (ss_stats st) cls" "of_class cls"] slot(2)
    by (auto simp: counters_exact_def fill_stats_def Let_def split: if_splits)
  ultimately show ?thesis
    by (simp add: counters_exact_def)
qed

lemma counters_exact_stats:
  assumes "ss_slots st' = ss_slots st" and "st_stored_pages (ss_stats st') = st_stored_pages (ss_stats st)"
    and "st_current_encoded_bytes (ss_stats st') = st_current_encoded_bytes (ss_stats st)"
    and "\<And>cls. class_count (ss_stats st') cls = class_count (ss_stats st) cls"
  shows "counters_exact st' \<longleftrightarrow> counters_exact st"
  using assms by (simp add: counters_exact_def)

lemma choose_slot_counters:
  assumes "choose_slot st page_id = (st', idx)" shows "counters_exact st' \<longleftrightarrow> counters_exact st"
proof -
  have "class_count (s\<lparr>st_replacements := n\<rparr>) cls = class_count s cls"
    "class_count (s\<lparr>st_evictions := n\<rparr>) cls = class_count s cls" for s n cls
    by (cases cls; simp)+
  with assms show ?thesis
    by (intro counters_exact_stats) (auto simp: choose_slot_def split: option.splits)
qed

lemma request_counters:
  "counters_exact (st\<lparr>ss_stats := (ss_stats st)\<lparr>st_store_requests := a, st_total_input_bytes := b\<rparr>\<rparr>)
    = counters_exact st"
  "counters_exact (st\<lparr>ss_stats := (ss_stats st)\<lparr>st_load_requests := a, st_load_successes := b\<rparr>\<rparr>)
    = counters_exact st"
  "counters_exact (st\<lparr>ss_stats := (ss_stats st)\<lparr>st_load_requests := a, st_load_misses := b\<rparr>\<rparr>)
    = counters_exact st"
  by (rule counters_exact_stats; simp; case_tac cls; simp)+

context page_codec
begin

lemma store_page_counters:
  assumes c: "ready c" and st: "ss_initialized st" "store_wf st" and page: "length page = PAGE_BYTES"
    and exact: "counters_exact st" and call: "store_page_with enc c st page_id page = (c', st', res)"
  shows "counters_exact st'"
proof -
  obtain c1 scratch1 ep where enc: "enc c page (replicate MAX_ENCODED_PAGE_BYTES 0) = (c1, scratch1, Ok ep)"
    and len: "length (ep_bytes ep) \<le> MAX_ENCODED_PAGE_BYTES"
    using enc_total [OF c page] by (metis length_replicate)
  define st1 where "st1 = st\<lparr>ss_stats := (ss_stats st)\<lparr>
    st_store_requests := sat_add (st_store_requests (ss_stats st)) 1,
    st_total_input_bytes := sat_add (st_total_input_bytes (ss_stats st)) (of_nat PAGE_BYTES)\<rparr>\<rparr>"
  obtain st2 idx where choose: "choose_slot st1 page_id = (st2, idx)"
    by fastforce
  have wf1: "store_wf st1"
    using st(2) by (simp add: st1_def)
  note ch = choose_slot_spec [OF wf1 choose]
  from ch(1,4) len obtain slot where fill: "fill_slot st2 idx page_id ep = Ok (st2\<lparr>ss_slots :=
      (ss_slots st2)[idx := slot], ss_stats := fill_stats (ss_stats st2) (ss_slots st2 ! idx) ep\<rparr>)"
    and slot: "sl_occupied slot" "sl_class slot = ep_class ep" "unat (sl_encoded_len slot) = length (ep_bytes ep)"
    by (rule fill_slot_ok [where page_id = page_id])
  have "counters_exact st2"
    using exact choose_slot_counters [OF choose] by (simp add: st1_def request_counters)
  then have "counters_exact (st2\<lparr>ss_slots := (ss_slots st2)[idx := slot],
      ss_stats := fill_stats (ss_stats st2) (ss_slots st2 ! idx) ep\<rparr>)"
    using ch(1,4) slot by (intro fill_stats_exact) (auto simp: store_wf_def)
  moreover have "st' = st2\<lparr>ss_slots := (ss_slots st2)[idx := slot],
      ss_stats := fill_stats (ss_stats st2) (ss_slots st2 ! idx) ep\<rparr>"
    using call st(1) enc choose fill by (simp add: store_page_with_def flip: st1_def)
  ultimately show ?thesis by simp
qed

lemma load_page_counters:
  assumes c: "ready c" and st: "ss_initialized st" "store_inv stands_for st G" and out: "length out = PAGE_BYTES"
    and exact: "counters_exact st" and call: "load_page_with dec c st page_id out = (c', st', out', res)"
  shows "counters_exact st'"
proof (cases "find_slot st page_id")
  case None
  then show ?thesis
    using call st(1) exact by (auto simp: load_page_with_def Let_def request_counters)
next
  case (Some i)
  then obtain page where "stands_for (slot_bytes (ss_slots st ! i)) page" "i < length (ss_slots st)"
    using st(2) find_slot_Some [OF Some] unfolding store_inv_def holds_def by blast
  moreover have "unat (sl_encoded_len (ss_slots st ! i)) \<le> length (sl_encoded (ss_slots st ! i))"
    using st(2) \<open>i < length (ss_slots st)\<close> by (auto simp: store_inv_def store_wf_def)
  moreover obtain c1 where "dec c (slot_bytes (ss_slots st ! i)) out = (c1, page, Ok ())"
    using dec_total [OF c _ out] calculation(1) by blast
  ultimately show ?thesis
    using call st(1) exact Some
    by (auto simp: load_page_with_def Let_def slot_bytes_def request_counters)
qed

lemma store_exec_counters:
  assumes "ready c" "ss_initialized st" "store_inv stands_for st G" and "\<forall>x \<in> set ops. op_ok x"
    and "counters_exact st" and "store_exec enc dec c st ops = (c', st')"
  shows "counters_exact st'"
  using assms
proof (induction ops arbitrary: c st G)
  case Nil
  then show ?case by simp
next
  case (Cons x ops)
  obtain c1 st1 where one: "store_exec enc dec c st [x] = (c1, st1)"
    by fastforce
  have x: "\<forall>y \<in> set [x]. op_ok y" and ops: "\<forall>y \<in> set ops. op_ok y"
    using Cons.prems(4) by simp_all
  have inv1: "ready c1" "ss_initialized st1" "store_inv stands_for st1 (last_stored G [x])"
    using store_exec_inv [OF Cons.prems(1-3) x one] by blast+
  have wf: "store_wf st"
    using Cons.prems(3) by (simp add: store_inv_def)
  have "counters_exact st1"
    using one x Cons.prems(1-3,5) wf
    by (cases x) (auto split: prod.splits dest: store_page_counters load_page_counters)
  moreover have "store_exec enc dec c1 st1 ops = (c', st')"
    using Cons.prems(6) one by (cases x) (auto split: prod.splits)
  ultimately show ?case
    using Cons.IH [OF inv1 ops] by blast
qed

end

section \<open>Properties\<close>

lemma store_ready:
  assumes "runtime_initialize compression_runtime_new = (r, Inr rs)"
    and "store_initialize r store_state_new = (st, Inr summary)"
  shows "cr_initialized r" and "ss_initialized st" and "store_inv encodes st Map.empty"
    and "counters_exact st"
proof -
  show "cr_initialized r" "ss_initialized st"
    using assms by (auto simp: runtime_initialize_def store_initialize_def compression_runtime_new_def
        store_state_new_def split: if_splits)
  have st: "st = store_state_new\<lparr>ss_initialized := True\<rparr>"
    using assms by (auto simp: store_initialize_def split: if_splits)
  show "store_inv encodes st Map.empty"
    by (auto simp: st store_inv_def store_wf_def holds_def store_state_new_def store_slot_empty_def
        STORE_CAPACITY_PAGES_def)
  have "class_count store_stats_new cls = 0" for cls
    by (cases cls) (simp_all add: store_stats_new_def)
  moreover have "st_stored_pages store_stats_new = 0" "st_current_encoded_bytes store_stats_new = 0"
    by (simp_all add: store_stats_new_def)
  ultimately show "counters_exact st"
    by (simp add: st counters_exact_def slot_total_def store_state_new_def store_slot_empty_def
        sum_list_replicate)
qed

text \<open>
  C3.  The store keeps what it is given.  After any sequence of stores and loads on a freshly
  initialised store, a load either returns exactly the page stored last under that id, or
  reports \<^verbatim>\<open>NotFound\<close> with the buffer untouched; and the latter happens only for an id that
  was never stored, or once more than 64 different ids have been used.
\<close>

theorem store_load_last:
  assumes "runtime_initialize compression_runtime_new = (r0, Inr rs)"
    and "store_initialize r0 store_state_new = (st0, Inr summary)"
    and "\<forall>x \<in> set ops. op_ok x"
    and "store_exec runtime_encode_page runtime_decode_page r0 st0 ops = (r, st)"
    and "length out = PAGE_BYTES" and "load_page r st page_id out = (r', st', out', res)"
  shows "(\<exists>e. res = Ok e \<and> last_stored Map.empty ops page_id = Some out')
    \<or> res = Fail NotFound \<and> out' = out
      \<and> (last_stored Map.empty ops page_id = None \<or> 64 < card (dom (last_stored Map.empty ops)))"
proof -
  note ready = store_ready [OF assms(1,2)]
  have inv: "cr_initialized r" "ss_initialized st" "store_inv encodes st (last_stored Map.empty ops)"
    using runtime.store_exec_inv [OF ready(1-3) assms(3,4)] by blast+
  obtain r1 s out1 res1 where "load_page r st page_id out = (r1, st\<lparr>ss_stats := s\<rparr>, out1, res1)"
    and res: "if \<exists>i. holds st i page_id then \<exists>e. res1 = Ok e \<and> last_stored Map.empty ops page_id = Some out1
         else res1 = Fail NotFound \<and> out1 = out"
    by (rule runtime.load_page_step [OF inv assms(5), where page_id = page_id])
  with assms(6) have eq: "out1 = out'" "res1 = res"
    by auto
  show ?thesis
  proof (cases "\<exists>i. holds st i page_id")
    case True
    then show ?thesis using res eq by auto
  next
    case False
    then have "last_stored Map.empty ops page_id = None \<or> 64 < card (dom (last_stored Map.empty ops))"
      using inv(3) by (force simp: store_inv_def STORE_CAPACITY_PAGES_def not_le)
    then show ?thesis using False res eq by auto
  qed
qed

lemma demo_store:
  defines "r0 \<equiv> fst (runtime_initialize compression_runtime_new)"
  defines "st0 \<equiv> fst (store_initialize r0 store_state_new)"
  shows "runtime_initialize compression_runtime_new = (r0, Inr runtime_summary_of)"
    and "store_initialize r0 store_state_new = (st0, Inr store_summary_of)"
  by (simp_all add: r0_def st0_def runtime_initialize_def store_initialize_def compression_runtime_new_def
      store_state_new_def)

definition demo_store_exec :: "store_op list \<Rightarrow> compression_runtime \<times> store_state" where
  "demo_store_exec ops =
     (let r0 = fst (runtime_initialize compression_runtime_new);
          st0 = fst (store_initialize r0 store_state_new)
      in store_exec runtime_encode_page runtime_decode_page r0 st0 ops)"

theorem store_load_last_witness:
  "case demo_store_exec [StoreOp 7 (replicate 4096 5), StoreOp 8 (replicate 4096 1), StoreOp 7 (replicate 4096 6)] of
     (r, st) \<Rightarrow> fst (snd (snd (load_page r st 7 (replicate 4096 0)))) = replicate 4096 6"
proof -
  let ?ops = "[StoreOp 7 (replicate 4096 5), StoreOp 8 (replicate 4096 1), StoreOp 7 (replicate 4096 6)]"
  obtain r st where run: "demo_store_exec ?ops = (r, st)"
    by fastforce
  obtain r' st' out' res where load: "load_page r st 7 (replicate 4096 0) = (r', st', out', res)"
    by (metis surj_pair)
  have "\<forall>x \<in> set ?ops. op_ok x" "length (replicate 4096 0 :: bytes) = PAGE_BYTES"
    by (simp_all add: PAGE_BYTES_def)
  moreover have "dom (last_stored Map.empty ?ops) = {7, 8}" "last_stored Map.empty ?ops 7 = Some (replicate 4096 6)"
    by auto
  ultimately have "out' = replicate 4096 6"
    using store_load_last [OF demo_store _ run [unfolded demo_store_exec_def Let_def] _ load] by auto
  with run load show ?thesis
    by simp
qed

text \<open>
  C36.  The store's gauges are exact: after any sequence of stores and loads the number of
  stored pages, the number of stored pages of each class and the number of encoded bytes held
  are what the slots hold, so none of their saturating updates ever saturates.
\<close>

theorem store_counters_exact:
  assumes "runtime_initialize compression_runtime_new = (r0, Inr rs)"
    and "store_initialize r0 store_state_new = (st0, Inr summary)"
    and "\<forall>x \<in> set ops. op_ok x"
    and "store_exec runtime_encode_page runtime_decode_page r0 st0 ops = (r, st)"
  shows "counters_exact st"
  using runtime.store_exec_counters [OF store_ready(1-3) [OF assms(1,2)] assms(3) store_ready(4) [OF assms(1,2)] assms(4)] .

theorem store_counters_exact_witness:
  "case demo_store_exec [StoreOp 7 (replicate 4096 5)] of (r, st) \<Rightarrow> counters_exact st"
proof -
  obtain r st where run: "demo_store_exec [StoreOp 7 (replicate 4096 5)] = (r, st)"
    by fastforce
  have "\<forall>x \<in> set [StoreOp 7 (replicate 4096 5)]. op_ok x"
    by (simp add: PAGE_BYTES_def)
  from store_counters_exact [OF demo_store this run [unfolded demo_store_exec_def Let_def]] run show ?thesis
    by simp
qed

end
