(* ===== verification/Pager.thy ===== *)
theory Pager
  imports Store
begin

text \<open>
  The pager, \<^verbatim>\<open>kernel/src/mm/pager.rs\<close>: pages are reclaimed into the compressed store and
  restored from it, with counters and a boot-time self test.  The pager relies only on what
  the locale \<open>page_store\<close> says; the instance is the kernel's store with its runtime.  The
  lemmas show that a reclaimed page is restored unchanged and that the self test passes.
\<close>

section \<open>State\<close>

record pager_summary =
  pu_page_bytes :: nat
  pu_store_capacity_pages :: nat

datatype pager_init_error = PagerAlreadyInitialized | CompressionStoreUnavailable

datatype pager_error = PagerNotInitialized | StoreFailure store_error | VerifyFailed

record pager_entry =
  pe_page_id :: u64
  pe_class :: compression_class
  pe_encoded_bytes :: nat

record pager_stats =
  pg_reclaim_requests :: u64
  pg_reclaim_successes :: u64
  pg_reclaim_failures :: u64
  pg_restore_requests :: u64
  pg_restore_successes :: u64
  pg_restore_failures :: u64
  pg_restore_misses :: u64
  pg_verify_failures :: u64
  pg_reclaimed_zero_pages :: u64
  pg_reclaimed_same_pages :: u64
  pg_reclaimed_sxrc_pages :: u64
  pg_reclaimed_raw_pages :: u64
  pg_restored_zero_pages :: u64
  pg_restored_same_pages :: u64
  pg_restored_sxrc_pages :: u64
  pg_restored_raw_pages :: u64
  pg_smoke_runs :: u64
  pg_smoke_successes :: u64

record pager_smoke_summary =
  ps_tested_pages :: u64
  ps_verified_pages :: u64

record pager_state =
  pr_initialized :: bool
  pr_stats :: pager_stats

definition pager_state_new :: pager_state where
  "pager_state_new =
     \<lparr>pr_initialized = False,
      pr_stats =
        \<lparr>pg_reclaim_requests = 0, pg_reclaim_successes = 0, pg_reclaim_failures = 0,
         pg_restore_requests = 0, pg_restore_successes = 0, pg_restore_failures = 0,
         pg_restore_misses = 0, pg_verify_failures = 0, pg_reclaimed_zero_pages = 0,
         pg_reclaimed_same_pages = 0, pg_reclaimed_sxrc_pages = 0, pg_reclaimed_raw_pages = 0,
         pg_restored_zero_pages = 0, pg_restored_same_pages = 0, pg_restored_sxrc_pages = 0,
         pg_restored_raw_pages = 0, pg_smoke_runs = 0, pg_smoke_successes = 0\<rparr>\<rparr>"

section \<open>Operations\<close>

definition pager_summary_of :: pager_summary where
  "pager_summary_of =
     \<lparr>pu_page_bytes = PAGE_BYTES, pu_store_capacity_pages = su_capacity_pages store_summary_of\<rparr>"

definition pager_initialize ::
  "store_state \<Rightarrow> pager_state \<Rightarrow> pager_state \<times> (pager_init_error + pager_summary)" where
  "pager_initialize st p =
     (if pr_initialized p then (p, Inl PagerAlreadyInitialized)
      else if \<not> ss_initialized st then (p, Inl CompressionStoreUnavailable)
      else (p\<lparr>pr_initialized := True\<rparr>, Inr pager_summary_of))"

fun account_reclaimed_class :: "pager_stats \<Rightarrow> compression_class \<Rightarrow> pager_stats" where
  "account_reclaimed_class s Zero = s\<lparr>pg_reclaimed_zero_pages := sat_add (pg_reclaimed_zero_pages s) 1\<rparr>"
| "account_reclaimed_class s Same = s\<lparr>pg_reclaimed_same_pages := sat_add (pg_reclaimed_same_pages s) 1\<rparr>"
| "account_reclaimed_class s Sxrc = s\<lparr>pg_reclaimed_sxrc_pages := sat_add (pg_reclaimed_sxrc_pages s) 1\<rparr>"
| "account_reclaimed_class s Raw = s\<lparr>pg_reclaimed_raw_pages := sat_add (pg_reclaimed_raw_pages s) 1\<rparr>"

fun account_restored_class :: "pager_stats \<Rightarrow> compression_class \<Rightarrow> pager_stats" where
  "account_restored_class s Zero = s\<lparr>pg_restored_zero_pages := sat_add (pg_restored_zero_pages s) 1\<rparr>"
| "account_restored_class s Same = s\<lparr>pg_restored_same_pages := sat_add (pg_restored_same_pages s) 1\<rparr>"
| "account_restored_class s Sxrc = s\<lparr>pg_restored_sxrc_pages := sat_add (pg_restored_sxrc_pages s) 1\<rparr>"
| "account_restored_class s Raw = s\<lparr>pg_restored_raw_pages := sat_add (pg_restored_raw_pages s) 1\<rparr>"

definition pager_entry_of :: "store_entry \<Rightarrow> pager_entry" where
  "pager_entry_of e =
     \<lparr>pe_page_id = se_page_id e, pe_class = se_class e, pe_encoded_bytes = se_encoded_bytes e\<rparr>"

type_synonym 's putter = "'s \<Rightarrow> u64 \<Rightarrow> bytes \<Rightarrow> 's \<times> (store_error, store_entry) outcome"
type_synonym 's getter = "'s \<Rightarrow> u64 \<Rightarrow> bytes \<Rightarrow> 's \<times> bytes \<times> (store_error, store_entry) outcome"

text \<open>The pager's own state and the store's travel together through every operation.\<close>

definition reclaim_page_with ::
  "'s putter \<Rightarrow> pager_state \<times> 's \<Rightarrow> u64 \<Rightarrow> bytes
    \<Rightarrow> (pager_state \<times> 's) \<times> (pager_error, pager_entry) outcome" where
  "reclaim_page_with put ps page_id page =
     (case ps of (p, s) \<Rightarrow>
        if \<not> pr_initialized p then (ps, Fail PagerNotInitialized)
        else
          let stats = (pr_stats p)\<lparr>pg_reclaim_requests := sat_add (pg_reclaim_requests (pr_stats p)) 1\<rparr>
          in case put s page_id page of
            (s', Inr entry) \<Rightarrow>
              let stats = stats\<lparr>pg_reclaim_successes := sat_add (pg_reclaim_successes stats) 1\<rparr>
              in ((p\<lparr>pr_stats := account_reclaimed_class stats (se_class entry)\<rparr>, s'),
                  Ok (pager_entry_of entry))
          | (s', Inl e) \<Rightarrow>
              ((p\<lparr>pr_stats := stats\<lparr>pg_reclaim_failures := sat_add (pg_reclaim_failures stats) 1\<rparr>\<rparr>, s'),
               Inl (map_failure StoreFailure e)))"

definition restore_page_with ::
  "'s getter \<Rightarrow> pager_state \<times> 's \<Rightarrow> u64 \<Rightarrow> bytes
    \<Rightarrow> (pager_state \<times> 's) \<times> bytes \<times> (pager_error, pager_entry) outcome" where
  "restore_page_with get ps page_id out =
     (case ps of (p, s) \<Rightarrow>
        if \<not> pr_initialized p then (ps, out, Fail PagerNotInitialized)
        else
          let stats = (pr_stats p)\<lparr>pg_restore_requests := sat_add (pg_restore_requests (pr_stats p)) 1\<rparr>
          in case get s page_id out of
            (s', out', Inr entry) \<Rightarrow>
              let stats = stats\<lparr>pg_restore_successes := sat_add (pg_restore_successes stats) 1\<rparr>
              in ((p\<lparr>pr_stats := account_restored_class stats (se_class entry)\<rparr>, s'), out',
                  Ok (pager_entry_of entry))
          | (s', out', Inl e) \<Rightarrow>
              let stats = stats\<lparr>pg_restore_failures := sat_add (pg_restore_failures stats) 1\<rparr>;
                  stats = (if e = Err NotFound
                           then stats\<lparr>pg_restore_misses := sat_add (pg_restore_misses stats) 1\<rparr> else stats)
              in ((p\<lparr>pr_stats := stats\<rparr>, s'), out', Inl (map_failure StoreFailure e)))"

definition verify_roundtrip_with ::
  "'s putter \<Rightarrow> 's getter \<Rightarrow> pager_state \<times> 's \<Rightarrow> u64 \<Rightarrow> bytes
    \<Rightarrow> (pager_state \<times> 's) \<times> (pager_error, unit) outcome" where
  "verify_roundtrip_with put get ps page_id page =
     st_then (reclaim_page_with put ps page_id page) (\<lambda>ps _.
     case restore_page_with get ps page_id (replicate PAGE_BYTES 0) of
       (ps, restored, Inl e) \<Rightarrow> (ps, Inl e)
     | ((p, s), restored, Inr _) \<Rightarrow>
         if page \<noteq> restored then
           ((p\<lparr>pr_stats := (pr_stats p)\<lparr>pg_verify_failures := sat_add (pg_verify_failures (pr_stats p)) 1\<rparr>\<rparr>, s),
            Fail VerifyFailed)
         else ((p, s), Ok ()))"

definition zero_page :: bytes where
  "zero_page = replicate PAGE_BYTES 0"

definition same_byte_page :: "u8 \<Rightarrow> bytes" where
  "same_byte_page b = replicate PAGE_BYTES b"

definition pattern_page :: bytes where
  "pattern_page = map (\<lambda>i. of_nat i * 17 + 5) [0 ..< PAGE_BYTES]"

definition dictionary_word_page :: "u32 \<Rightarrow> bytes" where
  "dictionary_word_page word =
     fold (\<lambda>i page. copy_into page (4 * i) (to_le 4 word)) [0 ..< PAGE_BYTES div 4] (replicate PAGE_BYTES 0)"

definition run_bootstrap_smoke_with ::
  "'s putter \<Rightarrow> 's getter \<Rightarrow> pager_state \<times> 's
    \<Rightarrow> (pager_state \<times> 's) \<times> (pager_error, pager_smoke_summary) outcome" where
  "run_bootstrap_smoke_with put get ps =
     (case ps of (p, s) \<Rightarrow>
        if \<not> pr_initialized p then (ps, Fail PagerNotInitialized)
        else
          let p = p\<lparr>pr_stats := (pr_stats p)\<lparr>pg_smoke_runs := sat_add (pg_smoke_runs (pr_stats p)) 1\<rparr>\<rparr>
          in st_then (verify_roundtrip_with put get (p, s) 0x1000 zero_page) (\<lambda>ps _.
             st_then (verify_roundtrip_with put get ps 0x1001 (same_byte_page 0xAA)) (\<lambda>ps _.
             st_then (verify_roundtrip_with put get ps 0x1002 pattern_page) (\<lambda>ps _.
             st_then (verify_roundtrip_with put get ps 0x1003 (dictionary_word_page 0x0000ffff)) (\<lambda>(p, s) _.
             ((p\<lparr>pr_stats := (pr_stats p)\<lparr>pg_smoke_successes := sat_add (pg_smoke_successes (pr_stats p)) 1\<rparr>\<rparr>, s),
              Ok \<lparr>ps_tested_pages = 4, ps_verified_pages = 4\<rparr>))))))"

section \<open>The contract of a page store\<close>

locale page_store =
  fixes put :: "'s putter" and get :: "'s getter"
    and ok :: "'s \<Rightarrow> bool" and recalls :: "'s \<Rightarrow> u64 \<Rightarrow> bytes \<Rightarrow> bool"
  assumes put_total: "ok s \<Longrightarrow> length page = PAGE_BYTES \<Longrightarrow>
      \<exists>s' e. put s page_id page = (s', Ok e) \<and> ok s' \<and> recalls s' page_id page"
    and get_total: "ok s \<Longrightarrow> recalls s page_id page \<Longrightarrow> length out = PAGE_BYTES \<Longrightarrow>
      \<exists>s' e. get s page_id out = (s', page, Ok e) \<and> ok s'"
begin

lemma reclaim_restore:
  assumes "pr_initialized p" "ok s" and page: "length page = PAGE_BYTES" and out: "length out = PAGE_BYTES"
  shows "\<exists>p1 s1 e1 p2 s2 e2. reclaim_page_with put (p, s) page_id page = ((p1, s1), Ok e1)
    \<and> restore_page_with get (p1, s1) page_id out = ((p2, s2), page, Ok e2)
    \<and> pr_initialized p2 \<and> ok s2"
proof -
  from put_total [OF assms(2) page, of page_id] obtain s1 e1
    where put: "put s page_id page = (s1, Ok e1)" and s1: "ok s1" "recalls s1 page_id page"
    by blast
  from get_total [OF s1 out] obtain s2 e2 where get: "get s1 page_id out = (s2, page, Ok e2)" "ok s2"
    by blast
  from put get assms(1) show ?thesis
    by (simp add: reclaim_page_with_def restore_page_with_def Let_def)
qed

lemma verify_roundtrip_ok:
  assumes "pr_initialized p" "ok s" and "length page = PAGE_BYTES"
  obtains p' s' where "verify_roundtrip_with put get (p, s) page_id page = ((p', s'), Ok ())"
    and "pr_initialized p'" and "ok s'"
  using reclaim_restore [OF assms, of "replicate PAGE_BYTES 0" page_id] that
  by (auto simp: verify_roundtrip_with_def)

end

lemma length_dictionary_word_page: "length (dictionary_word_page word) = PAGE_BYTES"
proof -
  have "length (fold (\<lambda>i page. copy_into page (4 * i) (to_le 4 word)) is page) = length page"
    if "\<forall>i \<in> set is. 4 * i + 4 \<le> length page" for "is" page
    using that by (induction "is" arbitrary: page) auto
  then show ?thesis
    by (auto simp: dictionary_word_page_def PAGE_BYTES_def)
qed

lemma length_smoke_pages [simp]:
  "length zero_page = PAGE_BYTES" "length (same_byte_page b) = PAGE_BYTES" "length pattern_page = PAGE_BYTES"
  by (simp_all add: zero_page_def same_byte_page_def pattern_page_def)

context page_store
begin

lemma smoke_ok:
  assumes "pr_initialized p" "ok s"
  shows "\<exists>ps'. run_bootstrap_smoke_with put get (p, s) = (ps', Ok \<lparr>ps_tested_pages = 4, ps_verified_pages = 4\<rparr>)"
proof -
  define p0 where "p0 = p\<lparr>pr_stats := (pr_stats p)\<lparr>pg_smoke_runs := sat_add (pg_smoke_runs (pr_stats p)) 1\<rparr>\<rparr>"
  have p0: "pr_initialized p0"
    using assms(1) by (simp add: p0_def)
  obtain p1 s1 where 1: "verify_roundtrip_with put get (p0, s) 0x1000 zero_page = ((p1, s1), Ok ())"
    "pr_initialized p1" "ok s1"
    by (rule verify_roundtrip_ok [OF p0 assms(2) length_smoke_pages(1)])
  obtain p2 s2 where 2: "verify_roundtrip_with put get (p1, s1) 0x1001 (same_byte_page 0xAA) = ((p2, s2), Ok ())"
    "pr_initialized p2" "ok s2"
    by (rule verify_roundtrip_ok [OF 1(2,3) length_smoke_pages(2)])
  obtain p3 s3 where 3: "verify_roundtrip_with put get (p2, s2) 0x1002 pattern_page = ((p3, s3), Ok ())"
    "pr_initialized p3" "ok s3"
    by (rule verify_roundtrip_ok [OF 2(2,3) length_smoke_pages(3)])
  obtain p4 s4 where
    4: "verify_roundtrip_with put get (p3, s3) 0x1003 (dictionary_word_page 0x0000ffff) = ((p4, s4), Ok ())"
    by (rule verify_roundtrip_ok [OF 3(2,3) length_dictionary_word_page])
  show ?thesis
    using assms(1) 1(1) 2(1) 3(1) 4
    by (simp add: run_bootstrap_smoke_with_def Let_def flip: p0_def)
qed

end

section \<open>The kernel's store keeps the contract\<close>

definition kernel_put :: "(compression_runtime \<times> store_state) putter" where
  "kernel_put = (\<lambda>(r, st) page_id page. case store_page r st page_id page of (r', st', res) \<Rightarrow> ((r', st'), res))"

definition kernel_get :: "(compression_runtime \<times> store_state) getter" where
  "kernel_get = (\<lambda>(r, st) page_id out.
     case load_page r st page_id out of (r', st', out', res) \<Rightarrow> ((r', st'), out', res))"

definition kernel_store_ok :: "compression_runtime \<times> store_state \<Rightarrow> bool" where
  "kernel_store_ok = (\<lambda>(r, st). cr_initialized r \<and> ss_initialized st \<and> (\<exists>G. store_inv encodes st G))"

definition kernel_recalls :: "compression_runtime \<times> store_state \<Rightarrow> u64 \<Rightarrow> bytes \<Rightarrow> bool" where
  "kernel_recalls = (\<lambda>(r, st) page_id page.
     \<exists>G. store_inv encodes st G \<and> G page_id = Some page \<and> (\<exists>i. holds st i page_id))"

interpretation kernel_store: page_store kernel_put kernel_get kernel_store_ok kernel_recalls
proof
  fix s :: "compression_runtime \<times> store_state" and page :: bytes and page_id
  assume "kernel_store_ok s" and page: "length page = PAGE_BYTES"
  then obtain r st G where s: "s = (r, st)" "cr_initialized r" "ss_initialized st" "store_inv encodes st G"
    by (cases s) (auto simp: kernel_store_ok_def)
  obtain r' st' e where "store_page r st page_id page = (r', st', Ok e)" "cr_initialized r'"
    "ss_initialized st'" "store_inv encodes st' (G(page_id \<mapsto> page))" "\<exists>i. holds st' i page_id"
    by (rule runtime.store_page_step [OF s(2-4) page])
  then show "\<exists>s' e. kernel_put s page_id page = (s', Ok e) \<and> kernel_store_ok s' \<and> kernel_recalls s' page_id page"
    by (auto simp: s(1) kernel_put_def kernel_store_ok_def kernel_recalls_def
        intro!: exI [of _ "G(page_id \<mapsto> page)"])
next
  fix s :: "compression_runtime \<times> store_state" and page_id and page out :: bytes
  assume "kernel_store_ok s" "kernel_recalls s page_id page" and out: "length out = PAGE_BYTES"
  then obtain r st G where s: "s = (r, st)" "cr_initialized r" "ss_initialized st" "store_inv encodes st G"
    and G: "G page_id = Some page" "\<exists>i. holds st i page_id"
    by (cases s) (auto simp: kernel_store_ok_def kernel_recalls_def)
  obtain r' stats out' res where "load_page r st page_id out = (r', st\<lparr>ss_stats := stats\<rparr>, out', res)"
    "cr_initialized r'" "if \<exists>i. holds st i page_id then \<exists>e. res = Ok e \<and> G page_id = Some out'
       else res = Fail NotFound \<and> out' = out"
    by (rule runtime.load_page_step [OF s(2-4) out])
  with s G show "\<exists>s' e. kernel_get s page_id out = (s', page, Ok e) \<and> kernel_store_ok s'"
    by (auto simp: kernel_get_def kernel_store_ok_def store_inv_stats)
qed

abbreviation reclaim_page where "reclaim_page \<equiv> reclaim_page_with kernel_put"
abbreviation restore_page where "restore_page \<equiv> restore_page_with kernel_get"
abbreviation run_bootstrap_smoke where
  "run_bootstrap_smoke \<equiv> run_bootstrap_smoke_with kernel_put kernel_get"

section \<open>Properties\<close>

lemma kernel_store_ready:
  assumes "runtime_initialize compression_runtime_new = (r, Inr rs)"
    and "store_initialize r store_state_new = (st, Inr summary)"
  shows "kernel_store_ok (r, st)"
  using store_ready [OF assms] by (auto simp: kernel_store_ok_def)

text \<open>
  C28.  What the pager reclaims it restores: with the pager up and the store in any state its
  operations can reach, reclaiming a page succeeds and restoring it afterwards fills any page
  buffer with exactly that page.
\<close>

theorem pager_restores_reclaimed:
  assumes "pr_initialized p" and "kernel_store_ok s"
    and "length page = PAGE_BYTES" and "length out = PAGE_BYTES"
  shows "\<exists>p1 s1 e1 p2 s2 e2. reclaim_page (p, s) page_id page = ((p1, s1), Ok e1)
    \<and> restore_page (p1, s1) page_id out = ((p2, s2), page, Ok e2)
    \<and> pr_initialized p2 \<and> kernel_store_ok s2"
  using assms by (rule kernel_store.reclaim_restore)

theorem pager_restores_reclaimed_witness:
  "\<exists>r st p1 s1 e1 p2 s2 e2.
     reclaim_page (\<lparr>pr_initialized = True, pr_stats = pr_stats pager_state_new\<rparr>, (r, st)) 9 pattern_page = ((p1, s1), Ok e1)
     \<and> restore_page (p1, s1) 9 (replicate PAGE_BYTES 0) = ((p2, s2), pattern_page, Ok e2)"
proof -
  have "pr_initialized \<lparr>pr_initialized = True, pr_stats = pr_stats pager_state_new\<rparr>"
    by simp
  from pager_restores_reclaimed [OF this kernel_store_ready [OF demo_store] length_smoke_pages(3) length_replicate, of 9]
  show ?thesis by blast
qed



end
