(* ===== verification/Sched.thy ===== *)
theory Sched
  imports Prelude
begin

text \<open>
  The scheduler, \<^verbatim>\<open>kernel/src/sched.rs\<close>, with the task contexts of
  \<^verbatim>\<open>kernel/src/arch/x86_64/context.rs\<close>.  The global \<^verbatim>\<open>SCHEDULER\<close> is a record passed to and
  returned by every operation; an array access out of range and an \<^verbatim>\<open>unwrap\<close> of nothing are
  \<open>Panic\<close>.  What the operations take from the machine is the record \<open>sched_env\<close>: the
  value of \<^verbatim>\<open>cr3\<close>, the addresses of the static stacks and the address-space copy of
  \<^verbatim>\<open>mm::vmm\<close>.  Calls of the registered hook are recorded in order in \<open>sc_hook_calls\<close>, the
  slot whose kernel stack the TSS points at is \<open>sc_tss_slot\<close>, and the return values written
  into saved trap frames are the map \<open>sc_frame_rax\<close>.
\<close>

section \<open>State\<close>

definition MAX_THREADS :: nat where "MAX_THREADS = 8"
definition MAX_PRIORITIES :: nat where "MAX_PRIORITIES = 64"
definition MAX_PROCESS_FDS :: nat where "MAX_PROCESS_FDS = 64"
definition KERNEL_STACK_SIZE :: u64 where "KERNEL_STACK_SIZE = 16 * 1024"
definition CONTEXT_KIND_KERNEL :: u64 where "CONTEXT_KIND_KERNEL = 0"
definition CONTEXT_KIND_USER :: u64 where "CONTEXT_KIND_USER = 1"

record task_context =
  tc_rsp :: u64
  tc_rbx :: u64
  tc_rbp :: u64
  tc_r12 :: u64
  tc_r13 :: u64
  tc_r14 :: u64
  tc_r15 :: u64
  tc_cr3 :: u64
  tc_kind :: u64
  tc_kernel_rsp0 :: u64

definition task_context_empty :: task_context where
  "task_context_empty =
     \<lparr>tc_rsp = 0, tc_rbx = 0, tc_rbp = 0, tc_r12 = 0, tc_r13 = 0, tc_r14 = 0, tc_r15 = 0,
      tc_cr3 = 0, tc_kind = CONTEXT_KIND_KERNEL, tc_kernel_rsp0 = 0\<rparr>"

definition stack_top :: "u64 \<Rightarrow> u64 \<Rightarrow> u64" where
  "stack_top stack_base len = (stack_base + len) AND NOT 15"

definition initialize_kernel_thread :: "task_context \<Rightarrow> u64 \<Rightarrow> u64 \<Rightarrow> task_context" where
  "initialize_kernel_thread context stack_base len =
     task_context_empty\<lparr>tc_rsp := stack_top stack_base len - 16, tc_cr3 := tc_cr3 context,
       tc_kind := CONTEXT_KIND_KERNEL\<rparr>"

definition initialize_user_thread :: "u64 \<Rightarrow> u64 \<Rightarrow> u64 \<Rightarrow> task_context" where
  "initialize_user_thread stack_base len page_table =
     task_context_empty\<lparr>tc_rsp := stack_top stack_base len - 160, tc_cr3 := page_table,
       tc_kind := CONTEXT_KIND_USER, tc_kernel_rsp0 := stack_top stack_base len\<rparr>"

datatype thread_role = RoleNone | Bootstrap | Idle | User
datatype thread_state = Unused | Runnable | Running | Blocked | Exited

fun role_str :: "thread_role \<Rightarrow> string" where
  "role_str RoleNone = ''none''"
| "role_str Bootstrap = ''bootstrap''"
| "role_str Idle = ''idle''"
| "role_str User = ''user''"

fun state_str :: "thread_state \<Rightarrow> string" where
  "state_str Unused = ''unused''"
| "state_str Runnable = ''runnable''"
| "state_str Running = ''running''"
| "state_str Blocked = ''blocked''"
| "state_str Exited = ''exited''"

record thread =
  th_id :: u64
  th_process_id :: u64
  th_parent_process_id :: u64
  th_thread_group_id :: u64
  th_name :: string
  th_role :: thread_role
  th_state :: thread_state
  th_base_priority :: u8
  th_total_ticks :: u64
  th_dispatch_count :: u64
  th_context :: task_context
  th_fd_table :: "nat option list"
  th_exit_status :: "32 word"

definition thread_empty :: thread where
  "thread_empty =
     \<lparr>th_id = 0, th_process_id = 0, th_parent_process_id = 0, th_thread_group_id = 0, th_name = '''',
      th_role = RoleNone, th_state = Unused, th_base_priority = 0, th_total_ticks = 0,
      th_dispatch_count = 0, th_context = task_context_empty,
      th_fd_table = replicate MAX_PROCESS_FDS None, th_exit_status = 0\<rparr>"

record process_identity =
  pi_process_id :: u64
  pi_parent_process_id :: u64
  pi_thread_group_id :: u64

datatype timer_error =
    Unsupported | X2ApicModeUnsupported | GlobalEnableMissing | MissingBaseAddress
  | PageTableAllocationFailed | TimerTimeout

datatype scheduler_error = Timer timer_error | Timeout | ThreadTableFull | RunQueueFull | MissingIdleThread

record scheduler =
  sc_hps_hook :: bool
  sc_initialized :: bool
  sc_next_thread_id :: u64
  sc_thread_count :: nat
  sc_threads :: "thread list"
  sc_runqueues :: "nat list list"
  sc_runqueue_depths :: "nat list"
  sc_runqueue_bitmap :: u64
  sc_current_slot :: "nat option"
  sc_context_switches :: u64
  sc_bootstrap_thread_id :: u64
  sc_idle_thread_id :: u64
  sc_hook_calls :: "(u64 \<times> bool) list"
  sc_tss_slot :: "nat option"
  sc_frame_rax :: "u64 \<rightharpoonup> u64"

definition scheduler_new :: scheduler where
  "scheduler_new =
     \<lparr>sc_hps_hook = False, sc_initialized = False, sc_next_thread_id = 1, sc_thread_count = 0,
      sc_threads = replicate MAX_THREADS thread_empty,
      sc_runqueues = replicate MAX_PRIORITIES (replicate MAX_THREADS 0),
      sc_runqueue_depths = replicate MAX_PRIORITIES 0, sc_runqueue_bitmap = 0,
      sc_current_slot = None, sc_context_switches = 0, sc_bootstrap_thread_id = 0,
      sc_idle_thread_id = 0, sc_hook_calls = [], sc_tss_slot = None, sc_frame_rax = Map.empty\<rparr>"

record sched_env =
  ev_cr3 :: u64
  ev_idle_stack :: u64
  ev_user_stacks :: u64
  ev_clone_space :: "u64 \<Rightarrow> u64"

type_synonym 'a checked = "(scheduler_error, 'a) outcome"

section \<open>Threads and run queues\<close>

definition thread_at :: "scheduler \<Rightarrow> nat \<Rightarrow> thread checked" where
  "thread_at s slot = index_at (sc_threads s) slot"

definition update_thread :: "scheduler \<Rightarrow> nat \<Rightarrow> (thread \<Rightarrow> thread) \<Rightarrow> scheduler checked" where
  "update_thread s slot f =
     and_then (thread_at s slot) (\<lambda>t. Ok (s\<lparr>sc_threads := (sc_threads s)[slot := f t]\<rparr>))"

text \<open>\<^verbatim>\<open>create_thread\<close>: the scheduler is changed only when there is room.\<close>

definition create_thread ::
  "sched_env \<Rightarrow> scheduler \<Rightarrow> string \<Rightarrow> thread_role \<Rightarrow> process_identity \<Rightarrow> (scheduler \<times> nat) checked" where
  "create_thread env s name role identity =
     (let slot = sc_thread_count s
      in if MAX_THREADS \<le> slot then Fail ThreadTableFull
         else
           let thread_id = sc_next_thread_id s;
               s = s\<lparr>sc_next_thread_id := sat_add (sc_next_thread_id s) 1\<rparr>;
               context = (if role \<noteq> User then task_context_empty\<lparr>tc_cr3 := ev_cr3 env\<rparr> else task_context_empty);
               t = \<lparr>th_id = thread_id, th_process_id = pi_process_id identity,
                    th_parent_process_id = pi_parent_process_id identity,
                    th_thread_group_id = pi_thread_group_id identity, th_name = name, th_role = role,
                    th_state = Runnable, th_base_priority = 0, th_total_ticks = 0, th_dispatch_count = 0,
                    th_context = context, th_fd_table = replicate MAX_PROCESS_FDS None,
                    th_exit_status = 0\<rparr>
           in and_then (set_at (sc_threads s) slot t) (\<lambda>threads.
              Ok (s\<lparr>sc_threads := threads, sc_thread_count := sc_thread_count s + 1\<rparr>, slot)))"

definition priority_for_thread :: "scheduler \<Rightarrow> nat \<Rightarrow> nat checked" where
  "priority_for_thread s slot =
     and_then (thread_at s slot) (\<lambda>t.
     Ok (if 63 < th_base_priority t then 63 else unat (th_base_priority t)))"

definition enqueue :: "scheduler \<Rightarrow> nat \<Rightarrow> scheduler checked" where
  "enqueue s slot =
     and_then (priority_for_thread s slot) (\<lambda>priority.
     and_then (index_at (sc_runqueue_depths s) priority) (\<lambda>depth.
     if MAX_THREADS \<le> depth then Fail RunQueueFull
     else
       and_then (index_at (sc_runqueues s) priority) (\<lambda>queue.
       and_then (set_at queue depth slot) (\<lambda>queue.
       and_then (set_at (sc_runqueues s) priority queue) (\<lambda>queues.
       and_then (set_at (sc_runqueue_depths s) priority (depth + 1)) (\<lambda>depths.
       Ok (s\<lparr>sc_runqueues := queues, sc_runqueue_depths := depths,
             sc_runqueue_bitmap := sc_runqueue_bitmap s OR push_bit priority 1\<rparr>)))))))"

text \<open>\<^verbatim>\<open>let _ = self.enqueue(slot)\<close>: a full queue is ignored, a panic is not.\<close>

definition enqueue_ignored :: "scheduler \<Rightarrow> nat \<Rightarrow> scheduler checked" where
  "enqueue_ignored s slot = (case enqueue s slot of Inl (Err _) \<Rightarrow> Ok s | r \<Rightarrow> r)"

text \<open>The loop that moves the entries behind a removed one up, \<^verbatim>\<open>q[i] = q[i + 1]\<close>.\<close>

function shift_up :: "nat list \<Rightarrow> nat \<Rightarrow> nat \<Rightarrow> nat list checked" where
  "shift_up queue i n =
     (if i < n then
        and_then (index_at queue (i + 1)) (\<lambda>v.
        and_then (set_at queue i v) (\<lambda>queue. shift_up queue (i + 1) n))
      else Ok queue)"
  by pat_completeness auto
termination
  by (relation "measure (\<lambda>(queue, i, n). n - i)") auto

declare shift_up.simps [simp del]

text \<open>Take the entry at \<open>idx\<close> out of a queue: shift, shorten, clear the bit of an empty queue.\<close>

definition remove_entry :: "scheduler \<Rightarrow> nat \<Rightarrow> nat \<Rightarrow> scheduler checked" where
  "remove_entry s priority idx =
     and_then (index_at (sc_runqueue_depths s) priority) (\<lambda>depth.
     and_then (index_at (sc_runqueues s) priority) (\<lambda>queue.
     and_then (shift_up queue idx (depth - 1)) (\<lambda>queue.
     and_then (set_at (sc_runqueues s) priority queue) (\<lambda>queues.
     and_then (set_at (sc_runqueue_depths s) priority (depth - 1)) (\<lambda>depths.
     let s = s\<lparr>sc_runqueues := queues, sc_runqueue_depths := depths\<rparr>
     in Ok (if depth - 1 = 0
            then s\<lparr>sc_runqueue_bitmap := sc_runqueue_bitmap s AND NOT (push_bit priority 1)\<rparr> else s))))))"

definition dequeue :: "scheduler \<Rightarrow> nat \<Rightarrow> (scheduler \<times> nat option) checked" where
  "dequeue s priority =
     and_then (index_at (sc_runqueue_depths s) priority) (\<lambda>depth.
     if depth = 0 then Ok (s, None)
     else
       and_then (index_at (sc_runqueues s) priority) (\<lambda>queue.
       and_then (index_at queue 0) (\<lambda>slot.
       and_then (remove_entry s priority 0) (\<lambda>s.
       Ok (s, Some slot)))))"

function find_queued :: "nat list \<Rightarrow> nat \<Rightarrow> nat \<Rightarrow> nat \<Rightarrow> nat option checked" where
  "find_queued queue slot i n =
     (if i < n then
        and_then (index_at queue i) (\<lambda>x.
        if x = slot then Ok (Some i) else find_queued queue slot (i + 1) n)
      else Ok None)"
  by pat_completeness auto
termination
  by (relation "measure (\<lambda>(queue, slot, i, n). n - i)") auto

declare find_queued.simps [simp del]

text \<open>The search-and-remove block shared by activation, restore and exit.\<close>

definition unqueue :: "scheduler \<Rightarrow> nat \<Rightarrow> scheduler checked" where
  "unqueue s slot =
     and_then (priority_for_thread s slot) (\<lambda>p.
     and_then (index_at (sc_runqueue_depths s) p) (\<lambda>depth.
     and_then (index_at (sc_runqueues s) p) (\<lambda>queue.
     and_then (find_queued queue slot 0 depth) (\<lambda>found.
     case found of None \<Rightarrow> Ok s | Some idx \<Rightarrow> remove_entry s p idx))))"

section \<open>Scheduling operations\<close>

record dispatch_decision =
  dd_current_thread_id :: u64
  dd_current_thread_name :: string
  dd_current_thread_role :: string
  dd_context_switches :: u64

definition dispatch_snapshot :: "scheduler \<Rightarrow> nat \<Rightarrow> dispatch_decision checked" where
  "dispatch_snapshot s slot =
     and_then (thread_at s slot) (\<lambda>t.
     Ok \<lparr>dd_current_thread_id = th_id t, dd_current_thread_name = th_name t,
         dd_current_thread_role = role_str (th_role t), dd_context_switches = sc_context_switches s\<rparr>)"

definition current_thread :: "scheduler \<Rightarrow> thread checked" where
  "current_thread s = (case sc_current_slot s of Some slot \<Rightarrow> thread_at s slot | None \<Rightarrow> Ok thread_empty)"

definition call_hook :: "scheduler \<Rightarrow> nat \<Rightarrow> scheduler checked" where
  "call_hook s slot =
     (if sc_hps_hook s then
        and_then (thread_at s slot) (\<lambda>t.
        Ok (s\<lparr>sc_hook_calls := sc_hook_calls s @ [(th_id t, th_role t = User)]\<rparr>))
      else Ok s)"

definition prepare_resume_slot :: "scheduler \<Rightarrow> nat \<Rightarrow> scheduler checked" where
  "prepare_resume_slot s slot =
     and_then (thread_at s slot) (\<lambda>t.
     Ok (if th_role t = User then s\<lparr>sc_tss_slot := Some slot\<rparr> else s))"

text \<open>The first step of every switch: a running thread goes back to its queue.\<close>

definition requeue_running :: "scheduler \<Rightarrow> nat \<Rightarrow> (thread \<Rightarrow> thread) \<Rightarrow> scheduler checked" where
  "requeue_running s slot f =
     and_then (thread_at s slot) (\<lambda>t.
     if th_state t = Running then
       and_then (update_thread s slot (\<lambda>t. (f t)\<lparr>th_state := Runnable\<rparr>)) (\<lambda>s. enqueue_ignored s slot)
     else Ok s)"

definition count_tick :: "thread \<Rightarrow> thread" where
  "count_tick t = t\<lparr>th_total_ticks := sat_add (th_total_ticks t) 1\<rparr>"

definition mark_dispatched :: "thread \<Rightarrow> thread" where
  "mark_dispatched t =
     t\<lparr>th_state := Running, th_dispatch_count := sat_add (th_dispatch_count t) 1\<rparr>"

definition tick_current :: "scheduler \<Rightarrow> scheduler checked" where
  "tick_current s =
     (case sc_current_slot s of
        None \<Rightarrow> Ok s
      | Some slot \<Rightarrow>
          and_then (thread_at s slot) (\<lambda>t.
          if th_state t = Running then requeue_running s slot count_tick
          else if th_state t = Blocked then update_thread s slot count_tick
          else Ok s))"

definition on_timer_tick :: "scheduler \<Rightarrow> (scheduler \<times> dispatch_decision option) checked" where
  "on_timer_tick s =
     (if \<not> sc_initialized s \<or> (sc_runqueue_bitmap s = 0 \<and> sc_current_slot s = None) then Ok (s, None)
      else
        and_then (tick_current s) (\<lambda>s.
        if sc_runqueue_bitmap s = 0 then Ok (s\<lparr>sc_current_slot := None\<rparr>, None)
        else
          let best_priority = trailing_zeros (sc_runqueue_bitmap s)
          in if MAX_PRIORITIES \<le> best_priority then Ok (s, None)
             else
               and_then (dequeue s best_priority) (\<lambda>(s, next).
               case next of
                 None \<Rightarrow> Ok (s, None)
               | Some next_slot \<Rightarrow>
                   let s = (if Some next_slot \<noteq> sc_current_slot s
                            then s\<lparr>sc_context_switches := sat_add (sc_context_switches s) 1\<rparr> else s);
                       s = s\<lparr>sc_current_slot := Some next_slot\<rparr>
                   in and_then (update_thread s next_slot mark_dispatched) (\<lambda>s.
                      and_then (call_hook s next_slot) (\<lambda>s.
                      and_then (dispatch_snapshot s next_slot) (\<lambda>d. Ok (s, Some d))))))) "

text \<open>The searches of the slots below \<^verbatim>\<open>thread_count\<close>, each read with a bounds check.\<close>

fun find_thread :: "scheduler \<Rightarrow> (thread \<Rightarrow> bool) \<Rightarrow> nat list \<Rightarrow> nat option checked" where
  "find_thread s P [] = Ok None"
| "find_thread s P (slot # slots) =
     and_then (thread_at s slot) (\<lambda>t. if P t then Ok (Some slot) else find_thread s P slots)"

definition first_runnable_user_slot :: "scheduler \<Rightarrow> nat option checked" where
  "first_runnable_user_slot s =
     find_thread s (\<lambda>t. th_role t = User \<and> th_state t \<noteq> Exited) [0 ..< sc_thread_count s]"

definition idle_slot :: "scheduler \<Rightarrow> nat option checked" where
  "idle_slot s = find_thread s (\<lambda>t. th_id t = sc_idle_thread_id s) [0 ..< sc_thread_count s]"

definition bootstrap_slot :: "scheduler \<Rightarrow> nat option checked" where
  "bootstrap_slot s = find_thread s (\<lambda>t. th_id t = sc_bootstrap_thread_id s) [0 ..< sc_thread_count s]"

fun requeue_all_running :: "scheduler \<Rightarrow> nat list \<Rightarrow> scheduler checked" where
  "requeue_all_running s [] = Ok s"
| "requeue_all_running s (slot # slots) =
     and_then (requeue_running s slot id) (\<lambda>s. requeue_all_running s slots)"

definition restore_bootstrap_as_current :: "scheduler \<Rightarrow> scheduler checked" where
  "restore_bootstrap_as_current s =
     and_then (bootstrap_slot s) (\<lambda>found.
     case found of
        None \<Rightarrow> Ok s
      | Some slot \<Rightarrow>
          and_then (requeue_all_running s [0 ..< sc_thread_count s]) (\<lambda>s.
          and_then (unqueue s slot) (\<lambda>s.
          and_then (update_thread s slot mark_dispatched) (\<lambda>s.
          Ok (s\<lparr>sc_current_slot := Some slot\<rparr>)))))"

definition activate_thread_slot :: "scheduler \<Rightarrow> nat \<Rightarrow> scheduler checked" where
  "activate_thread_slot s target_slot =
     (if \<not> sc_initialized s \<or> sc_thread_count s \<le> target_slot then Fail MissingIdleThread
      else if sc_current_slot s = Some target_slot then Ok s
      else
        and_then (case sc_current_slot s of None \<Rightarrow> Ok s | Some slot \<Rightarrow> requeue_running s slot id) (\<lambda>s.
        and_then (unqueue s target_slot) (\<lambda>s.
        and_then (update_thread (s\<lparr>sc_current_slot := Some target_slot\<rparr>) target_slot
          (\<lambda>t. t\<lparr>th_state := Running\<rparr>)) (\<lambda>s.
        Ok (s\<lparr>sc_context_switches := sat_add (sc_context_switches s) 1\<rparr>)))))"

definition next_switch_index :: "scheduler \<Rightarrow> nat option checked" where
  "next_switch_index s =
     (if \<not> sc_initialized s \<or> sc_runqueue_bitmap s = 0 then Ok None
      else
        let best_p = trailing_zeros (sc_runqueue_bitmap s)
        in if MAX_PRIORITIES \<le> best_p then Ok None
           else
             and_then (index_at (sc_runqueue_depths s) best_p) (\<lambda>depth.
             if 0 < depth then
               and_then (index_at (sc_runqueues s) best_p) (\<lambda>queue.
               and_then (index_at queue 0) (\<lambda>next_slot.
               Ok (if Some next_slot \<noteq> sc_current_slot s then Some next_slot else None)))
             else Ok None))"

text \<open>
  The two contexts of a switch are returned as the slots they belong to; \<^verbatim>\<open>split_at_mut\<close> at the
  larger one reaches both exactly when they are different slots of the table.
\<close>

definition split_pair :: "scheduler \<Rightarrow> nat \<Rightarrow> nat \<Rightarrow> (nat \<times> nat) checked" where
  "split_pair s current_slot next_slot =
     (if current_slot \<noteq> next_slot \<and> max current_slot next_slot < length (sc_threads s)
      then Ok (current_slot, next_slot) else Abort)"

definition context_switch_pair ::
  "scheduler \<Rightarrow> (scheduler \<times> (nat \<times> nat \<times> dispatch_decision) option) checked" where
  "context_switch_pair s =
     (case sc_current_slot s of
        None \<Rightarrow> Ok (s, None)
      | Some current_slot \<Rightarrow>
          and_then (next_switch_index s) (\<lambda>next.
          case next of
            None \<Rightarrow> Ok (s, None)
          | Some next_slot \<Rightarrow>
              and_then (requeue_running s current_slot id) (\<lambda>s.
              and_then (priority_for_thread s next_slot) (\<lambda>best_p.
              and_then (dequeue s best_p) (\<lambda>(s, got).
              case got of
                None \<Rightarrow> Ok (s, None)
              | Some dequeued_slot \<Rightarrow>
                  let s = s\<lparr>sc_current_slot := Some dequeued_slot\<rparr>
                  in and_then (update_thread s dequeued_slot mark_dispatched) (\<lambda>s.
                     let s = s\<lparr>sc_context_switches := sat_add (sc_context_switches s) 1\<rparr>
                     in and_then (prepare_resume_slot s dequeued_slot) (\<lambda>s.
                        and_then (dispatch_snapshot s dequeued_slot) (\<lambda>d.
                        and_then (split_pair s current_slot dequeued_slot) (\<lambda>(current, next).
                        Ok (s, Some (current, next, d)))))))))))"

section \<open>Life cycle\<close>

record exit_group_record =
  eg_status :: "32 word"
  eg_exited_thread_id :: u64
  eg_exited_thread_name :: string
  eg_exited_process_id :: u64
  eg_exited_thread_count :: nat
  eg_next_thread_id :: u64
  eg_next_thread_name :: string
  eg_next_process_id :: u64
  eg_runqueue_depth :: nat

record scheduler_stats =
  sx_thread_count :: nat
  sx_runqueue_depth :: nat
  sx_current_thread_id :: u64
  sx_current_process_id :: u64
  sx_current_parent_process_id :: u64
  sx_current_thread_name :: string
  sx_current_thread_role :: string
  sx_current_thread_state :: string
  sx_total_ticks :: u64
  sx_context_switches :: u64
  sx_bootstrap_thread_id :: u64
  sx_idle_thread_id :: u64

definition sched_stats :: "scheduler \<Rightarrow> u64 \<Rightarrow> scheduler_stats checked" where
  "sched_stats s total_ticks =
     and_then (current_thread s) (\<lambda>t.
     Ok \<lparr>sx_thread_count = sc_thread_count s, sx_runqueue_depth = sum_list (sc_runqueue_depths s),
         sx_current_thread_id = th_id t, sx_current_process_id = th_process_id t,
         sx_current_parent_process_id = th_parent_process_id t, sx_current_thread_name = th_name t,
         sx_current_thread_role = role_str (th_role t), sx_current_thread_state = state_str (th_state t),
         sx_total_ticks = total_ticks, sx_context_switches = sc_context_switches s,
         sx_bootstrap_thread_id = sc_bootstrap_thread_id s, sx_idle_thread_id = sc_idle_thread_id s\<rparr>)"

text \<open>The loop over the group: every live thread of it is marked exited and taken off its queue.\<close>

fun exit_loop :: "scheduler \<Rightarrow> u64 \<Rightarrow> nat list \<Rightarrow> nat \<Rightarrow> (scheduler \<times> nat) checked" where
  "exit_loop s gid [] n = Ok (s, n)"
| "exit_loop s gid (slot # slots) n =
     and_then (thread_at s slot) (\<lambda>t.
     if th_thread_group_id t = gid \<and> th_state t \<noteq> Exited then
       and_then (update_thread s slot (\<lambda>t. t\<lparr>th_state := Exited\<rparr>)) (\<lambda>s.
       and_then (unqueue s slot) (\<lambda>s. exit_loop s gid slots (n + 1)))
     else exit_loop s gid slots n)"

definition request_exit_group ::
  "scheduler \<Rightarrow> 32 word \<Rightarrow> (scheduler \<times> exit_group_record option) checked" where
  "request_exit_group s status =
     (if \<not> sc_initialized s then Ok (s, None)
      else case sc_current_slot s of
        None \<Rightarrow> Ok (s, None)
      | Some current_slot \<Rightarrow>
          and_then (thread_at s current_slot) (\<lambda>current.
          if th_state current = Exited \<or> th_thread_group_id current = 0 then Ok (s, None)
          else
            and_then (exit_loop s (th_thread_group_id current) [0 ..< sc_thread_count s] 0) (\<lambda>(s, n).
            and_then (case sc_current_slot s of
                        None \<Rightarrow> Ok s
                      | Some slot \<Rightarrow> and_then (thread_at s slot) (\<lambda>t.
                          Ok (if th_thread_group_id t = th_thread_group_id current
                              then s\<lparr>sc_current_slot := None\<rparr> else s))) (\<lambda>s.
            and_then
              (if sc_runqueue_bitmap s \<noteq> 0 then
                 and_then (dequeue s (trailing_zeros (sc_runqueue_bitmap s))) (\<lambda>(s, got).
                 case got of
                   None \<Rightarrow> Abort
                 | Some next_slot \<Rightarrow>
                     and_then (update_thread (s\<lparr>sc_current_slot := Some next_slot\<rparr>) next_slot
                       (\<lambda>t. t\<lparr>th_state := Running\<rparr>)) (\<lambda>s.
                     and_then (thread_at s next_slot) (\<lambda>t.
                     Ok (s\<lparr>sc_context_switches := sat_add (sc_context_switches s) 1\<rparr>,
                         th_id t, th_name t, th_process_id t))))
               else Ok (s, 0, ''<none>'', 0)) (\<lambda>(s, next_id, next_name, next_pid).
            Ok (s, Some \<lparr>eg_status = status, eg_exited_thread_id = th_id current,
                         eg_exited_thread_name = th_name current,
                         eg_exited_process_id = th_process_id current, eg_exited_thread_count = n,
                         eg_next_thread_id = next_id, eg_next_thread_name = next_name,
                         eg_next_process_id = next_pid,
                         eg_runqueue_depth = sum_list (sc_runqueue_depths s)\<rparr>))))))"

text \<open>The context to resume is returned as its slot.\<close>

definition yield_current_user_thread :: "scheduler \<Rightarrow> u64 \<Rightarrow> (scheduler \<times> nat option) checked" where
  "yield_current_user_thread s saved_user_rsp =
     (if \<not> sc_initialized s then Ok (s, None)
      else case sc_current_slot s of
        None \<Rightarrow> Ok (s, None)
      | Some current_slot \<Rightarrow>
          and_then (thread_at s current_slot) (\<lambda>t.
          if th_role t \<noteq> User \<or> th_state t = Exited then Ok (s, None)
          else
            and_then (update_thread s current_slot
              (\<lambda>t. t\<lparr>th_context := (th_context t)\<lparr>tc_rsp := saved_user_rsp\<rparr>\<rparr>)) (\<lambda>s.
            and_then (requeue_running s current_slot id) (\<lambda>s.
            let best_p = trailing_zeros (sc_runqueue_bitmap s)
            in if MAX_PRIORITIES \<le> best_p then Ok (s, None)
               else
                 and_then (dequeue s best_p) (\<lambda>(s, got).
                 case got of
                   None \<Rightarrow> Abort
                 | Some next_slot \<Rightarrow>
                     if next_slot = current_slot then
                       and_then (update_thread s current_slot (\<lambda>t. t\<lparr>th_state := Running\<rparr>)) (\<lambda>s. Ok (s, None))
                     else
                       and_then (update_thread (s\<lparr>sc_current_slot := Some next_slot\<rparr>) next_slot mark_dispatched) (\<lambda>s.
                       and_then (call_hook s next_slot) (\<lambda>s.
                       and_then (prepare_resume_slot
                         (s\<lparr>sc_context_switches := sat_add (sc_context_switches s) 1\<rparr>) next_slot) (\<lambda>s.
                       Ok (s, Some next_slot))))))))) "

definition current_context_ptr_for_resume :: "scheduler \<Rightarrow> (scheduler \<times> nat option) checked" where
  "current_context_ptr_for_resume s =
     (if \<not> sc_initialized s then Ok (s, None)
      else case sc_current_slot s of
        None \<Rightarrow> Ok (s, None)
      | Some slot \<Rightarrow> and_then (prepare_resume_slot s slot) (\<lambda>s. Ok (s, Some slot)))"

definition get_fd_table :: "scheduler \<Rightarrow> nat option list checked" where
  "get_fd_table s =
     (case sc_current_slot s of
        Some slot \<Rightarrow> and_then (thread_at s slot) (\<lambda>t. Ok (th_fd_table t))
      | None \<Rightarrow> Ok (replicate MAX_PROCESS_FDS None))"

definition set_fd_table :: "scheduler \<Rightarrow> nat option list \<Rightarrow> scheduler checked" where
  "set_fd_table s tbl =
     (case sc_current_slot s of
        Some slot \<Rightarrow> update_thread s slot (\<lambda>t. t\<lparr>th_fd_table := tbl\<rparr>)
      | None \<Rightarrow> Ok s)"

text \<open>
  \<^verbatim>\<open>fork_current_thread\<close> changes the scheduler before it can fail, so the scheduler is returned
  in either case.
\<close>

definition fork_child :: "thread \<Rightarrow> u64 \<Rightarrow> u64 \<Rightarrow> thread" where
  "fork_child parent child_id new_cr3 =
     thread_empty\<lparr>th_id := child_id, th_process_id := child_id,
       th_parent_process_id := th_process_id parent, th_thread_group_id := child_id,
       th_name := th_name parent, th_role := th_role parent, th_state := Runnable,
       th_base_priority := th_base_priority parent, th_fd_table := th_fd_table parent,
       th_context := (th_context parent)\<lparr>tc_cr3 := new_cr3\<rparr>\<rparr>"

definition fork_current_thread :: "sched_env \<Rightarrow> scheduler \<Rightarrow> scheduler \<times> u64 checked" where
  "fork_current_thread env s =
     (case sc_current_slot s of
        None \<Rightarrow> (s, Fail ThreadTableFull)
      | Some parent_slot \<Rightarrow>
          if \<not> sc_initialized s then (s, Fail ThreadTableFull)
          else case find_index (\<lambda>t. th_state t = Unused) (sc_threads s) of
            None \<Rightarrow> (s, Fail ThreadTableFull)
          | Some child_slot \<Rightarrow>
              let child_id = sc_next_thread_id s;
                  s = s\<lparr>sc_next_thread_id := sat_add (sc_next_thread_id s) 1,
                        sc_thread_count := sc_thread_count s + 1\<rparr>;
                  new_cr3 = ev_clone_space env (ev_cr3 env)
              in if new_cr3 = 0 then (s, Fail ThreadTableFull)
                 else case
                   and_then (thread_at s parent_slot) (\<lambda>parent.
                   and_then (set_at (sc_threads s) child_slot (fork_child parent child_id new_cr3)) (\<lambda>threads.
                   enqueue_ignored (s\<lparr>sc_threads := threads\<rparr>) child_slot))
                 of Inl e \<Rightarrow> (s, Inl e)
                  | Inr s' \<Rightarrow> (s', Ok child_id))"

text \<open>
  \<^verbatim>\<open>reap_child\<close> over the slots \<open>i, i + 1, \<dots>\<close>; the Boolean on the left is the \<^verbatim>\<open>Err\<close> value
  \<^verbatim>\<open>has_children\<close>.
\<close>

fun reap_loop ::
  "scheduler \<Rightarrow> u64 \<Rightarrow> int \<Rightarrow> nat list \<Rightarrow> bool \<Rightarrow> (scheduler \<times> (bool + (u64 \<times> 32 word))) checked" where
  "reap_loop s parent_pid target_pid [] has_children = Ok (s, Inl has_children)"
| "reap_loop s parent_pid target_pid (i # is) has_children =
     and_then (thread_at s i) (\<lambda>t.
     if th_parent_process_id t = parent_pid \<and> (target_pid = -1 \<or> sint (th_id t) = target_pid) then
       if th_state t = Exited then
         and_then (update_thread s i (\<lambda>t. t\<lparr>th_state := Unused\<rparr>)) (\<lambda>s.
         Ok (s\<lparr>sc_thread_count := (if sc_thread_count s = 0 then usize_max else sc_thread_count s - 1)\<rparr>, Inr (th_id t, th_exit_status t)))
       else reap_loop s parent_pid target_pid is True
     else reap_loop s parent_pid target_pid is has_children)"

definition reap_child ::
  "scheduler \<Rightarrow> u64 \<Rightarrow> int \<Rightarrow> (scheduler \<times> (bool + (u64 \<times> 32 word))) checked" where
  "reap_child s parent_pid target_pid = reap_loop s parent_pid target_pid [0 ..< MAX_THREADS] False"

definition block_current_thread :: "scheduler \<Rightarrow> scheduler checked" where
  "block_current_thread s =
     (case sc_current_slot s of
        None \<Rightarrow> Ok s
      | Some slot \<Rightarrow>
          and_then (thread_at s slot) (\<lambda>t.
          if th_state t = Running then update_thread s slot (\<lambda>t. t\<lparr>th_state := Blocked\<rparr>) else Ok s))"

fun unblock_loop ::
  "scheduler \<Rightarrow> u64 \<Rightarrow> u64 \<Rightarrow> u64 \<Rightarrow> nat list \<Rightarrow> (scheduler \<times> bool) checked" where
  "unblock_loop s target_pid target_tid result [] = Ok (s, False)"
| "unblock_loop s target_pid target_tid result (i # is) =
     and_then (thread_at s i) (\<lambda>t.
     if th_process_id t = target_pid \<and> th_id t = target_tid \<and> th_state t = Blocked then
       and_then (update_thread
         (s\<lparr>sc_frame_rax := (sc_frame_rax s)(tc_rsp (th_context t) \<mapsto> result)\<rparr>) i
         (\<lambda>t. t\<lparr>th_state := Runnable\<rparr>)) (\<lambda>s.
       and_then (enqueue_ignored s i) (\<lambda>s. Ok (s, True)))
     else unblock_loop s target_pid target_tid result is)"

text \<open>\<^verbatim>\<open>Ok(())\<close> is \<open>True\<close> and \<^verbatim>\<open>Err(())\<close> is \<open>False\<close>.\<close>

definition unblock_thread_with_result ::
  "scheduler \<Rightarrow> u64 \<Rightarrow> u64 \<Rightarrow> u64 \<Rightarrow> (scheduler \<times> bool) checked" where
  "unblock_thread_with_result s target_pid target_tid result =
     unblock_loop s target_pid target_tid result [0 ..< MAX_THREADS]"

definition create_user_thread ::
  "sched_env \<Rightarrow> scheduler \<Rightarrow> u64 \<Rightarrow> scheduler \<times> (u64 \<times> u64) checked" where
  "create_user_thread env s page_table =
     (if \<not> sc_initialized s then (s, Fail MissingIdleThread)
      else case create_thread env s ''user-init'' User
          \<lparr>pi_process_id = sc_next_thread_id s, pi_parent_process_id = 0,
           pi_thread_group_id = sc_next_thread_id s\<rparr> of
        Inl e \<Rightarrow> (s, Inl e)
      | Inr (s1, slot) \<Rightarrow>
          (case update_thread s1 slot (\<lambda>t. t\<lparr>th_context := initialize_user_thread
                  (ev_user_stacks env + of_nat slot * KERNEL_STACK_SIZE) KERNEL_STACK_SIZE page_table\<rparr>) of
             Inl e \<Rightarrow> (s1, Inl e)
           | Inr s2 \<Rightarrow>
               (case enqueue s2 slot of
                  Inl e \<Rightarrow> (s2, Inl e)
                | Inr s3 \<Rightarrow>
                    (s3, and_then (thread_at s3 slot) (\<lambda>t. Ok (th_id t, th_process_id t))))))"

definition initialize_bootstrap_threads :: "sched_env \<Rightarrow> scheduler \<Rightarrow> scheduler checked" where
  "initialize_bootstrap_threads env s =
     (let s = scheduler_new
      in and_then (create_thread env s ''kernel-bootstrap'' Bootstrap
           \<lparr>pi_process_id = 1, pi_parent_process_id = 0, pi_thread_group_id = 1\<rparr>) (\<lambda>(s, boot).
         and_then (create_thread env s ''kernel-idle'' Idle
           \<lparr>pi_process_id = 0, pi_parent_process_id = 0, pi_thread_group_id = 0\<rparr>) (\<lambda>(s, idle).
         and_then (enqueue s boot) (\<lambda>s.
         and_then (enqueue s idle) (\<lambda>s.
         and_then (update_thread s boot (\<lambda>t. t\<lparr>th_state := Running, th_dispatch_count := 1\<rparr>)) (\<lambda>s.
         and_then (update_thread s idle (\<lambda>t. t\<lparr>th_state := Runnable,
           th_context := initialize_kernel_thread (th_context t) (ev_idle_stack env) KERNEL_STACK_SIZE\<rparr>)) (\<lambda>s.
         and_then (thread_at s boot) (\<lambda>bt.
         and_then (thread_at s idle) (\<lambda>it.
         Ok (s\<lparr>sc_initialized := True, sc_bootstrap_thread_id := th_id bt,
               sc_idle_thread_id := th_id it\<rparr>))))))))))"

definition initial_context_pair :: "scheduler \<Rightarrow> (scheduler \<times> nat \<times> nat) checked" where
  "initial_context_pair s =
     and_then (bootstrap_slot s) (\<lambda>found.
     and_then (ok_or found MissingIdleThread) (\<lambda>boot.
     and_then (update_thread s boot (\<lambda>t. t\<lparr>th_state := Exited\<rparr>)) (\<lambda>s.
     and_then (first_runnable_user_slot s) (\<lambda>user.
     and_then (case user of Some u \<Rightarrow> Ok (Some u) | None \<Rightarrow> idle_slot s) (\<lambda>target.
     and_then (ok_or target MissingIdleThread) (\<lambda>target.
     and_then (activate_thread_slot s target) (\<lambda>s.
     and_then (prepare_resume_slot s target) (\<lambda>s.
     and_then (split_pair s boot target) (\<lambda>(current, next).
     Ok (s, current, next))))))))))"

section \<open>The interrupt and idle entry points\<close>

text \<open>
  The flags and counters beside the scheduler.  A switch that \<^verbatim>\<open>run_idle_cycle\<close> performs is
  recorded as the pair of slots in \<open>sg_switches\<close>, a call of the poll hook in \<open>sg_polls\<close>.
\<close>

definition BOOTSTRAP_TARGET_TICKS :: u64 where "BOOTSTRAP_TARGET_TICKS = 3"

record sched_globals =
  sg_bootstrap_active :: bool
  sg_ready :: bool
  sg_ticks :: u64
  sg_need_reschedule :: bool
  sg_poll_hook :: bool
  sg_polls :: nat
  sg_switches :: "(nat \<times> nat) list"
  sg_sched :: scheduler

definition on_timer_interrupt :: "sched_globals \<Rightarrow> sched_globals checked" where
  "on_timer_interrupt g =
     (if \<not> sg_bootstrap_active g \<and> \<not> sg_ready g then Ok g
      else
        let g = g\<lparr>sg_ticks := sg_ticks g + 1\<rparr>
        in if \<not> sg_bootstrap_active g then
             and_then (next_switch_index (sg_sched g)) (\<lambda>next.
             Ok (if next \<noteq> None then g\<lparr>sg_need_reschedule := True\<rparr> else g))
           else and_then (on_timer_tick (sg_sched g)) (\<lambda>(s, d). Ok (g\<lparr>sg_sched := s\<rparr>)))"

definition sched_yield_switch :: "sched_globals \<Rightarrow> sched_globals checked" where
  "sched_yield_switch g =
     and_then (next_switch_index (sg_sched g)) (\<lambda>next.
     Ok (if next \<noteq> None then g\<lparr>sg_need_reschedule := True\<rparr> else g))"

definition poll_hook :: "sched_globals \<Rightarrow> sched_globals" where
  "poll_hook g = (if sg_poll_hook g then g\<lparr>sg_polls := sg_polls g + 1\<rparr> else g)"

definition run_idle_cycle :: "sched_globals \<Rightarrow> sched_globals checked" where
  "run_idle_cycle g =
     (if \<not> sg_need_reschedule g then Ok g
      else
        let g = g\<lparr>sg_need_reschedule := False\<rparr>
        in and_then (context_switch_pair (sg_sched g)) (\<lambda>(s, got).
           let g = g\<lparr>sg_sched := s\<rparr>
           in case got of
                None \<Rightarrow> Ok g
              | Some (current, next, d) \<Rightarrow>
                  Ok ((poll_hook g)\<lparr>sg_switches := sg_switches g @ [(current, next)]\<rparr>)))"

definition sys_exit_group ::
  "sched_globals \<Rightarrow> 32 word \<Rightarrow> (sched_globals \<times> exit_group_record option) checked" where
  "sys_exit_group g status =
     and_then (request_exit_group (sg_sched g) status) (\<lambda>(s, r).
     Ok (poll_hook (g\<lparr>sg_sched := s\<rparr>), r))"

definition register_hps_bridge :: "scheduler \<Rightarrow> scheduler" where
  "register_hps_bridge s = s\<lparr>sc_hps_hook := True\<rparr>"

definition current_process_id :: "scheduler \<Rightarrow> u64 checked" where
  "current_process_id s =
     (case sc_current_slot s of Some slot \<Rightarrow> and_then (thread_at s slot) (\<lambda>t. Ok (th_process_id t)) | None \<Rightarrow> Ok 0)"

definition current_thread_id :: "scheduler \<Rightarrow> u64 checked" where
  "current_thread_id s =
     (case sc_current_slot s of Some slot \<Rightarrow> and_then (thread_at s slot) (\<lambda>t. Ok (th_id t)) | None \<Rightarrow> Ok 0)"

definition current_parent_process_id :: "scheduler \<Rightarrow> u64 checked" where
  "current_parent_process_id s =
     (case sc_current_slot s of
        Some slot \<Rightarrow> and_then (thread_at s slot) (\<lambda>t. Ok (th_parent_process_id t)) | None \<Rightarrow> Ok 0)"

end
