(* ===== verification/SchedInv.thy ===== *)
theory SchedInv
  imports Sched
begin

text \<open>
  Correctness of the scheduler of theory \<open>Sched\<close>.  The run queues are seen as lists,
  \<open>queue s p\<close>; enqueue, dequeue and the search-and-remove block are shown to be append, head
  removal and \<open>remove1\<close> on them.  On top of that: the table invariant, which every operation keeps;
  and the stronger invariant \<open>tidy\<close> of the runs in which no child is reaped, where the queued
  threads are exactly the runnable ones.
\<close>

section \<open>The run queues as lists\<close>

definition queue :: "scheduler \<Rightarrow> nat \<Rightarrow> nat list" where
  "queue s p = (if p < MAX_PRIORITIES then take (sc_runqueue_depths s ! p) (sc_runqueues s ! p) else [])"

definition prio :: "scheduler \<Rightarrow> nat \<Rightarrow> nat" where
  "prio s slot =
     (if 63 < th_base_priority (sc_threads s ! slot) then 63 else unat (th_base_priority (sc_threads s ! slot)))"

definition queues_wf :: "scheduler \<Rightarrow> bool" where
  "queues_wf s \<longleftrightarrow>
     length (sc_threads s) = MAX_THREADS \<and> length (sc_runqueues s) = MAX_PRIORITIES \<and>
     length (sc_runqueue_depths s) = MAX_PRIORITIES \<and>
     (\<forall>p < MAX_PRIORITIES. length (sc_runqueues s ! p) = MAX_THREADS \<and>
        sc_runqueue_depths s ! p \<le> MAX_THREADS \<and>
        bit (sc_runqueue_bitmap s) p = (queue s p \<noteq> [])) \<and>
     (\<forall>p x. x \<in> set (queue s p) \<longrightarrow> x < MAX_THREADS \<and> prio s x = p)"

text \<open>\<open>requeued s q s'\<close>: only the queues differ, and they are now \<open>q\<close>.\<close>

definition requeued :: "scheduler \<Rightarrow> (nat \<Rightarrow> nat list) \<Rightarrow> scheduler \<Rightarrow> bool" where
  "requeued s q s' \<longleftrightarrow>
     (\<exists>qs ds b. s' = s\<lparr>sc_runqueues := qs, sc_runqueue_depths := ds, sc_runqueue_bitmap := b\<rparr>) \<and>
     queue s' = q \<and> queues_wf s'"

lemmas sched_bounds = MAX_THREADS_def MAX_PRIORITIES_def

lemma requeued_same:
  assumes "requeued s q s'"
  shows "sc_threads s' = sc_threads s" "sc_current_slot s' = sc_current_slot s"
    "sc_initialized s' = sc_initialized s" "sc_thread_count s' = sc_thread_count s"
    "sc_next_thread_id s' = sc_next_thread_id s" "sc_bootstrap_thread_id s' = sc_bootstrap_thread_id s"
    "sc_idle_thread_id s' = sc_idle_thread_id s" "sc_hps_hook s' = sc_hps_hook s"
    "sc_context_switches s' = sc_context_switches s" "sc_hook_calls s' = sc_hook_calls s"
    "sc_tss_slot s' = sc_tss_slot s" "sc_frame_rax s' = sc_frame_rax s"
proof -
  from assms obtain qs ds b
    where "s' = s\<lparr>sc_runqueues := qs, sc_runqueue_depths := ds, sc_runqueue_bitmap := b\<rparr>"
    unfolding requeued_def by blast
  then show "sc_threads s' = sc_threads s" "sc_current_slot s' = sc_current_slot s"
    "sc_initialized s' = sc_initialized s" "sc_thread_count s' = sc_thread_count s"
    "sc_next_thread_id s' = sc_next_thread_id s" "sc_bootstrap_thread_id s' = sc_bootstrap_thread_id s"
    "sc_idle_thread_id s' = sc_idle_thread_id s" "sc_hps_hook s' = sc_hps_hook s"
    "sc_context_switches s' = sc_context_switches s" "sc_hook_calls s' = sc_hook_calls s"
    "sc_tss_slot s' = sc_tss_slot s" "sc_frame_rax s' = sc_frame_rax s"
    by simp_all
qed

lemma requeuedD: "requeued s q s' \<Longrightarrow> queue s' = q" "requeued s q s' \<Longrightarrow> queues_wf s'"
  by (simp_all add: requeued_def)

lemma prio_less [simp]: "prio s slot < MAX_PRIORITIES"
  by (simp add: prio_def sched_bounds word_less_nat_alt)

lemma length_queue: "queues_wf s \<Longrightarrow> p < MAX_PRIORITIES \<Longrightarrow> length (queue s p) = sc_runqueue_depths s ! p"
  by (simp add: queues_wf_def queue_def)

lemma length_queue_le: "queues_wf s \<Longrightarrow> length (queue s p) \<le> MAX_THREADS"
  by (cases "p < MAX_PRIORITIES") (simp_all add: queues_wf_def queue_def)

lemma queue_mem:
  assumes "queues_wf s" and "x \<in> set (queue s p)"
  shows "x < MAX_THREADS" and "prio s x = p" and "p < MAX_PRIORITIES"
  using assms by (auto simp: queues_wf_def queue_def split: if_splits)

lemma thread_at_ok [simp]: "queues_wf s \<Longrightarrow> slot < MAX_THREADS \<Longrightarrow> thread_at s slot = Ok (sc_threads s ! slot)"
  by (simp add: thread_at_def queues_wf_def)

lemma priority_ok [simp]:
  "queues_wf s \<Longrightarrow> slot < MAX_THREADS \<Longrightarrow> priority_for_thread s slot = Ok (prio s slot)"
  by (simp add: priority_for_thread_def prio_def)


subsection \<open>Enqueue appends\<close>

lemma bit_set_priority: "bit (b OR 2 ^ p :: u64) i = (bit b i \<or> (i = p \<and> i < 64))"
  by (auto simp: bit_simps)

lemma bit_clear_priority: "i < 64 \<Longrightarrow> bit (b AND NOT (2 ^ p) :: u64) i = (bit b i \<and> i \<noteq> p)"
  by (auto simp: bit_simps)

text \<open>Replacing the array, depth and bit of one priority replaces one list.\<close>

lemma requeuedI:
  assumes wf: "queues_wf s" and p: "p < MAX_PRIORITIES"
    and q: "length q = MAX_THREADS" "d \<le> MAX_THREADS"
    and bits: "\<And>i. i < MAX_PRIORITIES \<Longrightarrow> bit b i = (if i = p then d \<noteq> 0 else bit (sc_runqueue_bitmap s) i)"
    and mem: "\<And>x. x \<in> set (take d q) \<Longrightarrow> x < MAX_THREADS \<and> prio s x = p"
  shows "requeued s ((queue s)(p := take d q))
    (s\<lparr>sc_runqueues := (sc_runqueues s)[p := q], sc_runqueue_depths := (sc_runqueue_depths s)[p := d],
       sc_runqueue_bitmap := b\<rparr>)" (is "requeued s ?q ?s'")
proof -
  have queue: "queue ?s' = ?q"
    using wf p by (auto simp: queue_def queues_wf_def nth_list_update fun_eq_iff)
  have prio: "prio ?s' x = prio s x" for x
    by (simp add: prio_def)
  have nonempty: "take d q \<noteq> [] \<longleftrightarrow> d \<noteq> 0"
    using q by (auto simp: sched_bounds)
  have "\<forall>i < MAX_PRIORITIES. length (sc_runqueues ?s' ! i) = MAX_THREADS \<and>
      sc_runqueue_depths ?s' ! i \<le> MAX_THREADS \<and> bit (sc_runqueue_bitmap ?s') i = (?q i \<noteq> [])"
    using wf p q bits nonempty by (simp add: queues_wf_def nth_list_update)
  moreover have "\<forall>i x. x \<in> set (?q i) \<longrightarrow> x < MAX_THREADS \<and> prio s x = i"
    using wf mem by (simp add: queues_wf_def)
  ultimately have "queues_wf ?s'"
    unfolding queues_wf_def queue prio using wf by (simp add: queues_wf_def)
  then show ?thesis
    unfolding requeued_def queue by blast
qed

lemma enqueue_full:
  assumes "queues_wf s" "slot < MAX_THREADS" "length (queue s (prio s slot)) = MAX_THREADS"
  shows "enqueue s slot = Fail RunQueueFull"
  using assms by (simp add: enqueue_def length_queue queues_wf_def)

lemma enqueue_appends:
  assumes wf: "queues_wf s" and slot: "slot < MAX_THREADS"
    and room: "length (queue s (prio s slot)) < MAX_THREADS"
  shows "returns (enqueue s slot)
    (requeued s ((queue s)(prio s slot := queue s (prio s slot) @ [slot])))"
proof -
  define p where "p = prio s slot"
  have p: "p < MAX_PRIORITIES" by (simp add: p_def)
  let ?d = "sc_runqueue_depths s ! p" and ?q = "sc_runqueues s ! p"
  have d: "?d < MAX_THREADS" "length ?q = MAX_THREADS"
    using room wf p length_queue [OF wf p] by (simp_all add: p_def queues_wf_def)
  have tk: "take (?d + 1) (?q[?d := slot]) = queue s p @ [slot]"
    using d p by (simp add: take_Suc_conv_app_nth queue_def)
  let ?s' = "s\<lparr>sc_runqueues := (sc_runqueues s)[p := ?q[?d := slot]],
      sc_runqueue_depths := (sc_runqueue_depths s)[p := ?d + 1],
      sc_runqueue_bitmap := sc_runqueue_bitmap s OR push_bit p 1\<rparr>"
  have "enqueue s slot = Ok ?s'"
    using wf slot d p by (simp add: enqueue_def queues_wf_def flip: p_def)
  moreover have "requeued s ((queue s)(p := take (?d + 1) (?q[?d := slot]))) ?s'"
  proof (rule requeuedI [OF wf p])
    show "x < MAX_THREADS \<and> prio s x = p" if "x \<in> set (take (?d + 1) (?q[?d := slot]))" for x
      using that wf slot unfolding tk by (auto simp: queue_mem p_def)
  qed (use d in \<open>auto simp: bit_set_priority sched_bounds\<close>)
  ultimately show ?thesis
    unfolding tk by (simp add: p_def)
qed

subsection \<open>Removing an entry\<close>

lemma shift_up_eq:
  "i \<le> n \<Longrightarrow> n < length q \<Longrightarrow> shift_up q i n = Ok (take i q @ slice q (i + 1) (n + 1) @ drop n q)"
proof (induction "n - i" arbitrary: q i)
  case 0
  then show ?case
    by (subst shift_up.simps) (simp add: slice_def)
next
  case (Suc k)
  then have i: "i < n" by simp
  define q' where "q' = q[i := q ! (i + 1)]"
  have step: "shift_up q i n = shift_up q' (i + 1) n"
    using i Suc.prems by (subst shift_up.simps) (simp add: q'_def)
  have rest: "shift_up q' (i + 1) n = Ok (take (i + 1) q' @ slice q' (i + 2) (n + 1) @ drop n q')"
    using Suc.hyps(1) [of "i + 1" q'] Suc.hyps(2) Suc.prems by (simp add: q'_def)
  have "take (i + 1) q' = take i q @ [q ! (i + 1)]"
    using i Suc.prems by (simp add: q'_def take_Suc_conv_app_nth)
  moreover have "slice q' (i + 2) (n + 1) = slice q (i + 2) (n + 1)" "drop n q' = drop n q"
    using i Suc.prems by (simp_all add: slice_def q'_def)
  moreover have "slice q (i + 1) (n + 1) = [q ! (i + 1)] @ slice q (i + 2) (n + 1)"
    using i Suc.prems by (simp add: slice_def flip: Cons_nth_drop_Suc Suc_diff_Suc)
  ultimately show ?case
    unfolding step rest by simp
qed

lemma find_queued_eq:
  "n \<le> length q \<Longrightarrow> find_queued q slot i n =
     Ok (map_option (\<lambda>k. i + k) (find_index (\<lambda>x. x = slot) (drop i (take n q))))"
proof (induction "n - i" arbitrary: i)
  case 0
  then show ?case
    by (subst find_queued.simps) simp
next
  case (Suc k)
  then have i: "i < n" by simp
  have rest: "find_queued q slot (i + 1) n =
      Ok (map_option (\<lambda>k. i + 1 + k) (find_index (\<lambda>x. x = slot) (drop (i + 1) (take n q))))"
    using Suc.hyps(2) Suc.prems by (intro Suc.hyps(1)) simp_all
  have "drop i (take n q) = q ! i # drop (i + 1) (take n q)"
    using i Suc.prems by (simp flip: Cons_nth_drop_Suc)
  with i Suc.prems rest show ?case
    by (subst find_queued.simps) (simp add: option.map_comp comp_def)
qed

lemma remove1_find_index:
  "remove1 x xs = (case find_index (\<lambda>y. y = x) xs of None \<Rightarrow> xs | Some i \<Rightarrow> take i xs @ drop (i + 1) xs)"
  by (induction xs) (auto split: option.splits)

lemma remove_entry_removes:
  assumes wf: "queues_wf s" and p: "p < MAX_PRIORITIES" and idx: "idx < length (queue s p)"
  shows "returns (remove_entry s p idx)
    (requeued s ((queue s)(p := take idx (queue s p) @ drop (idx + 1) (queue s p))))"
proof -
  let ?d = "sc_runqueue_depths s ! p" and ?q = "sc_runqueues s ! p"
  have d: "idx < ?d" "?d \<le> MAX_THREADS" "length ?q = MAX_THREADS"
    using idx wf p length_queue [OF wf p] by (simp_all add: queues_wf_def)
  let ?q' = "take idx ?q @ slice ?q (idx + 1) ?d @ drop (?d - 1) ?q"
  have shift: "shift_up ?q idx (?d - 1) = Ok ?q'"
    using d by (subst shift_up_eq) auto
  have len: "length ?q' = MAX_THREADS"
    using d by simp
  have tk: "take (?d - 1) ?q' = take idx (queue s p) @ drop (idx + 1) (queue s p)"
    using d p by (cases "idx = ?d - 1") (auto simp: queue_def slice_def drop_take min_def)
  let ?s' = "s\<lparr>sc_runqueues := (sc_runqueues s)[p := ?q'],
      sc_runqueue_depths := (sc_runqueue_depths s)[p := ?d - 1],
      sc_runqueue_bitmap := (if ?d - 1 = 0 then sc_runqueue_bitmap s AND NOT (2 ^ p) else sc_runqueue_bitmap s)\<rparr>"
  have "remove_entry s p idx = Ok ?s'"
    using wf p d shift by (simp add: remove_entry_def queues_wf_def)
  moreover have "requeued s ((queue s)(p := take (?d - 1) ?q')) ?s'"
  proof (rule requeuedI [OF wf p len])
    show "x < MAX_THREADS \<and> prio s x = p" if "x \<in> set (take (?d - 1) ?q')" for x
    proof -
      from that have "x \<in> set (queue s p)"
        unfolding tk by (auto dest: in_set_takeD in_set_dropD)
      then show ?thesis using wf by (simp add: queue_mem)
    qed
    have "bit (sc_runqueue_bitmap s) p"
      using wf p idx by (auto simp: queues_wf_def)
    then show "bit (if ?d - 1 = 0 then sc_runqueue_bitmap s AND NOT (2 ^ p) else sc_runqueue_bitmap s) i =
        (if i = p then ?d - 1 \<noteq> 0 else bit (sc_runqueue_bitmap s) i)" if "i < MAX_PRIORITIES" for i
      using that by (simp add: bit_clear_priority sched_bounds)
  qed (use d in simp)
  ultimately show ?thesis
    unfolding tk by simp
qed

lemma dequeue_empty:
  "queues_wf s \<Longrightarrow> p < MAX_PRIORITIES \<Longrightarrow> queue s p = [] \<Longrightarrow> dequeue s p = Ok (s, None)"
  using length_queue [of s p] by (simp add: dequeue_def queues_wf_def)

lemma dequeue_pops:
  assumes wf: "queues_wf s" and q: "queue s p = x # xs"
  shows "returns (dequeue s p) (\<lambda>(s', got). got = Some x \<and> requeued s ((queue s)(p := xs)) s')"
proof -
  have p: "p < MAX_PRIORITIES"
    using q by (simp add: queue_def split: if_splits)
  have d: "0 < sc_runqueue_depths s ! p" "length (sc_runqueues s ! p) = MAX_THREADS"
    using length_queue [OF wf p] q wf p by (auto simp: queues_wf_def)
  have "sc_runqueues s ! p ! 0 = queue s p ! 0"
    using d p by (simp add: queue_def)
  then have "dequeue s p = and_then (remove_entry s p 0) (\<lambda>s'. Ok (s', Some x))"
    using wf p d q by (simp add: dequeue_def queues_wf_def sched_bounds)
  with remove_entry_removes [OF wf p, of 0] q show ?thesis
    by (auto elim: returns_mono)
qed

lemma requeued_refl: "queues_wf s \<Longrightarrow> requeued s (queue s) s"
proof -
  assume "queues_wf s"
  moreover have "\<exists>qs ds b. s = s\<lparr>sc_runqueues := qs, sc_runqueue_depths := ds, sc_runqueue_bitmap := b\<rparr>"
    by (rule exI [of _ "sc_runqueues s"], rule exI [of _ "sc_runqueue_depths s"],
      rule exI [of _ "sc_runqueue_bitmap s"]) simp
  ultimately show ?thesis
    by (simp add: requeued_def)
qed

lemma unqueue_removes:
  assumes wf: "queues_wf s" and slot: "slot < MAX_THREADS"
  shows "returns (unqueue s slot)
    (requeued s ((queue s)(prio s slot := remove1 slot (queue s (prio s slot)))))"
proof -
  define p where "p = prio s slot"
  have p: "p < MAX_PRIORITIES" by (simp add: p_def)
  have u: "unqueue s slot =
      (case find_index (\<lambda>x. x = slot) (queue s p) of None \<Rightarrow> Ok s | Some idx \<Rightarrow> remove_entry s p idx)"
    using wf slot p find_queued_eq [of "sc_runqueue_depths s ! p" "sc_runqueues s ! p" slot 0]
    by (simp add: unqueue_def queues_wf_def queue_def option.map_ident comp_def flip: p_def)
  show ?thesis
  proof (cases "find_index (\<lambda>x. x = slot) (queue s p)")
    case None
    with wf u requeued_refl [OF wf] show ?thesis
      by (simp add: remove1_find_index flip: p_def)
  next
    case (Some idx)
    with remove_entry_removes [OF wf p, of idx] u show ?thesis
      by (auto simp: remove1_find_index simp flip: p_def dest: find_index_SomeD)
  qed
qed

section \<open>The table invariant\<close>

definition sched_inv :: "scheduler \<Rightarrow> bool" where
  "sched_inv s \<longleftrightarrow>
     queues_wf s \<and> (\<forall>t \<in> set (sc_threads s). th_base_priority t = 0) \<and>
     (\<forall>x. sc_current_slot s = Some x \<longrightarrow> x < MAX_THREADS) \<and>
     (sc_initialized s \<longrightarrow> sc_bootstrap_thread_id s \<noteq> sc_idle_thread_id s)"

definition th_key :: "thread \<Rightarrow> u64 \<times> u64" where
  "th_key t = (th_id t, th_thread_group_id t)"

text \<open>\<open>kept s s'\<close>: the invariant holds and only queues, states and counters of threads changed.\<close>

definition kept :: "scheduler \<Rightarrow> scheduler \<Rightarrow> bool" where
  "kept s s' \<longleftrightarrow>
     sched_inv s' \<and> sc_thread_count s' = sc_thread_count s \<and> sc_current_slot s' = sc_current_slot s \<and>
     sc_initialized s' = sc_initialized s \<and> sc_bootstrap_thread_id s' = sc_bootstrap_thread_id s \<and>
     sc_idle_thread_id s' = sc_idle_thread_id s \<and> map th_key (sc_threads s') = map th_key (sc_threads s)"

text \<open>What identifies the threads: every switch leaves it alone.\<close>

definition ids :: "scheduler \<Rightarrow> bool \<times> u64 \<times> u64 \<times> (u64 \<times> u64) list" where
  "ids s = (sc_initialized s, sc_bootstrap_thread_id s, sc_idle_thread_id s, map th_key (sc_threads s))"

lemma kept_ids: "kept s s' \<Longrightarrow> ids s' = ids s"
  by (simp add: kept_def ids_def)

lemma ids_unchanged [simp]:
  "ids (s\<lparr>sc_context_switches := n\<rparr>) = ids s" "ids (s\<lparr>sc_current_slot := c\<rparr>) = ids s"
  by (simp_all add: ids_def)

lemma queue_unchanged [simp]:
  "queue (s\<lparr>sc_threads := ts\<rparr>) = queue s" "queue (s\<lparr>sc_current_slot := c\<rparr>) = queue s"
  "queue (s\<lparr>sc_context_switches := n\<rparr>) = queue s" "queue (s\<lparr>sc_hook_calls := h\<rparr>) = queue s"
  "queue (s\<lparr>sc_tss_slot := t\<rparr>) = queue s" "queue (s\<lparr>sc_frame_rax := r\<rparr>) = queue s"
  "queue (s\<lparr>sc_next_thread_id := i\<rparr>) = queue s" "queue (s\<lparr>sc_thread_count := k\<rparr>) = queue s"
  "queue (s\<lparr>sc_initialized := b\<rparr>) = queue s" "queue (s\<lparr>sc_bootstrap_thread_id := i\<rparr>) = queue s"
  "queue (s\<lparr>sc_idle_thread_id := i\<rparr>) = queue s" "queue (s\<lparr>sc_hps_hook := b\<rparr>) = queue s"
  by (simp_all add: queue_def fun_eq_iff)

lemma prio_unchanged [simp]:
  "prio (s\<lparr>sc_current_slot := c\<rparr>) = prio s"
  "prio (s\<lparr>sc_context_switches := n\<rparr>) = prio s" "prio (s\<lparr>sc_hook_calls := h\<rparr>) = prio s"
  "prio (s\<lparr>sc_tss_slot := t\<rparr>) = prio s" "prio (s\<lparr>sc_frame_rax := r\<rparr>) = prio s"
  "prio (s\<lparr>sc_next_thread_id := i\<rparr>) = prio s" "prio (s\<lparr>sc_thread_count := k\<rparr>) = prio s"
  "prio (s\<lparr>sc_initialized := b\<rparr>) = prio s" "prio (s\<lparr>sc_bootstrap_thread_id := i\<rparr>) = prio s"
  "prio (s\<lparr>sc_idle_thread_id := i\<rparr>) = prio s" "prio (s\<lparr>sc_hps_hook := b\<rparr>) = prio s"
  by (simp_all add: prio_def fun_eq_iff)

lemma queues_wf_unchanged [simp]:
  "queues_wf (s\<lparr>sc_current_slot := c\<rparr>) = queues_wf s"
  "queues_wf (s\<lparr>sc_context_switches := n\<rparr>) = queues_wf s" "queues_wf (s\<lparr>sc_hook_calls := h\<rparr>) = queues_wf s"
  "queues_wf (s\<lparr>sc_tss_slot := t\<rparr>) = queues_wf s" "queues_wf (s\<lparr>sc_frame_rax := r\<rparr>) = queues_wf s"
  "queues_wf (s\<lparr>sc_next_thread_id := i\<rparr>) = queues_wf s" "queues_wf (s\<lparr>sc_thread_count := k\<rparr>) = queues_wf s"
  "queues_wf (s\<lparr>sc_initialized := b\<rparr>) = queues_wf s" "queues_wf (s\<lparr>sc_bootstrap_thread_id := i\<rparr>) = queues_wf s"
  "queues_wf (s\<lparr>sc_idle_thread_id := i\<rparr>) = queues_wf s" "queues_wf (s\<lparr>sc_hps_hook := b\<rparr>) = queues_wf s"
  by (simp_all add: queues_wf_def)

lemma sched_inv_unchanged [simp]:
  "sched_inv (s\<lparr>sc_context_switches := n\<rparr>) = sched_inv s" "sched_inv (s\<lparr>sc_hook_calls := h\<rparr>) = sched_inv s"
  "sched_inv (s\<lparr>sc_tss_slot := t\<rparr>) = sched_inv s" "sched_inv (s\<lparr>sc_frame_rax := r\<rparr>) = sched_inv s"
  "sched_inv (s\<lparr>sc_next_thread_id := i\<rparr>) = sched_inv s" "sched_inv (s\<lparr>sc_thread_count := k\<rparr>) = sched_inv s"
  "sched_inv (s\<lparr>sc_hps_hook := b\<rparr>) = sched_inv s"
  by (simp_all add: sched_inv_def)

lemma sched_inv_wf [simp]: "sched_inv s \<Longrightarrow> queues_wf s"
  by (simp add: sched_inv_def)

lemma sched_inv_length [simp]: "sched_inv s \<Longrightarrow> length (sc_threads s) = MAX_THREADS"
  by (simp add: sched_inv_def queues_wf_def)

lemma sched_inv_current: "sched_inv s \<Longrightarrow> sc_current_slot s = Some x \<Longrightarrow> x < MAX_THREADS"
  by (simp add: sched_inv_def)

lemma prio_zero [simp]: "prio s x = 0" if "sched_inv s" "x < MAX_THREADS"
proof -
  have "th_base_priority (sc_threads s ! x) = 0"
    using that sched_inv_length [of s] by (simp add: sched_inv_def)
  then show ?thesis
    unfolding prio_def by simp
qed

lemma sched_inv_set_current [simp]:
  "sched_inv s \<Longrightarrow> x < MAX_THREADS \<Longrightarrow> sched_inv (s\<lparr>sc_current_slot := Some x\<rparr>)"
  "sched_inv s \<Longrightarrow> sched_inv (s\<lparr>sc_current_slot := None\<rparr>)"
  by (simp_all add: sched_inv_def)

text \<open>Writing a thread of priority 0 keeps the invariant.\<close>

lemma sched_inv_set_thread:
  assumes inv: "sched_inv s" and slot: "slot < MAX_THREADS" and t: "th_base_priority t = 0"
  shows "sched_inv (s\<lparr>sc_threads := (sc_threads s)[slot := t]\<rparr>)" (is "sched_inv ?s'")
proof -
  have "set (sc_threads ?s') \<subseteq> insert t (set (sc_threads s))"
    by (simp add: set_update_subset_insert)
  then have zero: "\<forall>u \<in> set (sc_threads ?s'). th_base_priority u = 0"
    using inv t by (auto simp: sched_inv_def)
  have prio: "prio ?s' x = 0" if "x < MAX_THREADS" for x
  proof -
    have "sc_threads ?s' ! x \<in> set (sc_threads ?s')"
      using that inv by (intro nth_mem) simp
    with zero have "th_base_priority (sc_threads ?s' ! x) = 0"
      by blast
    then show ?thesis
      unfolding prio_def by simp
  qed
  have "\<forall>p x. x \<in> set (queue s p) \<longrightarrow> x < MAX_THREADS \<and> prio ?s' x = p"
    using queue_mem [OF sched_inv_wf [OF inv]] prio prio_zero [OF inv] by metis
  then have "queues_wf ?s'"
    using sched_inv_wf [OF inv] unfolding queues_wf_def queue_unchanged by simp
  with zero inv show ?thesis
    by (simp add: sched_inv_def)
qed

lemma sched_inv_requeued: "sched_inv s \<Longrightarrow> requeued s q s' \<Longrightarrow> kept s s'"
  using requeued_same [of s q s'] by (simp add: kept_def sched_inv_def requeuedD)

lemma kept_refl: "sched_inv s \<Longrightarrow> kept s s"
  by (simp add: kept_def)

lemma kept_inv [simp]: "kept s s' \<Longrightarrow> sched_inv s'"
  by (simp add: kept_def)

lemma kept_trans: "kept s s' \<Longrightarrow> kept s' s'' \<Longrightarrow> kept s s''"
  by (simp add: kept_def)

section \<open>The abstract scheduler\<close>

text \<open>
  What the scheduler promises, without tables, bitmaps and contexts: the state of every slot, one
  list of ready slots (every thread of the kernel has priority 0), the current slot and the number of
  threads.  \<open>view\<close> is the abstraction function; each operation is shown to do on the view what the
  abstract operation of the same name does.
\<close>

record sched_view =
  v_state :: "nat \<Rightarrow> thread_state"
  v_ready :: "nat list"
  v_current :: "nat option"
  v_count :: nat

definition view :: "scheduler \<Rightarrow> sched_view" where
  "view s = \<lparr>v_state = (\<lambda>i. if i < MAX_THREADS then th_state (sc_threads s ! i) else Unused),
     v_ready = queue s 0, v_current = sc_current_slot s, v_count = sc_thread_count s\<rparr>"

definition v_set :: "sched_view \<Rightarrow> nat \<Rightarrow> thread_state \<Rightarrow> sched_view" where
  "v_set v x st = v\<lparr>v_state := (v_state v)(x := st)\<rparr>"

definition v_push :: "sched_view \<Rightarrow> nat \<Rightarrow> sched_view" where
  "v_push v x = (if length (v_ready v) < MAX_THREADS then v\<lparr>v_ready := v_ready v @ [x]\<rparr> else v)"

definition v_drop :: "sched_view \<Rightarrow> nat \<Rightarrow> sched_view" where
  "v_drop v x = v\<lparr>v_ready := remove1 x (v_ready v)\<rparr>"

definition v_requeue :: "sched_view \<Rightarrow> nat \<Rightarrow> sched_view" where
  "v_requeue v x = (if v_state v x = Running then v_push (v_set v x Runnable) x else v)"

definition v_requeue_current :: "sched_view \<Rightarrow> sched_view" where
  "v_requeue_current v = (case v_current v of None \<Rightarrow> v | Some x \<Rightarrow> v_requeue v x)"

definition v_dispatch :: "sched_view \<Rightarrow> sched_view" where
  "v_dispatch v =
     (case v_ready v of
        [] \<Rightarrow> v\<lparr>v_current := None\<rparr>
      | x # xs \<Rightarrow> v_set (v\<lparr>v_ready := xs, v_current := Some x\<rparr>) x Running)"

lemmas v_defs = v_set_def v_push_def v_drop_def v_requeue_def v_requeue_current_def v_dispatch_def

lemma view_simps [simp]:
  "v_ready (view s) = queue s 0" "v_current (view s) = sc_current_slot s" "v_count (view s) = sc_thread_count s"
  "x < MAX_THREADS \<Longrightarrow> v_state (view s) x = th_state (sc_threads s ! x)"
  by (simp_all add: view_def)

lemma view_unchanged [simp]:
  "view (s\<lparr>sc_context_switches := n\<rparr>) = view s" "view (s\<lparr>sc_hook_calls := h\<rparr>) = view s"
  "view (s\<lparr>sc_tss_slot := t\<rparr>) = view s" "view (s\<lparr>sc_frame_rax := r\<rparr>) = view s"
  "view (s\<lparr>sc_next_thread_id := i\<rparr>) = view s"
  "view (s\<lparr>sc_current_slot := c\<rparr>) = (view s)\<lparr>v_current := c\<rparr>"
  "view (s\<lparr>sc_thread_count := k\<rparr>) = (view s)\<lparr>v_count := k\<rparr>"
  by (simp_all add: view_def cong: if_cong)

lemma v_set_same: "v_state v x = st \<Longrightarrow> v_set v x st = v"
  by (simp add: v_set_def fun_upd_idem)

lemma view_set_thread [simp]:
  "length (sc_threads s) = MAX_THREADS \<Longrightarrow> x < MAX_THREADS \<Longrightarrow>
   view (s\<lparr>sc_threads := (sc_threads s)[x := t]\<rparr>) = v_set (view s) x (th_state t)"
  by (auto simp: view_def v_set_def fun_eq_iff nth_list_update)

lemma view_requeued: "requeued s q s' \<Longrightarrow> view s' = (view s)\<lparr>v_ready := q 0\<rparr>"
  using requeued_same [of s q s'] by (simp add: view_def requeuedD cong: if_cong)

text \<open>With one priority in use the bitmap only says whether the ready list is empty.\<close>

lemma other_queues_empty: "sched_inv s \<Longrightarrow> p \<noteq> 0 \<Longrightarrow> queue s p = []"
proof (rule ccontr)
  assume inv: "sched_inv s" and "p \<noteq> 0" "queue s p \<noteq> []"
  then obtain x where "x \<in> set (queue s p)" by (cases "queue s p") auto
  with inv \<open>p \<noteq> 0\<close> show False
    using queue_mem [of s x p] by simp
qed

lemma bitmap_zero_iff:
  assumes "sched_inv s" shows "sc_runqueue_bitmap s = 0 \<longleftrightarrow> queue s 0 = []"
proof
  assume "sc_runqueue_bitmap s = 0"
  moreover have "queues_wf s" using assms by simp
  ultimately show "queue s 0 = []"
    by (simp add: queues_wf_def sched_bounds)
next
  assume "queue s 0 = []"
  then have "queue s p = []" for p
    using other_queues_empty [OF assms, of p] by (cases "p = 0") simp_all
  moreover have "queues_wf s" using assms by simp
  ultimately show "sc_runqueue_bitmap s = 0"
    by (intro bit_word_eqI) (simp add: queues_wf_def sched_bounds)
qed

subsection \<open>The steps the operations share\<close>

lemma update_thread_ok [simp]:
  "queues_wf s \<Longrightarrow> slot < MAX_THREADS \<Longrightarrow>
   update_thread s slot f = Ok (s\<lparr>sc_threads := (sc_threads s)[slot := f (sc_threads s ! slot)]\<rparr>)"
  by (simp add: update_thread_def)

lemma base_priority_zero [simp]:
  "sched_inv s \<Longrightarrow> x < MAX_THREADS \<Longrightarrow> th_base_priority (sc_threads s ! x) = 0"
  using sched_inv_length [of s] by (simp add: sched_inv_def)

lemma kept_set_thread:
  assumes "sched_inv s" "slot < MAX_THREADS"
    and "th_base_priority t = 0" "th_key t = th_key (sc_threads s ! slot)"
  shows "kept s (s\<lparr>sc_threads := (sc_threads s)[slot := t]\<rparr>)"
proof -
  have "map th_key ((sc_threads s)[slot := t]) = map th_key (sc_threads s)"
    using assms by (simp add: map_update list_update_same_conv)
  then show ?thesis
    using assms sched_inv_set_thread [of s slot t] by (simp add: kept_def)
qed

lemma th_key_update [simp]:
  "th_key (t\<lparr>th_state := st\<rparr>) = th_key t" "th_key (t\<lparr>th_context := c\<rparr>) = th_key t"
  "th_key (t\<lparr>th_fd_table := tbl\<rparr>) = th_key t"
  by (simp_all add: th_key_def)

lemma kept_key:
  assumes "sched_inv s" "kept s s'" "x < MAX_THREADS"
  shows "th_key (sc_threads s' ! x) = th_key (sc_threads s ! x)"
proof -
  have "map th_key (sc_threads s') ! x = map th_key (sc_threads s) ! x"
    using assms(2) by (simp only: kept_def)
  moreover have "length (sc_threads s') = MAX_THREADS" "length (sc_threads s) = MAX_THREADS"
    using assms by simp_all
  ultimately show ?thesis
    using assms(3) by simp
qed

lemma thread_kinds [simp]:
  "th_base_priority (count_tick t) = th_base_priority t" "th_key (count_tick t) = th_key t"
  "th_state (count_tick t) = th_state t" "th_role (count_tick t) = th_role t"
  "th_base_priority (mark_dispatched t) = th_base_priority t" "th_key (mark_dispatched t) = th_key t"
  "th_state (mark_dispatched t) = Running" "th_role (mark_dispatched t) = th_role t"
  by (simp_all add: count_tick_def mark_dispatched_def th_key_def)

text \<open>\<open>sim s r v\<close>: the computation returns a state that keeps the tables of \<open>s\<close> and has view \<open>v\<close>.\<close>

definition sim :: "scheduler \<Rightarrow> scheduler checked \<Rightarrow> sched_view \<Rightarrow> bool" where
  "sim s r v = returns r (\<lambda>s'. kept s s' \<and> view s' = v)"

lemma simE:
  assumes "sim s r v" obtains s' where "r = Ok s'" and "kept s s'" and "view s' = v"
  using assms unfolding sim_def by (auto elim: returnsE)

lemma sim_Ok: "sim s (Ok s') v = (kept s s' \<and> view s' = v)"
  by (simp add: sim_def)

lemma sim_trans: "kept s s1 \<Longrightarrow> sim s1 r v \<Longrightarrow> sim s r v"
  unfolding sim_def by (auto elim!: returns_mono intro: kept_trans)

lemma enqueue_ok:
  assumes inv: "sched_inv s" and slot: "slot < MAX_THREADS"
  shows "if length (queue s 0) < MAX_THREADS then sim s (enqueue s slot) (v_push (view s) slot)
    else enqueue s slot = Fail RunQueueFull"
proof (cases "length (queue s 0) < MAX_THREADS")
  case True
  have wf: "queues_wf s" using inv by simp
  from enqueue_appends [OF wf slot] True inv slot
  have "returns (enqueue s slot) (requeued s ((queue s)(0 := queue s 0 @ [slot])))"
    by simp
  then have "sim s (enqueue s slot) (v_push (view s) slot)"
    unfolding sim_def by (rule returns_mono) (use inv True in \<open>simp add: sched_inv_requeued view_requeued v_push_def\<close>)
  with True show ?thesis by simp
next
  case False
  have wf: "queues_wf s" using inv by simp
  with False show ?thesis
    using length_queue_le [OF wf, of 0] slot inv enqueue_full [OF wf slot] by simp
qed

lemma enqueue_ignored_sim:
  assumes "sched_inv s" "slot < MAX_THREADS"
  shows "sim s (enqueue_ignored s slot) (v_push (view s) slot)"
  using enqueue_ok [OF assms] assms(1)
  by (auto simp: enqueue_ignored_def v_push_def sim_Ok kept_refl elim!: simE split: if_splits)

lemma unqueue_sim:
  assumes inv: "sched_inv s" and slot: "slot < MAX_THREADS"
  shows "sim s (unqueue s slot) (v_drop (view s) slot)"
proof -
  have wf: "queues_wf s" using inv by simp
  show ?thesis
    unfolding sim_def
    by (rule returns_mono [OF unqueue_removes [OF wf slot]])
      (use inv slot in \<open>simp add: sched_inv_requeued view_requeued v_drop_def\<close>)
qed

lemma dequeue_sim:
  assumes inv: "sched_inv s" and q: "queue s 0 = x # xs"
  obtains s' where "dequeue s 0 = Ok (s', Some x)" and "kept s s'" and "view s' = (view s)\<lparr>v_ready := xs\<rparr>"
    and "x < MAX_THREADS"
proof -
  have wf: "queues_wf s" using inv by simp
  have "x < MAX_THREADS" using queue_mem(1) [OF wf, of x 0] q by simp
  moreover obtain s' where "dequeue s 0 = Ok (s', Some x)" "requeued s ((queue s)(0 := xs)) s'"
    using dequeue_pops [OF wf q] by (auto elim: returnsE)
  ultimately show thesis
    using that inv by (simp add: sched_inv_requeued view_requeued)
qed

text \<open>The bitmap's lowest set bit is the first nonempty priority.\<close>

lemma best_priority:
  assumes "queues_wf s" and "sc_runqueue_bitmap s \<noteq> 0"
  shows "trailing_zeros (sc_runqueue_bitmap s) < MAX_PRIORITIES"
    and "queue s (trailing_zeros (sc_runqueue_bitmap s)) \<noteq> []"
    and "\<And>p. p < trailing_zeros (sc_runqueue_bitmap s) \<Longrightarrow> queue s p = []"
proof -
  let ?b = "trailing_zeros (sc_runqueue_bitmap s)"
  show less: "?b < MAX_PRIORITIES"
    using assms(2) by (simp add: trailing_zeros_less sched_bounds)
  then have "bit (sc_runqueue_bitmap s) ?b"
    by (intro trailing_zeros_bit) (simp add: sched_bounds)
  with less assms(1) show "queue s ?b \<noteq> []"
    by (simp add: queues_wf_def)
  show "queue s p = []" if "p < ?b" for p
    using that less assms(1) trailing_zeros_below [OF that] by (simp add: queues_wf_def)
qed

text \<open>The bitmap leads every dispatch to the ready list.\<close>

lemma best_is_ready:
  assumes inv: "sched_inv s" and q: "queue s 0 \<noteq> []"
  shows "sc_runqueue_bitmap s \<noteq> 0" and "trailing_zeros (sc_runqueue_bitmap s) = 0"
proof -
  have wf: "queues_wf s" using inv by simp
  show nz: "sc_runqueue_bitmap s \<noteq> 0"
    using q by (simp add: bitmap_zero_iff [OF inv])
  from best_priority [OF wf nz] other_queues_empty [OF inv] show "trailing_zeros (sc_runqueue_bitmap s) = 0"
    by blast
qed

lemma requeue_running_sim:
  assumes inv: "sched_inv s" and slot: "slot < MAX_THREADS"
    and f: "\<And>t. th_base_priority (f t) = th_base_priority t" "\<And>t. th_key (f t) = th_key t"
  shows "sim s (requeue_running s slot f) (v_requeue (view s) slot)"
proof -
  let ?s = "s\<lparr>sc_threads := (sc_threads s)[slot := (f (sc_threads s ! slot))\<lparr>th_state := Runnable\<rparr>]\<rparr>"
  have k: "kept s ?s"
    using inv slot f by (intro kept_set_thread) simp_all
  have "sim s (enqueue_ignored ?s slot) (v_push (view ?s) slot)"
    by (rule sim_trans [OF k enqueue_ignored_sim [OF kept_inv [OF k] slot]])
  with inv slot show ?thesis
    by (simp add: requeue_running_def v_requeue_def sim_Ok kept_refl)
qed

lemma tick_current_sim:
  assumes inv: "sched_inv s" shows "sim s (tick_current s) (v_requeue_current (view s))"
proof (cases "sc_current_slot s")
  case None
  with inv show ?thesis by (simp add: tick_current_def v_requeue_current_def sim_Ok kept_refl)
next
  case (Some c)
  then have c: "c < MAX_THREADS" using inv by (simp add: sched_inv_current)
  let ?s = "s\<lparr>sc_threads := (sc_threads s)[c := count_tick (sc_threads s ! c)]\<rparr>"
  have "kept s ?s"
    using inv c by (intro kept_set_thread) simp_all
  moreover have "view ?s = view s"
    using inv c by (simp add: v_set_same)
  ultimately show ?thesis
    using Some c inv requeue_running_sim [OF inv c, of count_tick]
    by (auto simp: tick_current_def v_requeue_current_def v_requeue_def sim_Ok kept_refl v_set_same)
qed

lemma call_hook_sim:
  "sched_inv s \<Longrightarrow> slot < MAX_THREADS \<Longrightarrow> sim s (call_hook s slot) (view s)"
  by (simp add: call_hook_def sim_Ok kept_def)

lemma prepare_resume_slot_sim:
  "sched_inv s \<Longrightarrow> slot < MAX_THREADS \<Longrightarrow> sim s (prepare_resume_slot s slot) (view s)"
  by (simp add: prepare_resume_slot_def sim_Ok kept_def)

section \<open>Every operation keeps the invariant and refines the abstract scheduler\<close>

text \<open>Making a queued slot current: the tail that every dispatch shares.\<close>

lemma make_current_inv:
  assumes "sched_inv s" "x < MAX_THREADS" "th_base_priority t = 0"
  shows "sched_inv (s\<lparr>sc_current_slot := Some x, sc_threads := (sc_threads s)[x := t]\<rparr>)"
proof -
  have "sched_inv (s\<lparr>sc_current_slot := Some x\<rparr>)"
    using assms by simp
  from sched_inv_set_thread [OF this assms(2,3)] show ?thesis
    by simp
qed

definition v_tick :: "bool \<Rightarrow> sched_view \<Rightarrow> sched_view" where
  "v_tick initialized v = (if initialized then v_dispatch (v_requeue_current v) else v)"

lemma on_timer_tick_sim:
  assumes inv: "sched_inv s"
  shows "returns (on_timer_tick s) (\<lambda>(s', d). sched_inv s' \<and> ids s' = ids s \<and>
    view s' = v_tick (sc_initialized s) (view s))"
proof (cases "\<not> sc_initialized s \<or> (sc_runqueue_bitmap s = 0 \<and> sc_current_slot s = None)")
  case True
  then show ?thesis
    using inv by (auto simp: on_timer_tick_def v_tick_def v_dispatch_def v_requeue_current_def
        bitmap_zero_iff view_def)
next
  case False
  from tick_current_sim [OF inv] obtain s1 where s1: "tick_current s = Ok s1" "kept s s1"
    and v1: "view s1 = v_requeue_current (view s)"
    by (rule simE)
  have inv1: "sched_inv s1" using s1 by simp
  have tick: "v_tick (sc_initialized s) (view s) = v_dispatch (view s1)"
    using False by (simp add: v_tick_def v1)
  show ?thesis
  proof (cases "queue s1 0")
    case Nil
    with False s1 inv1 kept_ids [OF s1(2)] show ?thesis
      unfolding on_timer_tick_def if_not_P [OF False] tick
      by (simp add: bitmap_zero_iff v_dispatch_def)
  next
    case (Cons x xs)
    from dequeue_sim [OF inv1 Cons] obtain s2 where s2: "dequeue s1 0 = Ok (s2, Some x)" "kept s1 s2"
      and v2: "view s2 = (view s1)\<lparr>v_ready := xs\<rparr>" and x: "x < MAX_THREADS" .
    have inv2: "sched_inv s2" using s2 by simp
    define s3 where "s3 = (if Some x \<noteq> sc_current_slot s2
      then s2\<lparr>sc_context_switches := sat_add (sc_context_switches s2) 1\<rparr> else s2)\<lparr>sc_current_slot := Some x\<rparr>"
    have s3: "sched_inv s3" "view s3 = (view s2)\<lparr>v_current := Some x\<rparr>" "ids s3 = ids s2"
      using inv2 x unfolding s3_def by simp_all
    define s4 where "s4 = s3\<lparr>sc_threads := (sc_threads s3)[x := mark_dispatched (sc_threads s3 ! x)]\<rparr>"
    have k4: "kept s3 s4"
      unfolding s4_def using s3 x by (intro kept_set_thread) simp_all
    from call_hook_sim [OF kept_inv [OF k4] x] obtain s5
      where s5: "call_hook s4 x = Ok s5" "kept s4 s5" and v5: "view s5 = view s4"
      by (rule simE)
    have inv5: "sched_inv s5" using s5 by simp
    have "view s5 = v_dispatch (view s1)"
      using v5 s3 v2 x Cons by (simp add: s4_def v_dispatch_def)
    moreover have "on_timer_tick s = and_then (dispatch_snapshot s5 x) (\<lambda>d. Ok (s5, Some d))"
      using s1 best_is_ready [OF inv1] Cons s2 s3(1) x s5(1)
      unfolding on_timer_tick_def if_not_P [OF False]
      by (simp add: Let_def s4_def MAX_PRIORITIES_def flip: s3_def)
    moreover have "ids s5 = ids s"
      using kept_ids [OF s1(2)] kept_ids [OF s2(2)] kept_ids [OF k4] kept_ids [OF s5(2)] s3(3) by simp
    ultimately show ?thesis
      using inv5 x by (simp add: tick dispatch_snapshot_def)
  qed
qed

definition v_requeue_all :: "nat list \<Rightarrow> sched_view \<Rightarrow> sched_view" where
  "v_requeue_all slots v = fold (\<lambda>x v. v_requeue v x) slots v"

definition v_activate :: "sched_view \<Rightarrow> nat \<Rightarrow> sched_view" where
  "v_activate v x = v_set ((v_drop v x)\<lparr>v_current := Some x\<rparr>) x Running"

lemma find_thread_ok:
  assumes "sched_inv s" "\<forall>x \<in> set slots. x < MAX_THREADS"
  shows "returns (find_thread s P slots) (\<lambda>r. \<forall>x. r = Some x \<longrightarrow> x \<in> set slots \<and> P (sc_threads s ! x))"
  using assms by (induction slots) (auto elim: returns_mono)

lemma requeue_all_running_sim:
  "sched_inv s \<Longrightarrow> \<forall>x \<in> set slots. x < MAX_THREADS \<Longrightarrow>
   sim s (requeue_all_running s slots) (v_requeue_all slots (view s))"
proof (induction slots arbitrary: s)
  case (Cons x xs)
  have "sim s (requeue_running s x id) (v_requeue (view s) x)"
    using Cons.prems by (intro requeue_running_sim) simp_all
  then obtain s1 where s1: "requeue_running s x id = Ok s1" "kept s s1" "view s1 = v_requeue (view s) x"
    by (rule simE)
  have "sim s1 (requeue_all_running s1 xs) (v_requeue_all xs (view s1))"
    using Cons.prems s1(2) by (intro Cons.IH) simp_all
  from sim_trans [OF s1(2) this] s1 show ?case
    by (simp add: v_requeue_all_def)
qed (simp add: kept_refl sim_Ok v_requeue_all_def)

lemma bootstrap_slot_ok:
  assumes "sched_inv s" "sc_thread_count s \<le> MAX_THREADS"
  shows "returns (bootstrap_slot s) (\<lambda>r. \<forall>x. r = Some x \<longrightarrow>
    x < sc_thread_count s \<and> th_id (sc_threads s ! x) = sc_bootstrap_thread_id s)"
  using find_thread_ok [of s "[0 ..< sc_thread_count s]"] assms
  by (auto simp: bootstrap_slot_def elim!: returns_mono)

lemma restore_bootstrap_sim:
  assumes inv: "sched_inv s" and count: "sc_thread_count s \<le> MAX_THREADS"
  shows "returns (restore_bootstrap_as_current s) (\<lambda>s'. sched_inv s' \<and> ids s' = ids s \<and>
    (if bootstrap_slot s = Ok None then s' = s
     else \<exists>x < sc_thread_count s. bootstrap_slot s = Ok (Some x) \<and>
       view s' = v_activate (v_requeue_all [0 ..< sc_thread_count s] (view s)) x))"
proof -
  from bootstrap_slot_ok [OF assms] obtain r where r: "bootstrap_slot s = Ok r"
    and below: "\<forall>x. r = Some x \<longrightarrow> x < sc_thread_count s"
    by (auto elim!: returnsE)
  show ?thesis
  proof (cases r)
    case None
    with r inv show ?thesis by (simp add: restore_bootstrap_as_current_def)
  next
    case (Some x)
    with below count have x: "x < sc_thread_count s" "x < MAX_THREADS" by simp_all
    have "sim s (requeue_all_running s [0 ..< sc_thread_count s]) (v_requeue_all [0 ..< sc_thread_count s] (view s))"
      using inv count by (intro requeue_all_running_sim) auto
    then obtain s1 where s1: "requeue_all_running s [0 ..< sc_thread_count s] = Ok s1" "kept s s1"
        "view s1 = v_requeue_all [0 ..< sc_thread_count s] (view s)"
      by (rule simE)
    from unqueue_sim [OF kept_inv [OF s1(2)] x(2)] obtain s2
      where s2: "unqueue s1 x = Ok s2" "kept s1 s2" "view s2 = v_drop (view s1) x"
      by (rule simE)
    have inv2: "sched_inv s2" using s2 by simp
    let ?s3 = "s2\<lparr>sc_threads := (sc_threads s2)[x := mark_dispatched (sc_threads s2 ! x)]\<rparr>"
    have k3: "kept s2 ?s3"
      using inv2 x by (intro kept_set_thread) simp_all
    moreover have "ids ?s3 = ids s"
      using kept_ids [OF s1(2)] kept_ids [OF s2(2)] kept_ids [OF k3] by simp
    moreover have "restore_bootstrap_as_current s = Ok (?s3\<lparr>sc_current_slot := Some x\<rparr>)"
      using r Some s1(1) s2(1) inv2 x by (simp add: restore_bootstrap_as_current_def)
    moreover have "view (?s3\<lparr>sc_current_slot := Some x\<rparr>) = v_activate (view s1) x"
      using inv2 x s2(3) by (simp add: v_activate_def v_set_def)
    ultimately show ?thesis
      using x s1(3) r Some by auto
  qed
qed

lemma activate_thread_slot_sim:
  assumes inv: "sched_inv s" and count: "sc_thread_count s \<le> MAX_THREADS"
    and go: "sc_initialized s" "x < sc_thread_count s"
  shows "returns (activate_thread_slot s x) (\<lambda>s'. sched_inv s' \<and>
    view s' = (if sc_current_slot s = Some x then view s else v_activate (v_requeue_current (view s)) x))"
proof (cases "sc_current_slot s = Some x")
  case True
  with inv go show ?thesis by (simp add: activate_thread_slot_def)
next
  case False
  have x: "x < MAX_THREADS" using count go by simp
  have "sim s (case sc_current_slot s of None \<Rightarrow> Ok s | Some slot \<Rightarrow> requeue_running s slot id)
      (v_requeue_current (view s))"
    using inv by (auto simp: kept_refl sim_Ok v_requeue_current_def sched_inv_current
        intro!: requeue_running_sim split: option.splits)
  then obtain s1 where s1: "(case sc_current_slot s of None \<Rightarrow> Ok s | Some slot \<Rightarrow> requeue_running s slot id) = Ok s1"
      "kept s s1" "view s1 = v_requeue_current (view s)"
    by (rule simE)
  from unqueue_sim [OF kept_inv [OF s1(2)] x] obtain s2
    where s2: "unqueue s1 x = Ok s2" "kept s1 s2" "view s2 = v_drop (view s1) x"
    by (rule simE)
  have inv2: "sched_inv s2" using s2 by simp
  let ?s3 = "s2\<lparr>sc_current_slot := Some x, sc_threads := (sc_threads s2)[x := (sc_threads s2 ! x)\<lparr>th_state := Running\<rparr>]\<rparr>"
  have "sched_inv ?s3"
    using inv2 x by (intro make_current_inv) simp_all
  moreover have "view ?s3 = v_activate (view s1) x"
    using inv2 x s2(3) view_set_thread [of "s2\<lparr>sc_current_slot := Some x\<rparr>" x] by (simp add: v_activate_def)
  moreover have "activate_thread_slot s x = Ok (?s3\<lparr>sc_context_switches := sat_add (sc_context_switches s2) 1\<rparr>)"
    using False go s1(1) s2(1) inv2 x by (simp add: activate_thread_slot_def)
  ultimately show ?thesis
    using False s1(3) by simp
qed

text \<open>
  The exit loop on the view: \<open>group_of x\<close> says whether slot \<open>x\<close> belongs to the exiting group.
\<close>

definition v_exit :: "(nat \<Rightarrow> bool) \<Rightarrow> nat list \<Rightarrow> sched_view \<Rightarrow> sched_view" where
  "v_exit group_of slots v =
     fold (\<lambda>x v. if group_of x \<and> v_state v x \<noteq> Exited then v_drop (v_set v x Exited) x else v) slots v"

definition in_group :: "scheduler \<Rightarrow> u64 \<Rightarrow> nat \<Rightarrow> bool" where
  "in_group s gid x = (th_thread_group_id (sc_threads s ! x) = gid)"

lemma in_group_kept:
  "sched_inv s \<Longrightarrow> kept s s' \<Longrightarrow> x < MAX_THREADS \<Longrightarrow> in_group s' gid x = in_group s gid x"
  using kept_key [of s s' x] by (simp add: in_group_def th_key_def)

lemma v_exit_cong: "\<forall>x \<in> set slots. f x = g x \<Longrightarrow> v_exit f slots v = v_exit g slots v"
  unfolding v_exit_def by (intro fold_cong) auto

lemma exit_loop_sim:
  "sched_inv s \<Longrightarrow> \<forall>x \<in> set slots. x < MAX_THREADS \<Longrightarrow>
   returns (exit_loop s gid slots n) (\<lambda>(s', k). kept s s' \<and> view s' = v_exit (in_group s gid) slots (view s))"
proof (induction slots arbitrary: s n)
  case (Cons x xs)
  let ?t = "(sc_threads s ! x)\<lparr>th_state := Exited\<rparr>"
  let ?s = "s\<lparr>sc_threads := (sc_threads s)[x := ?t]\<rparr>"
  have x: "x < MAX_THREADS" using Cons.prems by simp
  have k: "kept s ?s"
    using Cons.prems x by (intro kept_set_thread) simp_all
  from unqueue_sim [OF kept_inv [OF k] x] obtain s2
    where s2: "unqueue ?s x = Ok s2" "kept ?s s2" "view s2 = v_drop (view ?s) x"
    by (rule simE)
  have k2: "kept s s2" using k s2(2) by (rule kept_trans)
  have rest: "returns (exit_loop s2 gid xs (n + 1)) (\<lambda>(s', k). kept s2 s' \<and> view s' = v_exit (in_group s2 gid) xs (view s2))"
    using Cons.prems k2 by (intro Cons.IH) simp_all
  have same: "v_exit (in_group s2 gid) xs v = v_exit (in_group s gid) xs v" for v
    using Cons.prems k2 by (intro v_exit_cong ballI in_group_kept) simp_all
  from rest have go: "returns (exit_loop s2 gid xs (n + 1))
      (\<lambda>(s', k). kept s s' \<and> view s' = v_exit (in_group s gid) xs (v_drop (v_set (view s) x Exited) x))"
    by (rule returns_mono) (use k2 s2(3) same x Cons.prems in \<open>auto intro: kept_trans\<close>)
  have skip: "returns (exit_loop s gid xs n) (\<lambda>(s', k). kept s s' \<and> view s' = v_exit (in_group s gid) xs (view s))"
    using Cons.prems by (intro Cons.IH) simp_all
  show ?case
  proof (cases "in_group s gid x \<and> th_state (sc_threads s ! x) \<noteq> Exited")
    case True
    then show ?thesis
      using go Cons.prems x s2(1) by (simp add: in_group_def v_exit_def)
  next
    case False
    then show ?thesis
      using skip Cons.prems x by (auto simp: in_group_def v_exit_def)
  qed
qed (simp add: kept_refl v_exit_def)

lemma request_exit_group_sim:
  assumes inv: "sched_inv s" and count: "sc_thread_count s \<le> MAX_THREADS"
  shows "returns (request_exit_group s status) (\<lambda>(s', r). sched_inv s' \<and>
    (case r of
       None \<Rightarrow> s' = s \<and> (\<forall>c. sc_initialized s \<and> sc_current_slot s = Some c \<longrightarrow>
         th_state (sc_threads s ! c) = Exited \<or> th_thread_group_id (sc_threads s ! c) = 0)
     | Some _ \<Rightarrow> \<exists>c. sc_initialized s \<and> sc_current_slot s = Some c \<and> th_state (sc_threads s ! c) \<noteq> Exited \<and>
         view s' = v_dispatch (v_exit (in_group s (th_thread_group_id (sc_threads s ! c)))
                     [0 ..< sc_thread_count s] (view s))))"
proof (cases "sc_initialized s \<and> sc_current_slot s \<noteq> None")
  case False
  with inv show ?thesis by (auto simp: request_exit_group_def)
next
  case True
  then obtain c where c: "sc_initialized s" "sc_current_slot s = Some c" by auto
  then have cb: "c < MAX_THREADS" using inv by (simp add: sched_inv_current)
  let ?t = "sc_threads s ! c" and ?g = "th_thread_group_id (sc_threads s ! c)"
  show ?thesis
  proof (cases "th_state ?t = Exited \<or> ?g = 0")
    case True
    with inv c cb show ?thesis by (auto simp: request_exit_group_def)
  next
    case False
    then have live: "th_state ?t \<noteq> Exited" "?g \<noteq> 0" by simp_all
    have "returns (exit_loop s ?g [0 ..< sc_thread_count s] 0) (\<lambda>(s', k). kept s s' \<and>
        view s' = v_exit (in_group s ?g) [0 ..< sc_thread_count s] (view s))"
      using inv count by (intro exit_loop_sim) auto
    then obtain s1 n where s1: "exit_loop s ?g [0 ..< sc_thread_count s] 0 = Ok (s1, n)" "kept s s1"
        "view s1 = v_exit (in_group s ?g) [0 ..< sc_thread_count s] (view s)"
      by (auto elim!: returnsE)
    have inv1: "sched_inv s1" "sc_current_slot s1 = Some c"
      using s1(2) c by (simp_all add: kept_def)
    have "th_thread_group_id (sc_threads s1 ! c) = ?g"
      using in_group_kept [OF inv s1(2) cb, of ?g] by (simp add: in_group_def)
    note unfold = request_exit_group_def c live thread_at_ok [OF sched_inv_wf [OF inv] cb] s1(1)
      inv1(2) thread_at_ok [OF sched_inv_wf [OF inv1(1)] cb] this
    let ?s2 = "s1\<lparr>sc_current_slot := None\<rparr>"
    have inv2: "sched_inv ?s2" using inv1 by simp
    show ?thesis
    proof (cases "queue s1 0")
      case Nil
      with inv2 have "sc_runqueue_bitmap s1 = 0"
        by (simp add: bitmap_zero_iff inv1)
      with inv2 Nil show ?thesis
        by (simp add: unfold v_dispatch_def flip: s1(3))
    next
      case (Cons x xs)
      then have q2: "queue ?s2 0 = x # xs" by simp
      from dequeue_sim [OF inv2 q2] obtain s3 where s3: "dequeue ?s2 0 = Ok (s3, Some x)" "kept ?s2 s3"
        and v3: "view s3 = (view ?s2)\<lparr>v_ready := xs\<rparr>" and x: "x < MAX_THREADS" .
      have inv3: "sched_inv s3" using s3 by simp
      let ?s4 = "s3\<lparr>sc_current_slot := Some x, sc_threads := (sc_threads s3)[x := (sc_threads s3 ! x)\<lparr>th_state := Running\<rparr>]\<rparr>"
      have "sched_inv ?s4"
        using inv3 x by (intro make_current_inv) simp_all
      moreover have "view ?s4 = v_dispatch (view s1)"
        using inv3 x v3 Cons view_set_thread [of "s3\<lparr>sc_current_slot := Some x\<rparr>" x] by (simp add: v_dispatch_def)
      ultimately show ?thesis
        using best_is_ready [OF inv2] q2 s3(1) x inv3 by (simp add: unfold flip: s1(3))
    qed
  qed
qed

lemma next_switch_index_eq:
  assumes inv: "sched_inv s"
  shows "next_switch_index s = Ok (if sc_initialized s \<and> queue s 0 \<noteq> [] \<and> Some (hd (queue s 0)) \<noteq> sc_current_slot s
    then Some (hd (queue s 0)) else None)"
proof (cases "sc_initialized s \<and> queue s 0 \<noteq> []")
  case False
  then show ?thesis by (auto simp: next_switch_index_def bitmap_zero_iff [OF inv])
next
  case True
  then obtain x xs where q: "queue s 0 = x # xs"
    by (cases "queue s 0") auto
  have wf: "queues_wf s" using inv by simp
  have zero: "0 < MAX_PRIORITIES" by (simp add: sched_bounds)
  have d: "0 < sc_runqueue_depths s ! 0" "length (sc_runqueues s ! 0) = MAX_THREADS"
    using length_queue [OF wf zero] q wf zero by (auto simp: queues_wf_def)
  have "sc_runqueues s ! 0 ! 0 = queue s 0 ! 0"
    using d zero by (simp add: queue_def)
  then show ?thesis
    using True d wf q best_is_ready [OF inv]
    by (simp add: next_switch_index_def queues_wf_def sched_bounds)
qed

lemma context_switch_pair_sim:
  assumes inv: "sched_inv s"
  shows "returns (context_switch_pair s) (\<lambda>(s', r). sched_inv s' \<and>
    (case r of
       None \<Rightarrow> s' = s
     | Some (a, b, d) \<Rightarrow> sc_initialized s \<and> queue s 0 \<noteq> [] \<and> sc_current_slot s = Some a \<and>
         b = hd (queue s 0) \<and> a \<noteq> b \<and> view s' = v_dispatch (v_requeue_current (view s))))"
proof (cases "\<exists>c x xs. sc_initialized s \<and> sc_current_slot s = Some c \<and> queue s 0 = x # xs \<and> x \<noteq> c")
  case False
  then have "context_switch_pair s = Ok (s, None)"
    using inv by (cases "queue s 0") (auto simp: context_switch_pair_def next_switch_index_eq split: option.splits)
  with inv show ?thesis by simp
next
  case True
  then obtain c x xs where c: "sc_initialized s" "sc_current_slot s = Some c" and q: "queue s 0 = x # xs" "x \<noteq> c"
    by blast
  have b: "c < MAX_THREADS" "x < MAX_THREADS"
    using inv c q queue_mem(1) [of s x 0] by (simp_all add: sched_inv_current)
  have "sim s (requeue_running s c id) (v_requeue_current (view s))"
    using requeue_running_sim [OF inv b(1), of id] c by (simp add: v_requeue_current_def)
  then obtain s1 where s1: "requeue_running s c id = Ok s1" "kept s s1" "view s1 = v_requeue_current (view s)"
    by (rule simE)
  have inv1: "sched_inv s1" using s1 by simp
  have "queue s1 0 = v_ready (v_requeue_current (view s))"
    by (simp flip: s1(3))
  then obtain ys where q1: "queue s1 0 = x # ys"
    using c q by (auto simp: v_defs split: if_splits)
  from dequeue_sim [OF inv1 q1] obtain s2 where s2: "dequeue s1 0 = Ok (s2, Some x)" "kept s1 s2"
    and v2: "view s2 = (view s1)\<lparr>v_ready := ys\<rparr>" .
  have inv2: "sched_inv s2" using s2 by simp
  let ?s3 = "s2\<lparr>sc_current_slot := Some x, sc_threads := (sc_threads s2)[x := mark_dispatched (sc_threads s2 ! x)],
      sc_context_switches := sat_add (sc_context_switches s2) 1\<rparr>"
  have inv3: "sched_inv ?s3"
    using make_current_inv [OF inv2 b(2), of "mark_dispatched (sc_threads s2 ! x)"] inv2 b by simp
  have v3: "view ?s3 = v_dispatch (view s1)"
    using inv2 b v2 q1 view_set_thread [of "s2\<lparr>sc_current_slot := Some x\<rparr>" x] by (simp add: v_dispatch_def)
  from prepare_resume_slot_sim [OF inv3 b(2)] obtain s4
    where s4: "prepare_resume_slot ?s3 x = Ok s4" "kept ?s3 s4" "view s4 = view ?s3"
    by (rule simE)
  have inv4: "sched_inv s4" using s4 by simp
  with s4(3) v3 show ?thesis
    using inv inv1 inv2 b q
    by (simp add: context_switch_pair_def c next_switch_index_eq s1(1,3) s2 s4(1) dispatch_snapshot_def
        split_pair_def Let_def)
qed

definition v_yield :: "sched_view \<Rightarrow> sched_view" where
  "v_yield v = (let v = v_requeue_current v in if v_ready v = [] then v else v_dispatch v)"

text \<open>The tail of a yield: make the slot current, call the hook, count and prepare the stack.\<close>

lemma resume_next_sim:
  assumes inv: "sched_inv s" and x: "x < MAX_THREADS"
  shows "returns
    (and_then (update_thread (s\<lparr>sc_current_slot := Some x\<rparr>) x mark_dispatched) (\<lambda>s.
     and_then (call_hook s x) (\<lambda>s.
     and_then (prepare_resume_slot (s\<lparr>sc_context_switches := sat_add (sc_context_switches s) 1\<rparr>) x) (\<lambda>s.
     Ok (s, Some x))))) (\<lambda>(s', r). sched_inv s' \<and> view s' = v_set ((view s)\<lparr>v_current := Some x\<rparr>) x Running)"
proof -
  let ?s3 = "s\<lparr>sc_current_slot := Some x, sc_threads := (sc_threads s)[x := mark_dispatched (sc_threads s ! x)]\<rparr>"
  have inv3: "sched_inv ?s3"
    using inv x by (intro make_current_inv) simp_all
  have v3: "view ?s3 = v_set ((view s)\<lparr>v_current := Some x\<rparr>) x Running"
    using inv x view_set_thread [of "s\<lparr>sc_current_slot := Some x\<rparr>" x] by simp
  from call_hook_sim [OF inv3 x] obtain s4 where s4: "call_hook ?s3 x = Ok s4" "kept ?s3 s4" "view s4 = view ?s3"
    by (rule simE)
  let ?s5 = "s4\<lparr>sc_context_switches := sat_add (sc_context_switches s4) 1\<rparr>"
  have inv5: "sched_inv ?s5" using s4 by simp
  from prepare_resume_slot_sim [OF inv5 x] obtain s6
    where s6: "prepare_resume_slot ?s5 x = Ok s6" "kept ?s5 s6" "view s6 = view ?s5"
    by (rule simE)
  have "sched_inv s6" "view s6 = view ?s3"
    using s6 s4(3) by simp_all
  with inv x s4(1) s6(1) v3 show ?thesis
    by simp
qed

definition yield_rest :: "scheduler \<Rightarrow> nat \<Rightarrow> (scheduler \<times> nat option) checked" where
  "yield_rest s c =
     (if MAX_PRIORITIES \<le> trailing_zeros (sc_runqueue_bitmap s) then Ok (s, None)
      else
        and_then (dequeue s (trailing_zeros (sc_runqueue_bitmap s))) (\<lambda>(s, got).
        case got of
          None \<Rightarrow> Abort
        | Some next_slot \<Rightarrow>
            if next_slot = c then
              and_then (update_thread s c (\<lambda>t. t\<lparr>th_state := Running\<rparr>)) (\<lambda>s. Ok (s, None))
            else
              and_then (update_thread (s\<lparr>sc_current_slot := Some next_slot\<rparr>) next_slot mark_dispatched) (\<lambda>s.
              and_then (call_hook s next_slot) (\<lambda>s.
              and_then (prepare_resume_slot
                (s\<lparr>sc_context_switches := sat_add (sc_context_switches s) 1\<rparr>) next_slot) (\<lambda>s.
              Ok (s, Some next_slot))))))"

lemma yield_rest_sim:
  assumes inv: "sched_inv s" and c: "sc_current_slot s = Some c"
  shows "returns (yield_rest s c) (\<lambda>(s', r). sched_inv s' \<and>
    view s' = (if queue s 0 = [] then view s else v_dispatch (view s)))"
proof (cases "queue s 0")
  case Nil
  then have "sc_runqueue_bitmap s = 0" by (simp add: bitmap_zero_iff [OF inv])
  with inv Nil show ?thesis by (simp add: yield_rest_def MAX_PRIORITIES_def)
next
  case (Cons x xs)
  from dequeue_sim [OF inv Cons] obtain s2 where s2: "dequeue s 0 = Ok (s2, Some x)" "kept s s2"
    and v2: "view s2 = (view s)\<lparr>v_ready := xs\<rparr>" and x: "x < MAX_THREADS" .
  have inv2: "sched_inv s2" using s2 by simp
  note unfold = yield_rest_def best_is_ready [OF inv] s2(1) v_dispatch_def MAX_PRIORITIES_def
  show ?thesis
  proof (cases "x = c")
    case True
    have "sched_inv (s2\<lparr>sc_threads := (sc_threads s2)[x := (sc_threads s2 ! x)\<lparr>th_state := Running\<rparr>]\<rparr>)"
      using inv2 x by (intro sched_inv_set_thread) simp_all
    moreover have "(view s)\<lparr>v_ready := xs, v_current := Some c\<rparr> = (view s)\<lparr>v_ready := xs\<rparr>"
      using c by (simp add: view_def)
    ultimately show ?thesis
      using True Cons inv2 x v2 by (simp add: unfold)
  next
    case False
    with resume_next_sim [OF inv2 x] Cons v2 show ?thesis
      by (simp add: unfold)
  qed
qed

lemma yield_sim:
  assumes inv: "sched_inv s"
  shows "returns (yield_current_user_thread s rsp)
    (\<lambda>(s', r). sched_inv s' \<and> (s' = s \<or> view s' = v_yield (view s)))"
proof (cases "\<exists>c. sc_initialized s \<and> sc_current_slot s = Some c \<and> th_role (sc_threads s ! c) = User \<and>
    th_state (sc_threads s ! c) \<noteq> Exited")
  case False
  then have "yield_current_user_thread s rsp = Ok (s, None)"
    using inv by (auto simp: yield_current_user_thread_def sched_inv_current split: option.splits)
  with inv show ?thesis by simp
next
  case True
  then obtain c where c: "sc_initialized s" "sc_current_slot s = Some c" "th_role (sc_threads s ! c) = User"
      "th_state (sc_threads s ! c) \<noteq> Exited"
    by blast
  then have cb: "c < MAX_THREADS" using inv by (simp add: sched_inv_current)
  let ?t = "sc_threads s ! c"
  let ?u = "?t\<lparr>th_context := (th_context ?t)\<lparr>tc_rsp := rsp\<rparr>\<rparr>"
  let ?s0 = "s\<lparr>sc_threads := (sc_threads s)[c := ?u]\<rparr>"
  have k0: "kept s ?s0"
    using inv cb by (intro kept_set_thread) simp_all
  have v0: "view ?s0 = view s"
    using inv cb by (simp add: v_set_same)
  have "sim ?s0 (requeue_running ?s0 c id) (v_requeue_current (view s))"
    using requeue_running_sim [OF kept_inv [OF k0] cb, of id] c v0 by (simp add: v_requeue_current_def)
  then obtain s1 where s1: "requeue_running ?s0 c id = Ok s1" "kept ?s0 s1" "view s1 = v_requeue_current (view s)"
    by (rule simE)
  have inv1: "sched_inv s1" using s1 by simp
  have "sc_current_slot s1 = Some c"
    using s1(2) c by (simp add: kept_def)
  from yield_rest_sim [OF inv1 this] have "returns (yield_rest s1 c) (\<lambda>(s', r). sched_inv s' \<and> view s' = v_yield (view s))"
    by (simp add: v_yield_def Let_def flip: s1(3))
  moreover have "yield_current_user_thread s rsp = yield_rest s1 c"
    using inv cb by (simp add: yield_current_user_thread_def c s1(1) yield_rest_def Let_def)
  ultimately show ?thesis
    by (auto elim!: returns_mono)
qed

text \<open>A new thread in slot \<open>x\<close>, as spawn and fork make it.\<close>

definition v_new :: "sched_view \<Rightarrow> nat \<Rightarrow> sched_view" where
  "v_new v x = v_push (v_set (v\<lparr>v_count := v_count v + 1\<rparr>) x Runnable) x"

text \<open>Only the thread in slot \<open>n\<close> is a different one.\<close>

definition others :: "scheduler \<Rightarrow> scheduler \<Rightarrow> nat \<Rightarrow> bool" where
  "others s s' n \<longleftrightarrow> sc_initialized s' = sc_initialized s \<and>
     sc_bootstrap_thread_id s' = sc_bootstrap_thread_id s \<and> sc_idle_thread_id s' = sc_idle_thread_id s \<and>
     (\<forall>i < MAX_THREADS. i \<noteq> n \<longrightarrow> th_key (sc_threads s' ! i) = th_key (sc_threads s ! i))"

lemma others_refl: "others s s n"
  by (simp add: others_def)

lemma others_kept: "sched_inv s1 \<Longrightarrow> kept s1 s2 \<Longrightarrow> others s s1 n \<Longrightarrow> others s s2 n"
  using kept_key [of s1 s2] by (simp add: others_def kept_def)

lemma create_thread_ok:
  assumes inv: "sched_inv s" and room: "sc_thread_count s < MAX_THREADS"
  shows "returns (create_thread env s name role identity) (\<lambda>(s', slot). sched_inv s' \<and> slot = sc_thread_count s \<and>
    others s s' slot \<and> view s' = v_set ((view s)\<lparr>v_count := sc_thread_count s + 1\<rparr>) slot Runnable)"
proof -
  let ?s = "s\<lparr>sc_next_thread_id := sat_add (sc_next_thread_id s) 1\<rparr>" and ?n = "sc_thread_count s"
  have "sched_inv (?s\<lparr>sc_threads := (sc_threads s)[?n := t]\<rparr>)" if "th_base_priority t = 0" for t
    using that room inv sched_inv_set_thread [of ?s ?n t] by simp
  moreover have "view (?s\<lparr>sc_threads := (sc_threads s)[?n := t]\<rparr>) = v_set (view s) ?n (th_state t)" for t
    using room inv view_set_thread [of ?s ?n t] by simp
  ultimately show ?thesis
    using room inv by (simp add: create_thread_def Let_def v_set_def others_def)
qed

lemma create_user_thread_sim:
  assumes inv: "sched_inv s" and res: "create_user_thread env s page_table = (s', r)"
  shows "r \<noteq> Abort \<and> sched_inv s' \<and> others s s' (sc_thread_count s) \<and>
    view s' = (if sc_initialized s \<and> sc_thread_count s < MAX_THREADS then v_new (view s) (sc_thread_count s) else view s)"
proof (cases "sc_initialized s \<and> sc_thread_count s < MAX_THREADS")
  case False
  have full: "create_thread env s name role identity = Fail ThreadTableFull"
    if "\<not> sc_thread_count s < MAX_THREADS" for name role identity
    using that by (simp add: create_thread_def)
  show ?thesis
  proof (cases "sc_initialized s")
    case True
    with False full inv res show ?thesis by (auto simp: create_user_thread_def others_refl)
  next
    case uninit: False
    with inv res show ?thesis by (auto simp: create_user_thread_def others_refl)
  qed
next
  case True
  let ?id = "\<lparr>pi_process_id = sc_next_thread_id s, pi_parent_process_id = 0,
    pi_thread_group_id = sc_next_thread_id s\<rparr>" and ?n = "sc_thread_count s"
  have n: "?n < MAX_THREADS" using True by simp
  obtain s1 where s1: "create_thread env s ''user-init'' User ?id = Ok (s1, ?n)" "sched_inv s1"
      "view s1 = v_set ((view s)\<lparr>v_count := ?n + 1\<rparr>) ?n Runnable" "others s s1 ?n"
    using create_thread_ok [OF inv n, of env "''user-init''" User ?id] by (auto elim!: returnsE)
  let ?t = "(sc_threads s1 ! ?n)\<lparr>th_context := initialize_user_thread
    (ev_user_stacks env + of_nat ?n * KERNEL_STACK_SIZE) KERNEL_STACK_SIZE page_table\<rparr>"
  let ?s2 = "s1\<lparr>sc_threads := (sc_threads s1)[?n := ?t]\<rparr>"
  have k2: "kept s1 ?s2"
    using s1 n by (intro kept_set_thread) simp_all
  then have inv2: "sched_inv ?s2" by simp
  have o2: "others s ?s2 ?n"
    using s1(2) k2 s1(4) by (rule others_kept)
  have v2: "view ?s2 = view s1"
    using s1(2) n by (simp add: v_set_same)
  have new: "v_new (view s) ?n = v_push (view ?s2) ?n"
    by (simp add: v2 s1(3) v_new_def)
  note unfold = create_user_thread_def True s1(1) update_thread_ok [OF sched_inv_wf [OF s1(2)] n]
  show ?thesis
  proof (cases "length (queue ?s2 0) < MAX_THREADS")
    case True
    then obtain s3 where s3: "enqueue ?s2 ?n = Ok s3" "kept ?s2 s3" "view s3 = v_push (view ?s2) ?n"
      using enqueue_ok [OF inv2 n] by (auto elim: simE)
    have "sched_inv s3" using s3 by simp
    have "others s s3 ?n"
      using inv2 s3(2) o2 by (rule others_kept)
    from \<open>sched_inv s3\<close> have "r = Ok (th_id (sc_threads s3 ! ?n), th_process_id (sc_threads s3 ! ?n)) \<and> s' = s3"
      using res n s3(1) by (auto simp: unfold)
    with \<open>sched_inv s3\<close> \<open>others s s3 ?n\<close> s3(3) n \<open>sc_initialized s \<and> _\<close> show ?thesis
      unfolding new by simp
  next
    case False
    then have "r = Fail RunQueueFull \<and> s' = ?s2"
      using enqueue_ok [OF inv2 n] res by (auto simp: unfold)
    moreover have "v_push (view ?s2) ?n = view ?s2"
      using False by (simp add: v_push_def)
    ultimately show ?thesis
      using inv2 o2 n \<open>sc_initialized s \<and> _\<close> unfolding new by simp
  qed
qed

lemma fork_child_thread [simp]:
  "th_base_priority (fork_child t i c) = th_base_priority t" "th_state (fork_child t i c) = Runnable"
  by (simp_all add: fork_child_def)

definition free_slot :: "scheduler \<Rightarrow> nat option" where
  "free_slot s = find_index (\<lambda>t. th_state t = Unused) (sc_threads s)"

lemma fork_current_thread_sim:
  assumes inv: "sched_inv s" and res: "fork_current_thread env s = (s', r)"
  shows "r \<noteq> Abort \<and> sched_inv s' \<and>
    (case free_slot s of
       Some k \<Rightarrow>
         if sc_initialized s \<and> sc_current_slot s \<noteq> None then
           if ev_clone_space env (ev_cr3 env) = 0 then r = Fail ThreadTableFull \<and>
             view s' = (view s)\<lparr>v_count := sc_thread_count s + 1\<rparr>
           else view s' = v_new (view s) k
         else s' = s
     | None \<Rightarrow> s' = s)"
proof (cases "sc_current_slot s = None \<or> \<not> sc_initialized s \<or> free_slot s = None")
  case True
  with inv res show ?thesis
    by (auto simp: fork_current_thread_def free_slot_def split: option.splits if_splits)
next
  case False
  then obtain c k where c: "sc_current_slot s = Some c" "sc_initialized s" and k: "free_slot s = Some k"
    by auto
  have b: "c < MAX_THREADS" "k < MAX_THREADS"
    using inv c k find_index_SomeD [of "\<lambda>t. th_state t = Unused" "sc_threads s" k]
    by (simp_all add: sched_inv_current free_slot_def)
  let ?s = "s\<lparr>sc_next_thread_id := sat_add (sc_next_thread_id s) 1, sc_thread_count := sc_thread_count s + 1\<rparr>"
  let ?cr3 = "ev_clone_space env (ev_cr3 env)"
  let ?t = "fork_child (sc_threads s ! c) (sc_next_thread_id s) ?cr3"
  let ?s1 = "?s\<lparr>sc_threads := (sc_threads s)[k := ?t]\<rparr>"
  have invs: "sched_inv ?s" using inv by simp
  have inv1: "sched_inv ?s1"
    using sched_inv_set_thread [OF invs b(2), of ?t] inv b by simp
  have v1: "view ?s1 = v_set ((view s)\<lparr>v_count := sc_thread_count s + 1\<rparr>) k Runnable"
    using view_set_thread [of ?s k ?t] inv b by simp
  from enqueue_ignored_sim [OF inv1 b(2)] obtain s2
    where s2: "enqueue_ignored ?s1 k = Ok s2" "kept ?s1 s2" "view s2 = v_push (view ?s1) k"
    by (rule simE)
  have inv2: "sched_inv s2" using s2 by simp
  note unfold = fork_current_thread_def c k [unfolded free_slot_def] Let_def thread_at_ok [OF sched_inv_wf [OF invs] b(1)]
  show ?thesis
  proof (cases "?cr3 = 0")
    case True
    with res invs k c show ?thesis by (auto simp: unfold)
  next
    case False
    then have "s' = s2 \<and> r = Ok (sc_next_thread_id s)"
      using res s2(1) b inv by (auto simp: unfold)
    with False inv2 s2(3) v1 k c show ?thesis by (simp add: v_new_def)
  qed
qed

lemma reap_loop_sim:
  "sched_inv s \<Longrightarrow> \<forall>x \<in> set slots. x < MAX_THREADS \<Longrightarrow>
   returns (reap_loop s pid target slots b) (\<lambda>(s', r). sched_inv s' \<and>
     (s' = s \<or> (\<exists>x < MAX_THREADS. th_state (sc_threads s ! x) = Exited \<and>
        view s' = v_set ((view s)\<lparr>v_count := (if v_count (view s) = 0 then usize_max else v_count (view s) - 1)\<rparr>) x Unused)))"
proof (induction slots arbitrary: b)
  case (Cons x xs)
  then have x: "x < MAX_THREADS" by simp
  let ?s = "s\<lparr>sc_threads := (sc_threads s)[x := (sc_threads s ! x)\<lparr>th_state := Unused\<rparr>]\<rparr>"
  have "sched_inv ?s"
    using Cons.prems x by (intro sched_inv_set_thread) simp_all
  moreover have "view (?s\<lparr>sc_thread_count := k\<rparr>) = v_set ((view s)\<lparr>v_count := k\<rparr>) x Unused" for k
    using Cons.prems x by (simp add: v_set_def)
  ultimately show ?case
    using Cons x by auto
qed simp

definition v_block :: "sched_view \<Rightarrow> sched_view" where
  "v_block v = (case v_current v of Some x \<Rightarrow> if v_state v x = Running then v_set v x Blocked else v | None \<Rightarrow> v)"

lemma block_current_thread_sim: "sched_inv s \<Longrightarrow> sim s (block_current_thread s) (v_block (view s))"
  by (auto simp: block_current_thread_def v_block_def kept_refl sim_Ok sched_inv_current
      intro!: kept_set_thread split: option.splits)

lemma unblock_loop_sim:
  "sched_inv s \<Longrightarrow> \<forall>x \<in> set slots. x < MAX_THREADS \<Longrightarrow>
   returns (unblock_loop s pid tid v slots) (\<lambda>(s', r). sched_inv s' \<and>
     (if r then \<exists>x < MAX_THREADS. th_state (sc_threads s ! x) = Blocked \<and> view s' = v_push (v_set (view s) x Runnable) x
      else s' = s))"
proof (induction slots)
  case (Cons x xs)
  let ?s = "s\<lparr>sc_frame_rax := (sc_frame_rax s)(tc_rsp (th_context (sc_threads s ! x)) \<mapsto> v)\<rparr>"
  let ?t = "(sc_threads s ! x)\<lparr>th_state := Runnable\<rparr>"
  let ?s1 = "?s\<lparr>sc_threads := (sc_threads s)[x := ?t]\<rparr>"
  have x: "x < MAX_THREADS" "sched_inv ?s" using Cons.prems by simp_all
  have inv1: "sched_inv ?s1"
    using sched_inv_set_thread [OF x(2,1), of ?t] Cons.prems by simp
  have v1: "view ?s1 = v_set (view s) x Runnable"
    using view_set_thread [of ?s x ?t] Cons.prems by simp
  from enqueue_ignored_sim [OF inv1 x(1)] obtain s2
    where s2: "enqueue_ignored ?s1 x = Ok s2" "kept ?s1 s2" "view s2 = v_push (view ?s1) x"
    by (rule simE)
  have "sched_inv s2" using s2 by simp
  with Cons x s2(1,3) v1 show ?case by auto
qed simp

lemma set_fd_table_sim: "sched_inv s \<Longrightarrow> sim s (set_fd_table s tbl) (view s)"
  by (auto simp: set_fd_table_def kept_refl sim_Ok sched_inv_current v_set_same
      intro!: kept_set_thread split: option.splits)

lemma resume_ptr_sim:
  "sched_inv s \<Longrightarrow> returns (current_context_ptr_for_resume s) (\<lambda>(s', r). sched_inv s' \<and> view s' = view s)"
  by (auto simp: current_context_ptr_for_resume_def prepare_resume_slot_def sched_inv_current split: option.splits)

lemma find_thread_Some:
  assumes "sched_inv s" "\<forall>x \<in> set slots. x < MAX_THREADS" "y \<in> set slots" "P (sc_threads s ! y)"
  shows "find_thread s P slots \<noteq> Ok None"
  using assms by (induction slots) auto

text \<open>The thread the boot path switches to exists and is never the bootstrap thread itself.\<close>

lemma initial_target:
  assumes inv: "sched_inv s" and count: "sc_thread_count s \<le> MAX_THREADS" and init: "sc_initialized s"
    and b: "th_id (sc_threads s ! b) = sc_bootstrap_thread_id s" "th_state (sc_threads s ! b) = Exited"
    and i: "i < sc_thread_count s" "th_id (sc_threads s ! i) = sc_idle_thread_id s"
  shows "returns (and_then (first_runnable_user_slot s) (\<lambda>user.
      case user of Some u \<Rightarrow> Ok (Some u) | None \<Rightarrow> idle_slot s))
    (\<lambda>r. \<exists>x. r = Some x \<and> x < sc_thread_count s \<and> x \<noteq> b)"
proof -
  have slots: "\<forall>x \<in> set [0 ..< sc_thread_count s]. x < MAX_THREADS"
    using count by auto
  have "returns (first_runnable_user_slot s) (\<lambda>r. \<forall>x. r = Some x \<longrightarrow> x < sc_thread_count s \<and> x \<noteq> b)"
    unfolding first_runnable_user_slot_def
    by (rule returns_mono [OF find_thread_ok [OF inv slots]]) (use b(2) in auto)
  then obtain u where u: "first_runnable_user_slot s = Ok u" "\<forall>x. u = Some x \<longrightarrow> x < sc_thread_count s \<and> x \<noteq> b"
    by (rule returnsE)
  have "returns (idle_slot s) (\<lambda>r. \<forall>x. r = Some x \<longrightarrow> x < sc_thread_count s \<and> x \<noteq> b)"
    unfolding idle_slot_def
    by (rule returns_mono [OF find_thread_ok [OF inv slots]]) (use b(1) inv init in \<open>auto simp: sched_inv_def\<close>)
  then obtain d where d: "idle_slot s = Ok d" "\<forall>x. d = Some x \<longrightarrow> x < sc_thread_count s \<and> x \<noteq> b"
    by (rule returnsE)
  have "d \<noteq> None"
    using find_thread_Some [OF inv slots, of i "\<lambda>t. th_id t = sc_idle_thread_id s"] i d(1) by (auto simp: idle_slot_def)
  with u d show ?thesis
    by (cases u) auto
qed

definition v_start :: "sched_view \<Rightarrow> nat \<Rightarrow> nat \<Rightarrow> sched_view" where
  "v_start v b x = (let v = v_set v b Exited
     in if v_current v = Some x then v else v_activate (v_requeue_current v) x)"

lemma initial_context_pair_sim:
  assumes inv: "sched_inv s" and count: "sc_thread_count s \<le> MAX_THREADS" and init: "sc_initialized s"
    and b: "bootstrap_slot s = Ok (Some b)"
    and i: "i < sc_thread_count s" "th_id (sc_threads s ! i) = sc_idle_thread_id s"
  shows "returns (initial_context_pair s) (\<lambda>(s', c, x). sched_inv s' \<and> c = b \<and> b \<noteq> x \<and>
    x < sc_thread_count s \<and> view s' = v_start (view s) b x)"
proof -
  have bb: "b < MAX_THREADS" "th_id (sc_threads s ! b) = sc_bootstrap_thread_id s"
    using bootstrap_slot_ok [OF inv count] b count by auto
  define s1 where "s1 = s\<lparr>sc_threads := (sc_threads s)[b := (sc_threads s ! b)\<lparr>th_state := Exited\<rparr>]\<rparr>"
  have k1: "kept s s1"
    unfolding s1_def using inv bb by (intro kept_set_thread) simp_all
  then have inv1: "sched_inv s1" "sc_thread_count s1 = sc_thread_count s" "sc_initialized s1"
      "sc_idle_thread_id s1 = sc_idle_thread_id s"
    using init by (simp_all add: kept_def)
  have v1: "view s1 = v_set (view s) b Exited"
    using inv bb by (simp add: s1_def)
  have c1: "sc_thread_count s1 \<le> MAX_THREADS" using inv1(2) count by simp
  have t1: "th_id (sc_threads s1 ! b) = sc_bootstrap_thread_id s1" "th_state (sc_threads s1 ! b) = Exited"
    using inv bb by (simp_all add: s1_def)
  have i1: "i < sc_thread_count s1" "th_id (sc_threads s1 ! i) = sc_idle_thread_id s1"
    using kept_key [OF inv k1, of i] i count inv1(2,4) by (simp_all add: th_key_def)
  from initial_target [OF inv1(1) c1 inv1(3) t1 i1] inv1(2) obtain u x
    where t: "first_runnable_user_slot s1 = Ok u" "(case u of Some x \<Rightarrow> Ok (Some x) | None \<Rightarrow> idle_slot s1) = Ok (Some x)"
      and x: "x < sc_thread_count s" "x \<noteq> b"
    by (auto elim!: returnsE)
  have xm: "x < MAX_THREADS" using x count by simp
  have "v_start (view s) b x =
      (if sc_current_slot s1 = Some x then view s1 else v_activate (v_requeue_current (view s1)) x)"
    by (simp add: v_start_def Let_def flip: v1)
  with activate_thread_slot_sim [OF inv1(1) c1 inv1(3), of x] inv1(2) x(1) obtain s2
    where s2: "activate_thread_slot s1 x = Ok s2" "sched_inv s2" "view s2 = v_start (view s) b x"
    by (auto elim!: returnsE)
  show ?thesis
    using inv bb x xm s2
    by (simp add: initial_context_pair_def b t split_pair_def prepare_resume_slot_def flip: s1_def)
qed

end
