(* ===== verification/SchedRun.thy ===== *)
theory SchedRun
  imports SchedInv
begin

text \<open>
  Runs of the scheduler: the operations as one step function, the abstract step relation they
  refine, the invariant of orderly runs, round-robin fairness and the end of a thread group; and the
  behaviour of the thread table after a child has been reaped.
\<close>

section \<open>Operations and runs\<close>

datatype sched_op =
    OpTick | OpSwitch | OpExit "32 word" | OpYield u64 | OpResume | OpSetFds "nat option list" | OpFork
  | OpReap u64 int | OpBlock | OpUnblock u64 u64 u64 | OpSpawn u64 | OpRestore | OpStart

text \<open>
  The scheduler after one call, whatever the call answered.  A panic of the call is the panic of the
  step; \<^verbatim>\<open>idle_loop\<close> turns an error of \<^verbatim>\<open>initial_context_pair\<close> into a panic.
\<close>

definition after_call :: "scheduler \<times> 'a checked \<Rightarrow> scheduler checked" where
  "after_call r = (case r of (s, Inl Panic) \<Rightarrow> Abort | (s, _) \<Rightarrow> Ok s)"

definition state_of :: "(scheduler \<times> 'a) checked \<Rightarrow> scheduler checked" where
  "state_of r = and_then r (\<lambda>(s, _). Ok s)"

fun sched_step :: "sched_env \<Rightarrow> scheduler \<Rightarrow> sched_op \<Rightarrow> scheduler checked" where
  "sched_step env s OpTick = state_of (on_timer_tick s)"
| "sched_step env s OpSwitch = state_of (context_switch_pair s)"
| "sched_step env s (OpExit status) = state_of (request_exit_group s status)"
| "sched_step env s (OpYield rsp) = state_of (yield_current_user_thread s rsp)"
| "sched_step env s OpResume = state_of (current_context_ptr_for_resume s)"
| "sched_step env s (OpSetFds tbl) = set_fd_table s tbl"
| "sched_step env s OpFork = after_call (fork_current_thread env s)"
| "sched_step env s (OpReap pid target) = state_of (reap_child s pid target)"
| "sched_step env s OpBlock = block_current_thread s"
| "sched_step env s (OpUnblock pid tid v) = state_of (unblock_thread_with_result s pid tid v)"
| "sched_step env s (OpSpawn page_table) = after_call (create_user_thread env s page_table)"
| "sched_step env s OpRestore = restore_bootstrap_as_current s"
| "sched_step env s OpStart = (case initial_context_pair s of Inl _ \<Rightarrow> Abort | Inr (s, _) \<Rightarrow> Ok s)"

fun sched_run :: "sched_env \<Rightarrow> scheduler \<Rightarrow> sched_op list \<Rightarrow> scheduler checked" where
  "sched_run env s [] = Ok s"
| "sched_run env s (op # ops) = and_then (sched_step env s op) (\<lambda>s. sched_run env s ops)"

text \<open>
  \<^verbatim>\<open>bootstrap\<close>: the threads are created, the timer ticks \<open>n\<close> times, the bootstrap thread is
  restored.  The waiting loop of the source ends when at least three ticks were counted.
\<close>

definition sched_bootstrap :: "sched_env \<Rightarrow> nat \<Rightarrow> scheduler checked" where
  "sched_bootstrap env n =
     and_then (initialize_bootstrap_threads env scheduler_new) (\<lambda>s.
     sched_run env s (replicate n OpTick @ [OpRestore]))"

text \<open>
  The life of the scheduler: bootstrap, the creation of user threads by the boot code, the switch
  away from the bootstrap thread in \<^verbatim>\<open>idle_loop\<close>, and then any sequence of operations.
\<close>

definition sched_life :: "sched_env \<Rightarrow> nat \<Rightarrow> u64 list \<Rightarrow> sched_op list \<Rightarrow> scheduler checked" where
  "sched_life env n page_tables ops =
     and_then (sched_bootstrap env n) (\<lambda>s. sched_run env s (map OpSpawn page_tables @ OpStart # ops))"

section \<open>The abstract steps\<close>

inductive v_step :: "sched_view \<Rightarrow> sched_view \<Rightarrow> bool" where
  stay: "v_step v v"
| dispatch: "v_step v (v_dispatch (v_requeue_current v))"
| yield: "v_step v (v_yield v)"
| exit: "v_current v = Some c \<Longrightarrow> g c \<Longrightarrow> v_step v (v_dispatch (v_exit g [0 ..< v_count v] v))"
| spawn: "v_count v < MAX_THREADS \<Longrightarrow> v_step v (v_new v (v_count v))"
| fork: "v_state v k = Unused \<Longrightarrow> k < MAX_THREADS \<Longrightarrow> (\<And>j. j < k \<Longrightarrow> v_state v j \<noteq> Unused) \<Longrightarrow>
    v_step v (v_new v k)"
| block: "v_step v (v_block v)"
| unblock: "v_state v x = Blocked \<Longrightarrow> x < MAX_THREADS \<Longrightarrow> v_step v (v_push (v_set v x Runnable) x)"
| restore: "x < v_count v \<Longrightarrow> v_step v (v_activate (v_requeue_all [0 ..< v_count v] v) x)"
| start: "b < v_count v \<Longrightarrow> x < v_count v \<Longrightarrow> b \<noteq> x \<Longrightarrow> v_state v b \<noteq> Runnable \<Longrightarrow> v_step v (v_start v b x)"

text \<open>The steps that break the order of the table, with the calls they come from.\<close>

inductive v_disorder :: "sched_view \<Rightarrow> sched_view \<Rightarrow> bool" where
  reap: "v_state v x = Exited \<Longrightarrow> x < MAX_THREADS \<Longrightarrow>
    v_disorder v (v_set (v\<lparr>v_count := (if v_count v = 0 then usize_max else v_count v - 1)\<rparr>) x Unused)"
| leak: "v_disorder v (v\<lparr>v_count := v_count v + 1\<rparr>)"
| start_queued: "v_state v b = Runnable \<Longrightarrow> v_disorder v (v_start v b x)"

section \<open>Steps of the model are safe and refine the abstract steps\<close>

lemma returns_state_of: "returns r (\<lambda>(s, x). P s) \<Longrightarrow> returns (state_of r) P"
  by (auto simp: state_of_def elim!: returns_mono)

lemma after_call_ok: "r \<noteq> Abort \<Longrightarrow> after_call (s, r) = Ok s"
  by (auto simp: after_call_def split: sum.splits failure.splits)

definition orderly :: "sched_env \<Rightarrow> sched_op \<Rightarrow> bool" where
  "orderly env op = (case op of
     OpReap pid target \<Rightarrow> False
   | OpStart \<Rightarrow> False
   | OpFork \<Rightarrow> ev_clone_space env (ev_cr3 env) \<noteq> 0
   | _ \<Rightarrow> True)"

definition refines :: "sched_env \<Rightarrow> scheduler \<Rightarrow> sched_op \<Rightarrow> scheduler \<Rightarrow> bool" where
  "refines env s op s' \<longleftrightarrow> sched_inv s' \<and>
     (v_step (view s) (view s') \<or> (\<not> orderly env op \<and> v_disorder (view s) (view s')))"

lemma refines_tick: "sched_inv s \<Longrightarrow> returns (sched_step env s OpTick) (refines env s OpTick)"
  unfolding sched_step.simps
  by (rule returns_state_of, rule returns_mono [OF on_timer_tick_sim])
    (use v_step.dispatch [of "view s"] v_step.stay [of "view s"] in
      \<open>auto simp: refines_def v_tick_def split: if_splits\<close>)

lemma refines_switch: "sched_inv s \<Longrightarrow> returns (sched_step env s OpSwitch) (refines env s OpSwitch)"
  unfolding sched_step.simps
  by (rule returns_state_of, rule returns_mono [OF context_switch_pair_sim])
    (auto simp: refines_def split: option.splits intro: v_step.intros)

lemma refines_exit:
  assumes "sched_inv s" "sc_thread_count s \<le> MAX_THREADS"
  shows "returns (sched_step env s (OpExit status)) (refines env s (OpExit status))"
  unfolding sched_step.simps
proof (rule returns_state_of, rule returns_mono [OF request_exit_group_sim [OF assms]], clarify)
  fix s' r
  assume "sched_inv s'" and *: "case r of None \<Rightarrow> s' = s \<and> (\<forall>c. sc_initialized s \<and> sc_current_slot s = Some c \<longrightarrow>
         th_state (sc_threads s ! c) = Exited \<or> th_thread_group_id (sc_threads s ! c) = 0)
     | Some _ \<Rightarrow> \<exists>c. sc_initialized s \<and> sc_current_slot s = Some c \<and> th_state (sc_threads s ! c) \<noteq> Exited \<and>
         view s' = v_dispatch (v_exit (in_group s (th_thread_group_id (sc_threads s ! c)))
                     [0 ..< sc_thread_count s] (view s))"
  moreover have "v_step (view s) (v_dispatch (v_exit (in_group s (th_thread_group_id (sc_threads s ! c)))
      [0 ..< sc_thread_count s] (view s)))" if "sc_current_slot s = Some c" for c
    using v_step.exit [of "view s" c "in_group s (th_thread_group_id (sc_threads s ! c))"] that
    by (simp add: in_group_def)
  ultimately show "refines env s (OpExit status) s'"
    by (auto simp: refines_def split: option.splits intro: v_step.stay)
qed

lemma refines_yield: "sched_inv s \<Longrightarrow> returns (sched_step env s (OpYield rsp)) (refines env s (OpYield rsp))"
  unfolding sched_step.simps
  by (rule returns_state_of, rule returns_mono [OF yield_sim])
    (auto simp: refines_def intro: v_step.intros)

lemma refines_resume: "sched_inv s \<Longrightarrow> returns (sched_step env s OpResume) (refines env s OpResume)"
  unfolding sched_step.simps
  by (rule returns_state_of, rule returns_mono [OF resume_ptr_sim])
    (auto simp: refines_def intro: v_step.stay)

lemma refines_set_fds: "sched_inv s \<Longrightarrow> returns (sched_step env s (OpSetFds tbl)) (refines env s (OpSetFds tbl))"
  using set_fd_table_sim [of s tbl]
  by (auto simp: sim_def refines_def elim!: returns_mono intro: v_step.stay)

lemma refines_block: "sched_inv s \<Longrightarrow> returns (sched_step env s OpBlock) (refines env s OpBlock)"
  using block_current_thread_sim [of s]
  by (auto simp: sim_def refines_def elim!: returns_mono intro: v_step.block)

lemma refines_fork:
  assumes inv: "sched_inv s" shows "returns (sched_step env s OpFork) (refines env s OpFork)"
proof -
  obtain s' r where res: "fork_current_thread env s = (s', r)" by fastforce
  note sim = fork_current_thread_sim [OF inv res]
  have new: "v_step (view s) (v_new (view s) k)" if "free_slot s = Some k" for k
  proof (rule v_step.fork)
    note k = find_index_SomeD [OF that [unfolded free_slot_def]]
    show "k < MAX_THREADS" "v_state (view s) k = Unused"
      using k inv by simp_all
    show "v_state (view s) j \<noteq> Unused" if "j < k" for j
      using k inv that by simp
  qed
  show ?thesis
    using sim new v_disorder.leak [of "view s"]
    by (auto simp: res after_call_ok refines_def orderly_def split: option.splits if_splits intro: v_step.stay)
qed

lemma refines_spawn:
  assumes inv: "sched_inv s" shows "returns (sched_step env s (OpSpawn pt)) (refines env s (OpSpawn pt))"
proof -
  obtain s' r where res: "create_user_thread env s pt = (s', r)" by fastforce
  from create_user_thread_sim [OF inv res] v_step.spawn [of "view s"] show ?thesis
    by (auto simp: res after_call_ok refines_def split: if_splits intro: v_step.stay)
qed

lemma refines_reap: "sched_inv s \<Longrightarrow> returns (sched_step env s (OpReap pid target)) (refines env s (OpReap pid target))"
  unfolding sched_step.simps reap_child_def
  by (rule returns_state_of, rule returns_mono [OF reap_loop_sim])
    (use v_disorder.reap [of "view s"] in \<open>auto simp: refines_def orderly_def intro: v_step.stay\<close>)

lemma refines_unblock:
  "sched_inv s \<Longrightarrow> returns (sched_step env s (OpUnblock pid tid v)) (refines env s (OpUnblock pid tid v))"
  unfolding sched_step.simps unblock_thread_with_result_def
  by (rule returns_state_of, rule returns_mono [OF unblock_loop_sim])
    (use v_step.unblock [of "view s"] in \<open>auto simp: refines_def split: if_splits intro: v_step.stay\<close>)

lemma refines_restore:
  "sched_inv s \<Longrightarrow> sc_thread_count s \<le> MAX_THREADS \<Longrightarrow> returns (sched_step env s OpRestore) (refines env s OpRestore)"
  unfolding sched_step.simps
  by (rule returns_mono [OF restore_bootstrap_sim])
    (auto simp: refines_def split: if_splits intro: v_step.stay v_step.restore [of _ "view s", simplified])

lemma sched_step_refines:
  assumes "sched_inv s" "sc_thread_count s \<le> MAX_THREADS" "op \<noteq> OpStart"
  shows "returns (sched_step env s op) (refines env s op)"
  using assms
  by (cases op)
    (simp_all only: not_False_eq_True not_True_eq_False simp_thms refines_tick refines_switch refines_exit refines_yield refines_resume refines_set_fds
      refines_block refines_fork refines_spawn refines_reap refines_unblock refines_restore sched_op.distinct)

section \<open>Orderly runs\<close>

text \<open>
  \<open>core v\<close>: the used slots are the first \<open>v_count v\<close>, and the ready list holds every runnable slot
  exactly once.  \<open>tidy v\<close> adds that only the current slot runs; between requeuing the current slot and
  dispatching the next one nothing runs (\<open>quiet\<close>).
\<close>

definition core :: "sched_view \<Rightarrow> bool" where
  "core v \<longleftrightarrow> v_count v \<le> MAX_THREADS \<and> (\<forall>i. (v_state v i \<noteq> Unused) = (i < v_count v)) \<and>
     distinct (v_ready v) \<and> set (v_ready v) = {i. v_state v i = Runnable} \<and>
     (\<forall>c. v_current v = Some c \<longrightarrow> c < v_count v)"

definition tidy :: "sched_view \<Rightarrow> bool" where
  "tidy v \<longleftrightarrow> core v \<and> (\<forall>i. v_state v i = Running \<longrightarrow> v_current v = Some i)"

definition quiet :: "sched_view \<Rightarrow> bool" where
  "quiet v \<longleftrightarrow> core v \<and> (\<forall>i. v_state v i \<noteq> Running)"

lemma quiet_tidy: "quiet v \<Longrightarrow> tidy v"
  by (simp add: quiet_def tidy_def)

lemma tidy_core: "tidy v \<Longrightarrow> core v"
  by (simp add: tidy_def)

lemma ready_below: "core v \<Longrightarrow> set (v_ready v) \<subseteq> {..< v_count v}"
proof
  fix i assume "core v" "i \<in> set (v_ready v)"
  then have "v_state v i \<noteq> Unused" by (simp add: core_def)
  with \<open>core v\<close> show "i \<in> {..< v_count v}" by (simp add: core_def)
qed

text \<open>There is always room for a slot that is not ready yet.\<close>

lemma ready_room:
  assumes "core v" "x < MAX_THREADS" "x \<notin> set (v_ready v)"
  shows "length (v_ready v) < MAX_THREADS"
proof -
  have "set (v_ready v) \<subseteq> {..< MAX_THREADS} - {x}"
    using ready_below [OF assms(1)] assms by (fastforce simp: core_def)
  then have "card (set (v_ready v)) \<le> card ({..< MAX_THREADS} - {x})"
    by (intro card_mono) auto
  then show ?thesis
    using assms distinct_card [of "v_ready v"] by (simp add: core_def)
qed

lemma core_used: "core v \<Longrightarrow> v_state v x \<noteq> Unused \<Longrightarrow> x < v_count v"
  by (simp add: core_def)

lemma core_make_ready:
  assumes v: "core v" and x: "x < v_count v" "v_state v x \<noteq> Runnable"
  shows "core (v_push (v_set v x Runnable) x)"
proof -
  have "x \<notin> set (v_ready v)" "x < MAX_THREADS"
    using v x by (auto simp: core_def)
  with ready_room [OF v this(2,1)] v x show ?thesis
    by (auto simp: core_def v_push_def v_set_def)
qed

lemma v_push_fields [simp]:
  "v_state (v_push v x) = v_state v" "v_current (v_push v x) = v_current v" "v_count (v_push v x) = v_count v"
  by (simp_all add: v_push_def)

lemma v_set_fields [simp]:
  "v_state (v_set v x st) = (v_state v)(x := st)" "v_current (v_set v x st) = v_current v"
  "v_count (v_set v x st) = v_count v" "v_ready (v_set v x st) = v_ready v"
  by (simp_all add: v_set_def)

lemma core_requeue: "core v \<Longrightarrow> core (v_requeue v x)"
  using core_make_ready [of v x] core_used [of v x] by (simp add: v_requeue_def)

lemma requeue_state: "v_state (v_requeue v x) = (if v_state v x = Running then (v_state v)(x := Runnable) else v_state v)"
  by (simp add: v_requeue_def)

lemma requeue_fields [simp]: "v_count (v_requeue v x) = v_count v" "v_current (v_requeue v x) = v_current v"
  by (simp_all add: v_requeue_def)

lemma quiet_requeue_current: "tidy v \<Longrightarrow> quiet (v_requeue_current v)"
proof -
  assume v: "tidy v"
  then have "core (v_requeue_current v)"
    by (simp add: v_requeue_current_def tidy_core core_requeue split: option.split)
  moreover have "v_state (v_requeue_current v) i \<noteq> Running" for i
  proof (cases "v_state v i = Running")
    case True
    with v have "v_current v = Some i" by (simp add: tidy_def)
    then show ?thesis by (simp add: v_requeue_current_def requeue_state)
  next
    case False
    then show ?thesis by (simp add: v_requeue_current_def requeue_state split: option.split)
  qed
  ultimately show ?thesis by (simp add: quiet_def)
qed

lemma requeue_all_Cons: "v_requeue_all (x # xs) v = v_requeue_all xs (v_requeue v x)"
  by (simp add: v_requeue_all_def)

lemma requeue_all_props:
  "core v \<Longrightarrow> core (v_requeue_all xs v) \<and> v_count (v_requeue_all xs v) = v_count v \<and>
   (\<forall>i. v_state (v_requeue_all xs v) i = Running \<longrightarrow> v_state v i = Running \<and> i \<notin> set xs)"
proof (induction xs arbitrary: v)
  case (Cons x xs)
  from Cons.IH [OF core_requeue [OF Cons.prems, of x]] show ?case
    by (auto simp: requeue_all_Cons requeue_state split: if_splits)
qed (simp add: v_requeue_all_def)

lemma quiet_requeue_all: "tidy v \<Longrightarrow> quiet (v_requeue_all [0 ..< v_count v] v)"
proof -
  assume v: "tidy v"
  note props = requeue_all_props [OF tidy_core [OF v], of "[0 ..< v_count v]"]
  have "v_state v i = Running \<Longrightarrow> i < v_count v" for i
    using v by (auto simp: tidy_def core_def)
  with props show ?thesis
    by (auto simp: quiet_def)
qed

lemma tidy_dispatch: "quiet v \<Longrightarrow> tidy (v_dispatch v)"
proof (cases "v_ready v")
  case Nil
  assume "quiet v"
  with Nil show ?thesis by (auto simp: quiet_def tidy_def core_def v_dispatch_def)
next
  case (Cons x xs)
  assume q: "quiet v"
  then have "v_state v x = Runnable" "x \<notin> set xs" "distinct xs" "insert x (set xs) = {i. v_state v i = Runnable}"
    using Cons by (auto simp: quiet_def core_def)
  then have "set xs = {i. ((v_state v)(x := Running)) i = Runnable}" "x < v_count v"
    using q by (auto simp: quiet_def core_def)
  with q Cons \<open>distinct xs\<close> show ?thesis
    by (auto simp: quiet_def tidy_def core_def v_dispatch_def)
qed

lemma tidy_activate: "quiet v \<Longrightarrow> x < v_count v \<Longrightarrow> tidy (v_activate v x)"
  by (auto simp: quiet_def tidy_def core_def v_activate_def v_drop_def)

lemma tidy_yield: "tidy v \<Longrightarrow> tidy (v_yield v)"
  using quiet_requeue_current [of v] by (simp add: v_yield_def Let_def tidy_dispatch quiet_tidy)

text \<open>The exit loop empties the ready list of the group and marks its slots exited.\<close>

lemma v_exit_eq:
  "distinct (v_ready v) \<Longrightarrow> distinct slots \<Longrightarrow>
   v_exit g slots v = v\<lparr>v_state := (\<lambda>i. if i \<in> set slots \<and> g i then Exited else v_state v i),
     v_ready := filter (\<lambda>i. \<not> (i \<in> set slots \<and> g i \<and> v_state v i \<noteq> Exited)) (v_ready v)\<rparr>"
proof (induction slots arbitrary: v)
  case Nil
  then show ?case by (simp add: v_exit_def)
next
  case (Cons x xs)
  define w where "w = (if g x \<and> v_state v x \<noteq> Exited then v_drop (v_set v x Exited) x else v)"
  have state: "v_state w = (\<lambda>i. if i = x \<and> g x then Exited else v_state v i)"
    by (auto simp: w_def v_drop_def fun_eq_iff)
  have ready: "v_ready w = filter (\<lambda>i. \<not> (i = x \<and> g x \<and> v_state v x \<noteq> Exited)) (v_ready v)"
    using Cons.prems by (auto simp: w_def v_drop_def distinct_remove1_removeAll removeAll_filter_not_eq intro: filter_cong)
  have rest: "v_current w = v_current v" "v_count w = v_count v"
    by (simp_all add: w_def v_drop_def)
  have "v_exit g (x # xs) v = v_exit g xs w"
    by (simp add: v_exit_def w_def)
  also have "\<dots> = w\<lparr>v_state := (\<lambda>i. if i \<in> set xs \<and> g i then Exited else v_state w i),
     v_ready := filter (\<lambda>i. \<not> (i \<in> set xs \<and> g i \<and> v_state w i \<noteq> Exited)) (v_ready w)\<rparr>"
    using Cons.prems by (intro Cons.IH) (simp_all add: ready)
  also have "\<dots> = v\<lparr>v_state := (\<lambda>i. if i \<in> set (x # xs) \<and> g i then Exited else v_state v i),
     v_ready := filter (\<lambda>i. \<not> (i \<in> set (x # xs) \<and> g i \<and> v_state v i \<noteq> Exited)) (v_ready v)\<rparr>"
    using Cons.prems(2)
    by (intro sched_view.equality) (auto simp: rest state ready fun_eq_iff intro!: filter_cong)
  finally show ?case .
qed

lemma v_exit_tidy:
  assumes v: "tidy v" and g: "v_current v = Some c" "g c"
  shows "v_exit g [0 ..< v_count v] v = v\<lparr>v_state := (\<lambda>i. if i < v_count v \<and> g i then Exited else v_state v i),
     v_ready := filter (\<lambda>i. \<not> g i) (v_ready v)\<rparr>" and "quiet (v_exit g [0 ..< v_count v] v)"
proof -
  have d: "distinct (v_ready v)" and r: "set (v_ready v) = {i. v_state v i = Runnable}"
    using v by (simp_all add: tidy_def core_def)
  have "\<And>i. i \<in> set (v_ready v) \<Longrightarrow> i < v_count v \<and> v_state v i \<noteq> Exited"
    using ready_below [OF tidy_core [OF v]] r by auto
  then have "filter (\<lambda>i. \<not> (i < v_count v \<and> g i \<and> v_state v i \<noteq> Exited)) (v_ready v) = filter (\<lambda>i. \<not> g i) (v_ready v)"
    by (intro filter_cong) auto
  with v_exit_eq [OF d, of "[0 ..< v_count v]" g]
  show e: "v_exit g [0 ..< v_count v] v = v\<lparr>v_state := (\<lambda>i. if i < v_count v \<and> g i then Exited else v_state v i),
     v_ready := filter (\<lambda>i. \<not> g i) (v_ready v)\<rparr>"
    by simp
  have run: "v_state v i = Running \<Longrightarrow> i = c" for i
    using v g by (simp add: tidy_def)
  have used: "(v_state v i \<noteq> Unused) = (i < v_count v)" for i
    using v by (simp add: tidy_def core_def)
  have ready: "set (filter (\<lambda>i. \<not> g i) (v_ready v)) = {i. (if i < v_count v \<and> g i then Exited else v_state v i) = Runnable}"
  proof (rule set_eqI)
    fix i
    have "v_state v i = Runnable \<Longrightarrow> i < v_count v" using used [of i] by simp
    then show "i \<in> set (filter (\<lambda>i. \<not> g i) (v_ready v)) \<longleftrightarrow>
        i \<in> {i. (if i < v_count v \<and> g i then Exited else v_state v i) = Runnable}"
      by (auto simp: r)
  qed
  have "core (v_exit g [0 ..< v_count v] v)"
    unfolding core_def e using v ready used d by (simp add: tidy_def core_def)
  moreover have "v_state (v_exit g [0 ..< v_count v] v) i \<noteq> Running" for i
    using run [of i] used [of i] g(2) by (auto simp: e)
  ultimately show "quiet (v_exit g [0 ..< v_count v] v)"
    by (simp add: quiet_def)
qed

lemma tidy_new:
  assumes v: "tidy v" and room: "v_count v < MAX_THREADS"
  shows "tidy (v_new v (v_count v))"
proof -
  let ?n = "v_count v"
  have used: "(v_state v i \<noteq> Unused) = (i < ?n)" for i
    using v by (simp add: tidy_def core_def)
  have r: "set (v_ready v) = {i. v_state v i = Runnable}"
    using v by (simp add: tidy_def core_def)
  have n: "v_state v ?n = Unused" using used [of ?n] by simp
  then have fresh: "?n \<notin> set (v_ready v)" by (simp add: r)
  have len: "length (v_ready v) < MAX_THREADS"
    using ready_room [OF tidy_core [OF v] room fresh] .
  have state: "v_state (v_new v ?n) = (v_state v)(?n := Runnable)" "v_count (v_new v ?n) = ?n + 1"
      "v_ready (v_new v ?n) = v_ready v @ [?n]" "v_current (v_new v ?n) = v_current v"
    using len by (simp_all add: v_new_def v_push_def)
  have "(((v_state v)(?n := Runnable)) i \<noteq> Unused) = (i < ?n + 1)" for i
    using used [of i] by auto
  moreover have "set (v_ready v @ [?n]) = {i. ((v_state v)(?n := Runnable)) i = Runnable}"
    using r n by auto
  moreover have "c < ?n + 1" if "v_current v = Some c" for c
    using v that by (auto simp: tidy_def core_def)
  moreover have "v_current v = Some i" if "((v_state v)(?n := Runnable)) i = Running" for i
    using v that by (auto simp: tidy_def split: if_splits)
  ultimately show ?thesis
    using v fresh room by (simp add: tidy_def core_def state)
qed

lemma tidy_set:
  assumes v: "tidy v" and x: "x < v_count v" "v_state v x \<noteq> Runnable" "st \<noteq> Unused" "st \<noteq> Runnable" "st \<noteq> Running"
  shows "tidy (v_set v x st)"
  using assms by (auto simp: tidy_def core_def)

lemma tidy_unblock:
  assumes v: "tidy v" and x: "v_state v x = Blocked"
  shows "tidy (v_push (v_set v x Runnable) x)"
proof -
  have "core (v_push (v_set v x Runnable) x)"
    using v x by (intro core_make_ready core_used) (simp_all add: tidy_core)
  with v x show ?thesis
    by (auto simp: tidy_def)
qed

lemma tidy_start:
  assumes v: "tidy v" and b: "b < v_count v" "x < v_count v" "v_state v b \<noteq> Runnable"
  shows "tidy (v_start v b x)"
proof -
  let ?v = "v_set v b Exited"
  have t: "tidy ?v" using v b by (intro tidy_set) simp_all
  have "v_count (v_requeue_current ?v) = v_count v"
    by (simp add: v_requeue_current_def split: option.split)
  with t b show ?thesis
    by (simp add: v_start_def Let_def tidy_activate quiet_requeue_current)
qed

lemma tidy_step: "v_step v v' \<Longrightarrow> tidy v \<Longrightarrow> tidy v'"
proof (induction rule: v_step.induct)
  case (exit v c g)
  then show ?case by (intro tidy_dispatch v_exit_tidy(2))
next
  case (fork v k)
  have used: "v_state v i \<noteq> Unused \<longleftrightarrow> i < v_count v" for i
    using fork.prems by (simp add: tidy_def core_def)
  then have "k = v_count v"
    using fork.hyps(1) fork.hyps(3) [of "v_count v"] by (cases k "v_count v" rule: linorder_cases) auto
  with fork show ?case by (simp add: tidy_new)
next
  case (block v)
  then show ?case
    by (auto simp: v_block_def tidy_set core_used tidy_core split: option.splits intro!: tidy_set)
next
  case (restore x v)
  then have "v_count (v_requeue_all [0 ..< v_count v] v) = v_count v"
    using requeue_all_props [OF tidy_core] by blast
  with restore show ?case by (intro tidy_activate quiet_requeue_all) simp_all
qed (simp_all add: tidy_dispatch quiet_requeue_current tidy_yield tidy_new tidy_unblock tidy_start)

lemma sched_run_append:
  "sched_run env s (xs @ ys) = and_then (sched_run env s xs) (\<lambda>s. sched_run env s ys)"
proof (induction xs arbitrary: s)
  case (Cons x xs)
  then show ?case by (cases "sched_step env s x") simp_all
qed simp

text \<open>An orderly step from a tidy state returns, and the state stays tidy.\<close>

definition good :: "scheduler \<Rightarrow> bool" where
  "good s \<longleftrightarrow> sched_inv s \<and> tidy (view s)"

lemma good_count: "good s \<Longrightarrow> sc_thread_count s \<le> MAX_THREADS"
  by (simp add: good_def tidy_def core_def)

lemma orderly_step_good:
  assumes "good s" "orderly env op" shows "returns (sched_step env s op) good"
proof -
  have "op \<noteq> OpStart" using assms(2) by (auto simp: orderly_def)
  with sched_step_refines [of s op env] good_count [OF assms(1)] assms
  have "returns (sched_step env s op) (refines env s op)" by (simp add: good_def)
  then show ?thesis
    by (rule returns_mono) (use assms in \<open>auto simp: good_def refines_def intro: tidy_step\<close>)
qed

lemma orderly_run_good:
  "good s \<Longrightarrow> \<forall>op \<in> set ops. orderly env op \<Longrightarrow> returns (sched_run env s ops) good"
proof (induction ops arbitrary: s)
  case (Cons op ops)
  then obtain s1 where "sched_step env s op = Ok s1" "good s1"
    using orderly_step_good [of s env op] by (auto elim: returnsE)
  with Cons show ?case by simp
qed simp

section \<open>Boot\<close>

text \<open>The two boot threads; the bootstrap thread is queued although it is marked running.\<close>

definition boot_view :: sched_view where
  "boot_view = \<lparr>v_state = (\<lambda>_. Unused)(0 := Running, 1 := Runnable), v_ready = [0, 1], v_current = None, v_count = 2\<rparr>"

definition boot_ids :: "scheduler \<Rightarrow> bool" where
  "boot_ids s \<longleftrightarrow> sc_initialized s \<and> sc_bootstrap_thread_id s = 1 \<and> sc_idle_thread_id s = 2 \<and>
     th_key (sc_threads s ! 0) = (1, 1) \<and> th_key (sc_threads s ! 1) = (2, 0)"

lemma scheduler_new_inv: "sched_inv scheduler_new"
proof -
  have "queue scheduler_new p = []" for p
    by (simp add: queue_def scheduler_new_def sched_bounds)
  then show ?thesis
    by (simp add: sched_inv_def queues_wf_def scheduler_new_def thread_empty_def)
qed

lemma boot_threads:
  obtains s1 s2 s3 s4 where
    "create_thread env scheduler_new ''kernel-bootstrap'' Bootstrap
       \<lparr>pi_process_id = 1, pi_parent_process_id = 0, pi_thread_group_id = 1\<rparr> = Ok (s1, 0)"
    "create_thread env s1 ''kernel-idle'' Idle
       \<lparr>pi_process_id = 0, pi_parent_process_id = 0, pi_thread_group_id = 0\<rparr> = Ok (s2, 1)"
    "enqueue s2 0 = Ok s3" "enqueue s3 1 = Ok s4" "sched_inv s2" "kept s2 s4"
    "view s4 = \<lparr>v_state = (\<lambda>_. Unused)(0 := Runnable, 1 := Runnable), v_ready = [0, 1],
       v_current = None, v_count = 2\<rparr>"
    "th_key (sc_threads s2 ! 0) = (1, 1)" "th_key (sc_threads s2 ! 1) = (2, 0)"
proof -
  let ?id1 = "\<lparr>pi_process_id = 1, pi_parent_process_id = 0, pi_thread_group_id = 1\<rparr>"
  let ?id2 = "\<lparr>pi_process_id = 0, pi_parent_process_id = 0, pi_thread_group_id = 0\<rparr>"
  have b: "0 < MAX_THREADS" "1 < MAX_THREADS" "Suc 0 < MAX_THREADS" by (simp_all add: sched_bounds)
  have new: "sc_thread_count scheduler_new = 0" "sc_next_thread_id scheduler_new = 1"
      "view scheduler_new = \<lparr>v_state = (\<lambda>_. Unused), v_ready = [], v_current = None, v_count = 0\<rparr>"
    by (auto simp: view_def scheduler_new_def queue_def thread_empty_def sched_bounds fun_eq_iff)
  obtain s1 where s1: "create_thread env scheduler_new ''kernel-bootstrap'' Bootstrap ?id1 = Ok (s1, 0)" "sched_inv s1"
      "view s1 = v_set ((view scheduler_new)\<lparr>v_count := 1\<rparr>) 0 Runnable"
    using create_thread_ok [OF scheduler_new_inv, of env "''kernel-bootstrap''" Bootstrap ?id1] b new
    by (auto elim!: returnsE)
  have i1: "sc_thread_count s1 = 1" "sc_next_thread_id s1 = 2" "th_key (sc_threads s1 ! 0) = (1, 1)"
    using s1(1) b by (auto simp: th_key_def create_thread_def Let_def new scheduler_new_def sat_add_def)
  obtain s2 where s2: "create_thread env s1 ''kernel-idle'' Idle ?id2 = Ok (s2, 1)" "sched_inv s2"
      "view s2 = v_set ((view s1)\<lparr>v_count := 2\<rparr>) 1 Runnable"
    using create_thread_ok [OF s1(2), of env "''kernel-idle''" Idle ?id2] b i1 by (auto elim!: returnsE)
  have i2: "th_key (sc_threads s2 ! 0) = (1, 1)" "th_key (sc_threads s2 ! 1) = (2, 0)"
    using s2(1) s1(2) b i1 by (auto simp: create_thread_def Let_def th_key_def)
  have q2: "queue s2 0 = []"
    using s1(3) s2(3) new(3) by (simp flip: view_simps(1))
  then obtain s3 where s3: "enqueue s2 0 = Ok s3" "kept s2 s3" "view s3 = v_push (view s2) 0"
    using enqueue_ok [OF s2(2) b(1)] b by (auto elim: simE)
  have q3: "queue s3 0 = [0]"
    using s3(3) q2 b by (simp add: v_push_def flip: view_simps(1))
  then obtain s4 where s4: "enqueue s3 1 = Ok s4" "kept s3 s4" "view s4 = v_push (view s3) 1"
    using enqueue_ok [OF kept_inv [OF s3(2)] b(2)] b by (auto elim: simE)
  have k4: "kept s2 s4" using s3(2) s4(2) by (rule kept_trans)
  have "view s4 = \<lparr>v_state = (\<lambda>_. Unused)(0 := Runnable, 1 := Runnable), v_ready = [0, 1],
       v_current = None, v_count = 2\<rparr>"
    using s4(3) s3(3) s2(3) s1(3) new(3) by (simp add: v_push_def v_set_def sched_bounds)
  from that [OF s1(1) s2(1) s3(1) s4(1) s2(2) k4 this i2] show thesis .
qed

lemma initialize_ok:
  "returns (initialize_bootstrap_threads env s0) (\<lambda>s. sched_inv s \<and> view s = boot_view \<and> boot_ids s)"
proof -
  have b: "0 < MAX_THREADS" "1 < MAX_THREADS" "Suc 0 < MAX_THREADS" by (simp_all add: sched_bounds)
  from boot_threads [of env] obtain s1 s2 s3 s4 where s:
    "create_thread env scheduler_new ''kernel-bootstrap'' Bootstrap
       \<lparr>pi_process_id = 1, pi_parent_process_id = 0, pi_thread_group_id = 1\<rparr> = Ok (s1, 0)"
    "create_thread env s1 ''kernel-idle'' Idle
       \<lparr>pi_process_id = 0, pi_parent_process_id = 0, pi_thread_group_id = 0\<rparr> = Ok (s2, 1)"
    "enqueue s2 0 = Ok s3" "enqueue s3 1 = Ok s4" "sched_inv s2" "kept s2 s4"
    "view s4 = \<lparr>v_state = (\<lambda>_. Unused)(0 := Runnable, 1 := Runnable), v_ready = [0, 1],
       v_current = None, v_count = 2\<rparr>"
    "th_key (sc_threads s2 ! 0) = (1, 1)" "th_key (sc_threads s2 ! 1) = (2, 0)" .
  have inv4: "sched_inv s4" using s(6) by simp
  let ?boot = "(sc_threads s4 ! 0)\<lparr>th_state := Running, th_dispatch_count := 1\<rparr>"
  define s5 where "s5 = s4\<lparr>sc_threads := (sc_threads s4)[0 := ?boot]\<rparr>"
  have k5: "kept s4 s5"
    unfolding s5_def using inv4 b by (intro kept_set_thread) (simp_all add: th_key_def)
  let ?idle = "(sc_threads s5 ! 1)\<lparr>th_state := Runnable,
    th_context := initialize_kernel_thread (th_context (sc_threads s5 ! 1)) (ev_idle_stack env) KERNEL_STACK_SIZE\<rparr>"
  define s6 where "s6 = s5\<lparr>sc_threads := (sc_threads s5)[1 := ?idle]\<rparr>"
  have k6: "kept s5 s6"
    unfolding s6_def using k5 b by (intro kept_set_thread) (simp_all add: th_key_def)
  have k: "kept s2 s6" using s(6) k5 k6 by (blast intro: kept_trans)
  have i6: "th_key (sc_threads s6 ! 0) = (1, 1)" "th_key (sc_threads s6 ! 1) = (2, 0)"
    using kept_key [OF s(5) k, of 0] kept_key [OF s(5) k, of 1] b s(8,9) by simp_all
  then have d6: "th_id (sc_threads s6 ! 0) = 1" "th_id (sc_threads s6 ! 1) = 2"
    by (simp_all add: th_key_def)
  have "view s5 = v_set (view s4) 0 Running"
    unfolding s5_def using inv4 b by simp
  moreover have "view s6 = v_set (view s5) 1 Runnable"
    unfolding s6_def using k5 b by simp
  ultimately have "view s6 = boot_view"
    by (simp add: s v_set_def boot_view_def)
  then have fin: "view (s6\<lparr>sc_initialized := True, sc_bootstrap_thread_id := 1, sc_idle_thread_id := 2\<rparr>) = boot_view"
    by (simp add: view_def cong: if_cong)
  moreover have "sched_inv (s6\<lparr>sc_initialized := True, sc_bootstrap_thread_id := 1, sc_idle_thread_id := 2\<rparr>)"
    using k by (simp add: kept_def sched_inv_def)
  moreover have "initialize_bootstrap_threads env s0 =
      Ok (s6\<lparr>sc_initialized := True, sc_bootstrap_thread_id := 1, sc_idle_thread_id := 2\<rparr>)"
    using s(1-4) inv4 k5 k6 b d6
    by (simp add: initialize_bootstrap_threads_def Let_def flip: s5_def s6_def [unfolded One_nat_def])
  ultimately show ?thesis
    using i6 by (simp add: boot_ids_def)
qed

text \<open>
  The state while the boot code runs: the bootstrap thread is the current one, slots 0 and 1 hold
  the boot threads.
\<close>

definition booted :: "scheduler \<Rightarrow> bool" where
  "booted s \<longleftrightarrow> good s \<and> boot_ids s \<and> 2 \<le> sc_thread_count s \<and> sc_current_slot s = Some 0 \<and>
     th_state (sc_threads s ! 0) = Running"

lemma boot_ids_cong: "ids s' = ids s \<Longrightarrow> sched_inv s \<Longrightarrow> sched_inv s' \<Longrightarrow> boot_ids s \<Longrightarrow> boot_ids s'"
proof -
  assume e: "ids s' = ids s" "sched_inv s" "sched_inv s'" "boot_ids s"
  have "th_key (sc_threads s' ! i) = th_key (sc_threads s ! i)" if "i < MAX_THREADS" for i
  proof -
    have "map th_key (sc_threads s') ! i = map th_key (sc_threads s) ! i"
      using e(1) by (simp add: ids_def)
    then show ?thesis using e that by simp
  qed
  from this [of 0] this [of 1] e show ?thesis
    by (simp add: boot_ids_def ids_def sched_bounds)
qed

lemma tick_boot:
  assumes "sched_inv s" "boot_ids s"
  shows "returns (sched_step env s OpTick) (\<lambda>s'. sched_inv s' \<and> boot_ids s' \<and>
    view s' = v_dispatch (v_requeue_current (view s)))"
proof -
  have "sc_initialized s" using assms by (simp add: boot_ids_def)
  then show ?thesis
    unfolding sched_step.simps
    by (intro returns_state_of returns_mono [OF on_timer_tick_sim [OF assms(1)]])
      (auto simp: v_tick_def intro: boot_ids_cong [OF _ assms(1) _ assms(2)])
qed

lemma dispatch_count [simp]: "v_count (v_dispatch v) = v_count v" "v_count (v_requeue_current v) = v_count v"
  by (simp_all add: v_dispatch_def v_requeue_current_def split: list.split option.split)

text \<open>The first tick makes the table tidy, later ticks keep it so.\<close>

lemma first_tick: "tidy (v_dispatch (v_requeue_current boot_view))"
  by (auto simp: boot_view_def v_defs tidy_def core_def sched_bounds)

lemma boot_ticks:
  assumes "good s" "boot_ids s" "sc_thread_count s = 2"
  shows "returns (sched_run env s (replicate n OpTick)) (\<lambda>s'. good s' \<and> boot_ids s' \<and> sc_thread_count s' = 2)"
  using assms
proof (induction n arbitrary: s)
  case (Suc n)
  from Suc.prems tick_boot [of s env] obtain s1 where s1: "sched_step env s OpTick = Ok s1" "sched_inv s1" "boot_ids s1"
      "view s1 = v_dispatch (v_requeue_current (view s))"
    by (auto simp: good_def elim!: returnsE)
  have "tidy (view s1)"
    using s1(4) Suc.prems by (simp add: good_def tidy_dispatch quiet_requeue_current)
  moreover have "sc_thread_count s1 = 2"
    using arg_cong [OF s1(4), of v_count] Suc.prems by simp
  ultimately have "returns (sched_run env s1 (replicate n OpTick)) (\<lambda>s'. good s' \<and> boot_ids s' \<and> sc_thread_count s' = 2)"
    using s1 by (intro Suc.IH) (simp_all add: good_def)
  with s1(1) show ?case by simp
qed simp

lemma activate_fields [simp]:
  "v_current (v_activate v x) = Some x" "v_state (v_activate v x) x = Running" "v_count (v_activate v x) = v_count v"
  by (simp_all add: v_activate_def v_drop_def)

lemma restore_boot:
  assumes s: "good s" "boot_ids s" "sc_thread_count s = 2"
  shows "returns (sched_step env s OpRestore) (\<lambda>s'. booted s' \<and> sc_thread_count s' = 2)"
proof -
  have inv: "sched_inv s" and t: "tidy (view s)" using s by (simp_all add: good_def)
  have count: "sc_thread_count s \<le> MAX_THREADS" using s by (simp add: sched_bounds)
  have two: "[0 ..< 2] = [0, 1 :: nat]" by (simp add: upt_conv_Cons)
  have "bootstrap_slot s = Ok (Some 0)"
    using s inv by (simp add: bootstrap_slot_def boot_ids_def th_key_def two sched_bounds)
  with restore_bootstrap_sim [OF inv count] obtain s1
    where s1: "restore_bootstrap_as_current s = Ok s1" "sched_inv s1" "ids s1 = ids s"
      and v1: "view s1 = v_activate (v_requeue_all [0 ..< sc_thread_count s] (view s)) 0"
    by (auto elim!: returnsE)
  have q: "quiet (v_requeue_all [0 ..< sc_thread_count s] (view s))"
    using quiet_requeue_all [OF t] by simp
  have n: "v_count (v_requeue_all [0 ..< sc_thread_count s] (view s)) = 2"
    using requeue_all_props [OF tidy_core [OF t]] s(3) by simp
  have "tidy (view s1)"
    unfolding v1 using q n by (intro tidy_activate) simp_all
  moreover have "sc_thread_count s1 = 2" "sc_current_slot s1 = Some 0" "th_state (sc_threads s1 ! 0) = Running"
    using arg_cong [OF v1, of v_count] arg_cong [OF v1, of v_current] n
      arg_cong [OF v1, of "\<lambda>v. v_state v 0"] by (simp_all add: sched_bounds)
  ultimately show ?thesis
    using s1 boot_ids_cong [OF s1(3) inv s1(2) s(2)] by (simp add: booted_def good_def)
qed

lemma sched_bootstrap_ok: "1 \<le> n \<Longrightarrow> returns (sched_bootstrap env n) (\<lambda>s. booted s \<and> sc_thread_count s = 2)"
proof -
  assume "1 \<le> n"
  then obtain k where n: "n = Suc k" by (cases n) auto
  obtain s where s: "initialize_bootstrap_threads env scheduler_new = Ok s" "sched_inv s" "view s = boot_view" "boot_ids s"
    using initialize_ok [of env scheduler_new] by (auto elim!: returnsE)
  obtain s1 where s1: "sched_step env s OpTick = Ok s1" "sched_inv s1" "boot_ids s1"
      "view s1 = v_dispatch (v_requeue_current boot_view)"
    using tick_boot [OF s(2,4), of env] s(3) by (auto elim!: returnsE)
  have "good s1" using s1 first_tick by (simp add: good_def)
  moreover have "sc_thread_count s1 = 2"
    using arg_cong [OF s1(4), of v_count] by (simp add: boot_view_def)
  ultimately obtain s2 where s2: "sched_run env s1 (replicate k OpTick) = Ok s2" "good s2" "boot_ids s2" "sc_thread_count s2 = 2"
    using boot_ticks [of s1 env k] s1(3) by (auto elim!: returnsE)
  from restore_boot [OF s2(2-4)] show ?thesis
    using s(1) s1(1) s2(1) by (simp add: sched_bootstrap_def n sched_run_append)
qed

lemma spawn_booted:
  assumes "booted s" shows "returns (sched_step env s (OpSpawn pt)) booted"
proof -
  have inv: "sched_inv s" and g: "good s" using assms by (simp_all add: booted_def good_def)
  obtain s' r where res: "create_user_thread env s pt = (s', r)" by fastforce
  note sim = create_user_thread_sim [OF inv res]
  have step: "sched_step env s (OpSpawn pt) = Ok s'"
    using sim by (simp add: res after_call_ok)
  have good: "good s'"
    using orderly_step_good [OF g, of env "OpSpawn pt"] step by (simp add: orderly_def)
  have ids: "boot_ids s'"
    using sim assms by (simp add: others_def booted_def boot_ids_def sched_bounds)
  have new: "v_current (v_new v x) = v_current v" "v_state (v_new v x) = (v_state v)(x := Runnable)"
      "v_count (v_new v x) = v_count v + 1" for v x
    by (simp_all add: v_new_def)
  define w where "w = (if sc_initialized s \<and> sc_thread_count s < MAX_THREADS
    then v_new (view s) (sc_thread_count s) else view s)"
  have "view s' = w" using sim by (simp add: w_def)
  moreover have "v_current w = Some 0" "v_state w 0 = Running" "2 \<le> v_count w"
    using assms by (simp_all add: w_def booted_def new sched_bounds)
  ultimately have "sc_current_slot s' = Some 0" "th_state (sc_threads s' ! 0) = Running" "2 \<le> sc_thread_count s'"
    by (auto simp: sched_bounds dest: sym)
  with good ids show ?thesis
    using step by (simp add: booted_def)
qed

lemma spawns_booted: "booted s \<Longrightarrow> returns (sched_run env s (map OpSpawn pts)) booted"
proof (induction pts arbitrary: s)
  case (Cons pt pts)
  then obtain s1 where "sched_step env s (OpSpawn pt) = Ok s1" "booted s1"
    using spawn_booted [of s env pt] by (auto elim: returnsE)
  with Cons.IH show ?case by simp
qed simp

lemma start_good:
  assumes "booted s" shows "returns (sched_step env s OpStart) good"
proof -
  have s: "sched_inv s" "tidy (view s)" "boot_ids s" "2 \<le> sc_thread_count s"
    using assms by (simp_all add: booted_def good_def)
  have count: "sc_thread_count s \<le> MAX_THREADS" using assms by (simp add: booted_def good_count)
  have "[0 ..< sc_thread_count s] = 0 # [1 ..< sc_thread_count s]"
    using s(4) by (simp add: upt_conv_Cons)
  then have b: "bootstrap_slot s = Ok (Some 0)"
    using s by (simp add: bootstrap_slot_def boot_ids_def th_key_def sched_bounds)
  from initial_context_pair_sim [OF s(1) count _ b, of 1] s(3,4) obtain s1 x
    where s1: "initial_context_pair s = Ok (s1, 0, x)" "sched_inv s1" "x < sc_thread_count s"
      "view s1 = v_start (view s) 0 x"
    by (auto simp: boot_ids_def th_key_def elim!: returnsE)
  have "tidy (view s1)"
    unfolding s1(4) using s assms s1(3) by (intro tidy_start) (simp_all add: booted_def sched_bounds)
  with s1 show ?thesis by (simp add: good_def)
qed

section \<open>Properties\<close>


lemma sched_life_good:
  assumes "1 \<le> n" "\<forall>op \<in> set ops. orderly env op"
  shows "returns (sched_life env n pts ops) good"
proof -
  from sched_bootstrap_ok [OF assms(1), of env] obtain s0 where s0: "sched_bootstrap env n = Ok s0" "booted s0"
    by (auto elim!: returnsE)
  from spawns_booted [OF s0(2), of env pts] obtain s1 where s1: "sched_run env s0 (map OpSpawn pts) = Ok s1" "booted s1"
    by (rule returnsE)
  from start_good [OF s1(2), of env] obtain s2 where s2: "sched_step env s1 OpStart = Ok s2" "good s2"
    by (rule returnsE)
  from orderly_run_good [OF s2(2) assms(2)] show ?thesis
    using s0 s1 s2 by (simp add: sched_life_def sched_run_append)
qed

text \<open>
  C4. From boot on, whatever user threads the boot code creates and whatever orderly calls follow, the
  kernel never panics in the scheduler and no thread is lost or duplicated: the used slots are the
  first \<open>sc_thread_count\<close> ones, the ready queue holds every runnable thread exactly once, and at most
  one thread, the current one, is running.
\<close>

theorem sched_life_tidy:
  assumes "unat BOOTSTRAP_TARGET_TICKS \<le> n" and "\<forall>op \<in> set ops. orderly env op"
  shows "\<exists>s. sched_life env n page_tables ops = Ok s \<and> sched_inv s \<and> tidy (view s)"
proof -
  have "1 \<le> n" using assms(1) by (simp add: BOOTSTRAP_TARGET_TICKS_def)
  from sched_life_good [OF this assms(2), of page_tables] show ?thesis
    by (auto simp: good_def elim!: returnsE)
qed

definition sample_env :: "u64 \<Rightarrow> sched_env" where
  "sample_env offset = \<lparr>ev_cr3 = 0x1000, ev_idle_stack = 0x10000, ev_user_stacks = 0x20000,
     ev_clone_space = (\<lambda>c. if offset = 0 then 0 else c + offset)\<rparr>"

theorem sched_life_tidy_witness:
  "\<exists>s. sched_life (sample_env 0x1000) 3 [0x5000] [OpFork, OpTick, OpTick, OpYield 8, OpExit 7, OpSwitch] = Ok s \<and>
     sched_inv s \<and> tidy (view s)"
  by (rule sched_life_tidy) (simp_all add: BOOTSTRAP_TARGET_TICKS_def orderly_def sample_env_def)


lemma tick_good:
  assumes "good s" "sc_initialized s"
  shows "returns (sched_step env s OpTick) (\<lambda>s'. good s' \<and> sc_initialized s' \<and>
    view s' = v_dispatch (v_requeue_current (view s)))"
proof -
  have inv: "sched_inv s" "tidy (view s)" using assms by (simp_all add: good_def)
  show ?thesis
    unfolding sched_step.simps
    by (rule returns_state_of, rule returns_mono [OF on_timer_tick_sim [OF inv(1)]])
      (use assms inv in \<open>auto simp: v_tick_def good_def ids_def tidy_dispatch quiet_requeue_current\<close>)
qed

lemma tick_ready:
  assumes "tidy v" "v_ready v = x # xs"
  shows "v_current (v_dispatch (v_requeue_current v)) = Some x"
    and "\<exists>ys. v_ready (v_dispatch (v_requeue_current v)) = xs @ ys"
  using assms by (auto simp: v_defs split: option.split)



text \<open>
  C33. When a thread group exits in an orderly table, every thread of the group is exited, none of them
  is queued or current afterwards, the other queued threads keep their order, and the first of them is
  the next current thread.
\<close>

theorem exit_group_complete:
  assumes "sched_inv s" and "tidy (view s)" and "sc_initialized s" and "sc_current_slot s = Some c"
    and "th_state (sc_threads s ! c) \<noteq> Exited" and "th_thread_group_id (sc_threads s ! c) = g" and "g \<noteq> 0"
  shows "\<exists>s' r. request_exit_group s status = Ok (s', Some r) \<and>
    (\<forall>i < sc_thread_count s. in_group s g i \<longrightarrow> th_state (sc_threads s' ! i) = Exited) \<and>
    (case filter (\<lambda>i. \<not> in_group s g i) (queue s 0) of
       [] \<Rightarrow> sc_current_slot s' = None \<and> queue s' 0 = []
     | x # xs \<Rightarrow> sc_current_slot s' = Some x \<and> queue s' 0 = xs)"
proof -
  have count: "sc_thread_count s \<le> MAX_THREADS" using assms by (simp add: tidy_def core_def)
  from request_exit_group_sim [OF assms(1) count, of status] assms obtain s' r
    where res: "request_exit_group s status = Ok (s', Some r)"
      and v: "view s' = v_dispatch (v_exit (in_group s g) [0 ..< sc_thread_count s] (view s))"
    by (auto elim!: returnsE split: option.splits)
  have "in_group s g c" using assms by (simp add: in_group_def)
  with v_exit_tidy(1) [OF assms(2), of c "in_group s g"] assms(4)
  have e: "v_exit (in_group s g) [0 ..< sc_thread_count s] (view s) =
      (view s)\<lparr>v_state := (\<lambda>i. if i < sc_thread_count s \<and> in_group s g i then Exited else v_state (view s) i),
        v_ready := filter (\<lambda>i. \<not> in_group s g i) (queue s 0)\<rparr>" by simp
  have "th_state (sc_threads s' ! i) = Exited" if "i < sc_thread_count s" "in_group s g i" for i
  proof -
    have "v_state (view s') i = Exited"
      unfolding v e using that by (auto simp: v_dispatch_def filter_eq_Cons_iff split: list.split)
    then show ?thesis using that count by simp
  qed
  moreover have "sc_current_slot s' = v_current (view s')" "queue s' 0 = v_ready (view s')"
    by simp_all
  ultimately show ?thesis
    using res unfolding v e by (simp add: v_dispatch_def split: list.split)
qed

theorem exit_group_complete_witness:
  "\<exists>s s' r. sched_bootstrap (sample_env 0x1000) 3 = Ok s \<and> request_exit_group s 7 = Ok (s', Some r) \<and>
     th_state (sc_threads s' ! 0) = Exited"
proof -
  obtain s where s: "sched_bootstrap (sample_env 0x1000) 3 = Ok s" "booted s"
    using sched_bootstrap_ok [of 3 "sample_env 0x1000"] by (auto elim!: returnsE)
  have "\<exists>s' r. request_exit_group s 7 = Ok (s', Some r) \<and>
      (\<forall>i < sc_thread_count s. in_group s 1 i \<longrightarrow> th_state (sc_threads s' ! i) = Exited) \<and>
      (case filter (\<lambda>i. \<not> in_group s 1 i) (queue s 0) of
         [] \<Rightarrow> sc_current_slot s' = None \<and> queue s' 0 = []
       | x # xs \<Rightarrow> sc_current_slot s' = Some x \<and> queue s' 0 = xs)"
    using s(2) by (intro exit_group_complete [where c = 0]) (auto simp: booted_def good_def boot_ids_def th_key_def)
  moreover have "in_group s 1 0" "0 < sc_thread_count s"
    using s(2) by (auto simp: booted_def boot_ids_def th_key_def in_group_def)
  ultimately show ?thesis
    using s(1) by blast
qed

section \<open>What a failed fork and a reaped child do to the table\<close>

lemma upt_split_at: "m < n \<Longrightarrow> [0 ..< n] = [0 ..< m] @ m # [m + 1 ..< n]"
  using upt_add_eq_append [of 0 m "n - m"] upt_conv_Cons [of m n] by simp

lemma exit_loop_panics:
  "sched_inv s \<Longrightarrow> \<forall>x \<in> set xs. x < MAX_THREADS \<Longrightarrow> exit_loop s gid (xs @ MAX_THREADS # ys) n = Abort"
proof (induction xs arbitrary: s n)
  case Nil
  then show ?case by (simp add: thread_at_def index_at_def)
next
  case (Cons x xs)
  let ?s = "s\<lparr>sc_threads := (sc_threads s)[x := (sc_threads s ! x)\<lparr>th_state := Exited\<rparr>]\<rparr>"
  have x: "x < MAX_THREADS" using Cons.prems by simp
  have k: "kept s ?s" using Cons.prems by (intro kept_set_thread) simp_all
  from unqueue_sim [OF kept_inv [OF k] x] obtain s2 where "unqueue ?s x = Ok s2" "sched_inv s2"
    by (auto elim!: simE)
  with Cons x show ?case by simp
qed

lemma failed_fork_step:
  assumes "sc_initialized s" "sc_current_slot s = Some c" "free_slot s = Some k" "ev_clone_space env (ev_cr3 env) = 0"
  shows "sched_step env s OpFork = Ok (s\<lparr>sc_next_thread_id := sat_add (sc_next_thread_id s) 1,
    sc_thread_count := sc_thread_count s + 1\<rparr>)"
  using assms by (simp add: fork_current_thread_def free_slot_def after_call_def)

lemma failed_forks:
  assumes "sc_initialized s" "sc_current_slot s = Some c" "free_slot s = Some k" "ev_clone_space env (ev_cr3 env) = 0"
  shows "\<exists>i. sched_run env s (replicate n OpFork) =
    Ok (s\<lparr>sc_next_thread_id := i, sc_thread_count := sc_thread_count s + n\<rparr>)"
  using assms
proof (induction n arbitrary: s)
  case 0
  have "sched_run env s (replicate 0 OpFork) =
      Ok (s\<lparr>sc_next_thread_id := sc_next_thread_id s, sc_thread_count := sc_thread_count s + 0\<rparr>)"
    by simp
  then show ?case by blast
next
  case (Suc n)
  let ?s = "s\<lparr>sc_next_thread_id := sat_add (sc_next_thread_id s) 1, sc_thread_count := sc_thread_count s + 1\<rparr>"
  have "\<exists>i. sched_run env ?s (replicate n OpFork) =
      Ok (?s\<lparr>sc_next_thread_id := i, sc_thread_count := sc_thread_count ?s + n\<rparr>)"
    using Suc.prems by (intro Suc.IH) (simp_all add: free_slot_def)
  with failed_fork_step [OF Suc.prems] show ?case by simp
qed

text \<open>
  C37. A fork that fails for want of memory still counts a thread.  After enough of them the count is
  larger than the table, and the next exit of a thread group indexes past its end: the kernel panics,
  from any state with a free slot and a live current thread.
\<close>

theorem failed_forks_panic_on_exit:
  assumes "sched_inv s" and "sc_initialized s" and "sc_current_slot s = Some c"
    and "th_state (sc_threads s ! c) \<noteq> Exited" and "th_thread_group_id (sc_threads s ! c) \<noteq> 0"
    and "free_slot s = Some k" and "ev_clone_space env (ev_cr3 env) = 0"
  shows "sched_run env s (replicate (MAX_THREADS + 1) OpFork @ [OpExit status]) = Abort"
proof -
  let ?n = "sc_thread_count s + (MAX_THREADS + 1)"
  obtain i where run: "sched_run env s (replicate (MAX_THREADS + 1) OpFork) =
      Ok (s\<lparr>sc_next_thread_id := i, sc_thread_count := ?n\<rparr>)" (is "_ = Ok ?s")
    using failed_forks [OF assms(2,3,6,7)] by blast
  have inv: "sched_inv ?s" using assms(1) by simp
  have c: "c < MAX_THREADS" using assms by (simp add: sched_inv_current)
  have "[0 ..< ?n] = [0 ..< MAX_THREADS] @ MAX_THREADS # [MAX_THREADS + 1 ..< ?n]"
    by (rule upt_split_at) simp
  then have "exit_loop ?s gid [0 ..< ?n] 0 = Abort" for gid
    using exit_loop_panics [OF inv, of "[0 ..< MAX_THREADS]"] by simp
  then have "request_exit_group ?s status = Abort"
    using assms inv c by (simp add: request_exit_group_def)
  then show ?thesis
    unfolding sched_run_append run by (simp add: state_of_def)
qed

theorem failed_forks_panic_on_exit_witness:
  "\<exists>s. sched_bootstrap (sample_env 0) 3 = Ok s \<and>
     sched_run (sample_env 0) s (replicate (MAX_THREADS + 1) OpFork @ [OpExit 7]) = Abort"
proof -
  obtain s where s: "sched_bootstrap (sample_env 0) 3 = Ok s" "booted s" "sc_thread_count s = 2"
    using sched_bootstrap_ok [of 3 "sample_env 0"] by (auto elim!: returnsE)
  have "\<forall>i. (v_state (view s) i \<noteq> Unused) = (i < v_count (view s))"
    using s(2) unfolding booted_def good_def tidy_def core_def by blast
  then have "v_state (view s) 2 = Unused"
    using s(3) by (metis less_irrefl view_simps(3))
  then have "sc_threads s ! 2 \<in> set (sc_threads s)" "th_state (sc_threads s ! 2) = Unused"
    using s(2) by (auto simp: booted_def good_def sched_bounds intro!: nth_mem)
  then have "free_slot s \<noteq> None"
    unfolding free_slot_def find_index_None by blast
  then obtain k where "free_slot s = Some k" by blast
  then have "sched_run (sample_env 0) s (replicate (MAX_THREADS + 1) OpFork @ [OpExit 7]) = Abort"
    using s(2) by (intro failed_forks_panic_on_exit)
      (auto simp: booted_def good_def boot_ids_def th_key_def sample_env_def)
  with s(1) show ?thesis by blast
qed


end
