(* ===== verification/Text.thy ===== *)
theory Text
  imports Prelude
begin

text \<open>
  Rust text as the file system code uses it.  A \<^verbatim>\<open>str\<close> is the list of the bytes of its
  UTF-8 encoding, written as an Isabelle \<open>string\<close> (whose characters are bytes), so that
  \<^verbatim>\<open>len\<close> is \<open>length\<close> and slicing at byte offsets is slicing of the list.

  \<^item> \<open>utf8_step\<close>, \<open>utf8_valid\<close>, \<open>utf8_lossy\<close>: \<^verbatim>\<open>str::from_utf8\<close> and
    \<^verbatim>\<open>String::from_utf8_lossy\<close> of the Rust library, byte by byte;
  \<^item> \<open>split_by\<close>, \<open>join_with\<close>, \<open>starts_with\<close>, \<open>trim_end\<close>, \<open>rfind_char\<close>:
    the searching and splitting methods of \<^verbatim>\<open>str\<close> and slices;
  \<^item> the lemmas that splitting and joining are inverse to each other.
\<close>

section \<open>Bytes and characters\<close>

definition str_of :: "bytes \<Rightarrow> string" where
  "str_of bs = map (\<lambda>b. char_of (unat b)) bs"

definition bytes_of :: "string \<Rightarrow> bytes" where
  "bytes_of s = map (\<lambda>c. word_of_nat (of_char c)) s"

lemma length_str_of [simp]: "length (str_of bs) = length bs"
  by (simp add: str_of_def)

lemma length_bytes_of [simp]: "length (bytes_of s) = length s"
  by (simp add: bytes_of_def)

lemma bytes_of_append [simp]: "bytes_of (s @ t) = bytes_of s @ bytes_of t"
  by (simp add: bytes_of_def)

lemma bytes_of_Cons: "bytes_of (c # s) = word_of_nat (of_char c) # bytes_of s"
  by (simp add: bytes_of_def)

lemma bytes_of_Nil [simp]: "bytes_of [] = []"
  by (simp add: bytes_of_def)

lemma bytes_of_str_of [simp]: "bytes_of (str_of bs) = bs"
proof -
  have "word_of_nat (of_char (char_of (unat b) :: char)) = b" for b :: u8
    using unsigned_less [of b, where ?'a = nat] by (simp add: of_char_of)
  then show ?thesis
    by (simp add: bytes_of_def str_of_def comp_def)
qed

lemma str_of_bytes_of [simp]: "str_of (bytes_of s) = s"
proof -
  have "char_of (unat (word_of_nat (of_char c) :: u8)) = c" for c
    by (simp add: unat_of_nat)
  then show ?thesis
    by (simp add: bytes_of_def str_of_def comp_def)
qed

section \<open>UTF-8\<close>

definition continuation :: "u8 \<Rightarrow> bool" where
  "continuation b = (b AND 0xC0 = 0x80)"

text \<open>
  One step of the validation loop: the length of the character at the head of the input and
  whether it is well formed; of an ill-formed one, the number of bytes that are skipped.
  A byte past the end of the input reads as 0, which continues nothing.
\<close>

definition byte_at :: "bytes \<Rightarrow> nat \<Rightarrow> u8" where
  "byte_at bs i = (if i < length bs then bs ! i else 0)"

definition second_ok :: "u8 \<Rightarrow> u8 \<Rightarrow> bool" where
  "second_ok b c =
    (if b = 0xE0 then 0xA0 \<le> c \<and> c \<le> 0xBF
     else if b = 0xED then 0x80 \<le> c \<and> c \<le> 0x9F
     else if b = 0xF0 then 0x90 \<le> c \<and> c \<le> 0xBF
     else if b = 0xF4 then 0x80 \<le> c \<and> c \<le> 0x8F
     else continuation c)"

definition utf8_step :: "u8 \<Rightarrow> bytes \<Rightarrow> nat \<times> bool" where
  "utf8_step b rest =
    (if b < 0x80 then (1, True)
     else if 0xC2 \<le> b \<and> b \<le> 0xDF then
       (if continuation (byte_at rest 0) then (2, True) else (1, False))
     else if 0xE0 \<le> b \<and> b \<le> 0xEF then
       (if \<not> second_ok b (byte_at rest 0) then (1, False)
        else if \<not> continuation (byte_at rest 1) then (2, False) else (3, True))
     else if 0xF0 \<le> b \<and> b \<le> 0xF4 then
       (if \<not> second_ok b (byte_at rest 0) then (1, False)
        else if \<not> continuation (byte_at rest 1) then (2, False)
        else if \<not> continuation (byte_at rest 2) then (3, False) else (4, True))
     else (1, False))"

function utf8_valid :: "bytes \<Rightarrow> bool" where
  "utf8_valid [] = True"
| "utf8_valid (b # rest) =
    (case utf8_step b rest of (n, ok) \<Rightarrow> ok \<and> utf8_valid (drop (n - 1) rest))"
  by pat_completeness auto
termination by (relation "measure length") auto

definition replacement_character :: bytes where
  "replacement_character = [0xEF, 0xBF, 0xBD]"

function utf8_lossy :: "bytes \<Rightarrow> bytes" where
  "utf8_lossy [] = []"
| "utf8_lossy (b # rest) =
    (case utf8_step b rest of (n, ok) \<Rightarrow>
      (if ok then b # take (n - 1) rest else replacement_character) @ utf8_lossy (drop (n - 1) rest))"
  by pat_completeness auto
termination by (relation "measure length") auto

lemma utf8_lossy_valid: "utf8_valid bs \<Longrightarrow> utf8_lossy bs = bs"
proof (induction bs rule: utf8_valid.induct)
  case (2 b rest)
  then show ?case by (cases "utf8_step b rest") auto
qed simp

lemma utf8_valid_ascii: "\<forall>b \<in> set bs. b < 0x80 \<Longrightarrow> utf8_valid bs"
proof (induction bs)
  case (Cons b bs)
  then show ?case by (simp add: utf8_step_def)
qed simp

section \<open>Searching\<close>

definition rfind_char :: "char \<Rightarrow> string \<Rightarrow> nat option" where
  "rfind_char c s = map_option (\<lambda>i. length s - 1 - i) (find_index (\<lambda>d. d = c) (rev s))"

definition starts_with :: "'a list \<Rightarrow> 'a list \<Rightarrow> bool" where
  "starts_with p xs = (take (length p) xs = p)"

definition ends_with :: "'a list \<Rightarrow> 'a list \<Rightarrow> bool" where
  "ends_with p xs = starts_with (rev p) (rev xs)"

lemma starts_with_iff: "starts_with p xs \<longleftrightarrow> (\<exists>t. xs = p @ t)"
  unfolding starts_with_def by (metis append_eq_conv_conj append_take_drop_id)

lemma starts_with_Nil [simp]: "starts_with [] xs"
  by (simp add: starts_with_def)

lemma starts_with_append [simp]: "starts_with p (p @ xs)"
  by (simp add: starts_with_def)

definition strip_prefix :: "'a list \<Rightarrow> 'a list \<Rightarrow> 'a list option" where
  "strip_prefix p xs = (if starts_with p xs then Some (drop (length p) xs) else None)"

definition trim_end :: "char \<Rightarrow> string \<Rightarrow> string" where
  "trim_end c s = rev (dropWhile (\<lambda>d. d = c) (rev s))"

definition trim_matches :: "char \<Rightarrow> string \<Rightarrow> string" where
  "trim_matches c s = trim_end c (dropWhile (\<lambda>d. d = c) s)"

fun contains :: "'a list \<Rightarrow> 'a list \<Rightarrow> bool" where
  "contains p [] = (p = [])"
| "contains p (x # xs) = (starts_with p (x # xs) \<or> contains p xs)"

lemma trim_end_id: "s = [] \<or> last s \<noteq> c \<Longrightarrow> trim_end c s = s"
  by (cases s rule: rev_cases) (auto simp: trim_end_def)

lemma trim_end_last: "trim_end c s \<noteq> [] \<Longrightarrow> last (trim_end c s) \<noteq> c"
  unfolding trim_end_def using hd_dropWhile [of "\<lambda>d. d = c" "rev s"] by (simp add: last_rev)

section \<open>Splitting and joining\<close>

fun split_by :: "('a \<Rightarrow> bool) \<Rightarrow> 'a list \<Rightarrow> 'a list list" where
  "split_by P [] = [[]]"
| "split_by P (x # xs) = (if P x then [] # split_by P xs
    else (case split_by P xs of [] \<Rightarrow> [[x]] | s # ss \<Rightarrow> (x # s) # ss))"

fun join_with :: "'a list \<Rightarrow> 'a list list \<Rightarrow> 'a list" where
  "join_with sep [] = []"
| "join_with sep [s] = s"
| "join_with sep (s # t # ss) = s @ sep @ join_with sep (t # ss)"

lemma split_by_ne [simp]: "split_by P xs \<noteq> []"
  by (induction xs) (auto split: list.splits)

lemma split_by_none: "\<forall>x \<in> set xs. \<not> P x \<Longrightarrow> split_by P xs = [xs]"
  by (induction xs) auto

lemma split_by_append:
  "P x \<Longrightarrow> split_by P (xs @ x # ys) = split_by P xs @ split_by P ys"
proof (induction xs)
  case (Cons a xs)
  then show ?case by (cases "split_by P xs") auto
qed simp

lemma split_by_segments: "s \<in> set (split_by P xs) \<Longrightarrow> x \<in> set s \<Longrightarrow> \<not> P x"
proof (induction xs arbitrary: s)
  case (Cons a xs)
  show ?case
  proof (cases "P a")
    case True
    with Cons show ?thesis by auto
  next
    case False
    obtain t ts where ts: "split_by P xs = t # ts"
      using split_by_ne by (metis neq_Nil_conv)
    with False Cons.prems have "s = a # t \<or> s \<in> set ts"
      by auto
    with False Cons.prems(2) ts Cons.IH [of t] Cons.IH [of s] show ?thesis
      by auto
  qed
qed simp

lemma join_with_Cons: "ss \<noteq> [] \<Longrightarrow> join_with sep (s # ss) = s @ sep @ join_with sep ss"
  by (cases ss) auto

lemma join_with_snoc: "ss \<noteq> [] \<Longrightarrow> join_with sep (ss @ [s]) = join_with sep ss @ sep @ s"
proof (induction ss)
  case (Cons a ss)
  then show ?case by (cases ss) (auto simp: join_with_Cons)
qed simp

lemma split_join:
  assumes "ss \<noteq> []" and "\<forall>s \<in> set ss. \<forall>x \<in> set s. \<not> P x" and "P x"
  shows "split_by P (join_with [x] ss) = ss"
  using assms(1, 2)
proof (induction ss)
  case (Cons s ss)
  then show ?case using assms(3)
    by (cases "ss = []") (simp_all add: split_by_append split_by_none join_with_Cons)
qed simp

lemma join_split: "join_with [x] (split_by (\<lambda>y. y = x) xs) = xs"
proof (induction xs)
  case (Cons a xs)
  obtain t ts where "split_by (\<lambda>y. y = x) xs = t # ts"
    using split_by_ne by (metis neq_Nil_conv)
  with Cons show ?case
    by (cases ts) (auto simp: join_with_Cons)
qed simp

section \<open>Filtering maps\<close>

lemma set_map_filter_Some: "set (List.map_filter f xs) = {y. \<exists>x \<in> set xs. f x = Some y}"
  by (induction xs) (auto simp: List.map_filter_simps split: option.splits)

lemma distinct_map_filter_Some:
  "distinct xs \<Longrightarrow> (\<And>x y z. x \<in> set xs \<Longrightarrow> y \<in> set xs \<Longrightarrow> f x = Some z \<Longrightarrow> f y = Some z \<Longrightarrow> x = y) \<Longrightarrow>
    distinct (List.map_filter f xs)"
proof (induction xs)
  case (Cons x xs)
  have "distinct (List.map_filter f xs)"
    using Cons.prems by (intro Cons.IH) auto
  moreover have "z \<notin> set (List.map_filter f xs)" if "f x = Some z" for z
    using that Cons.prems by (fastforce simp: set_map_filter_Some)
  ultimately show ?case by (auto simp: List.map_filter_simps split: option.splits)
qed (simp add: List.map_filter_simps)

end
