(* ===== verification/Path.thy ===== *)
theory Path
  imports Text
begin

text \<open>
  Path normalisation: \<^verbatim>\<open>vfs::normalize_path\<close> and its copy in \<^verbatim>\<open>tmpfs\<close>.  Both split at
  slashes, drop empty and \<^verbatim>\<open>.\<close> segments, let \<^verbatim>\<open>..\<close> pop the segment before it, refuse to
  leave the root, and render what remains.

  The lemmas show that the result is a normal form, that normal forms are fixed points, that
  normalisation may be done prefix by prefix, and that it computes exactly the normal form of
  the rewrite relation \<open>simplifies\<close> which deletes one redundant segment, or one segment with
  the \<^verbatim>\<open>..\<close> behind it, at a time.
\<close>

abbreviation (input) slash :: char where
  "slash \<equiv> CHR ''/''"

definition split_path :: "string \<Rightarrow> string list" where
  "split_path p = split_by (\<lambda>c. c = slash) p"

fun normalize_segments :: "string list \<Rightarrow> string list \<Rightarrow> string list option" where
  "normalize_segments segments [] = Some segments"
| "normalize_segments segments (segment # rest) =
    (if segment = [] \<or> segment = ''.'' then normalize_segments segments rest
     else if segment = ''..'' then
       (if segments = [] then None else normalize_segments (butlast segments) rest)
     else normalize_segments (segments @ [segment]) rest)"

definition render_segments :: "string list \<Rightarrow> string" where
  "render_segments segments =
    (if segments = [] then ''/'' else ''/'' @ join_with ''/'' segments)"

definition normalize_path :: "string \<Rightarrow> string option" where
  "normalize_path path =
    (if \<not> starts_with ''/'' path then None
     else case normalize_segments [] (split_path path) of
         None \<Rightarrow> None
       | Some segments \<Rightarrow> Some (render_segments segments))"

definition tmpfs_normalize_path :: "string \<Rightarrow> string option" where
  "tmpfs_normalize_path path =
    (if \<not> starts_with ''/'' path then None
     else case normalize_segments [] (split_path path) of
         None \<Rightarrow> None
       | Some segments \<Rightarrow> Some (render_segments segments))"

section \<open>Normal forms\<close>

definition clean :: "string \<Rightarrow> bool" where
  "clean s = (s \<noteq> [] \<and> s \<noteq> ''.'' \<and> s \<noteq> ''..'' \<and> slash \<notin> set s)"

definition normal_path :: "string \<Rightarrow> bool" where
  "normal_path p = (p = ''/'' \<or> starts_with ''/'' p \<and> (\<forall>s \<in> set (tl (split_path p)). clean s))"

inductive simplifies :: "string list \<Rightarrow> string list \<Rightarrow> bool" where
  simplifies_refl: "simplifies xs xs"
| simplifies_drop:
    "s = [] \<or> s = ''.'' \<Longrightarrow> simplifies (xs @ ys) zs \<Longrightarrow> simplifies (xs @ s # ys) zs"
| simplifies_pop:
    "clean s \<Longrightarrow> simplifies (xs @ ys) zs \<Longrightarrow> simplifies (xs @ s # ''..'' # ys) zs"

lemma tmpfs_normalize_path_eq [simp]: "tmpfs_normalize_path = normalize_path"
  by (simp add: fun_eq_iff tmpfs_normalize_path_def normalize_path_def)

lemma normalize_skip [simp]:
  "s = [] \<or> s = ''.'' \<Longrightarrow> normalize_segments acc (s # ss) = normalize_segments acc ss"
  by simp

lemma normalize_dotdot [simp]:
  "normalize_segments acc (''..'' # ss) =
    (if acc = [] then None else normalize_segments (butlast acc) ss)"
  by simp

lemma normalize_push [simp]:
  "clean s \<Longrightarrow> normalize_segments acc (s # ss) = normalize_segments (acc @ [s]) ss"
  by (simp add: clean_def)

lemma segment_cases:
  assumes "slash \<notin> set s"
  obtains (skip) "s = [] \<or> s = ''.''" | (pop) "s = ''..''" | (push) "clean s"
  using assms by (auto simp: clean_def)

lemma clean_Nil [simp]: "\<not> clean []"
  by (simp add: clean_def)

lemma clean_no_slash: "clean s \<Longrightarrow> c \<in> set s \<Longrightarrow> c \<noteq> slash"
  by (auto simp: clean_def)

lemma normalize_segments_append:
  "normalize_segments acc (xs @ ys) =
    Option.bind (normalize_segments acc xs) (\<lambda>a. normalize_segments a ys)"
  by (induction xs arbitrary: acc) simp_all

declare normalize_segments.simps(2) [simp del]

lemma normalize_segments_clean:
  assumes "normalize_segments acc ss = Some r" and "\<forall>s \<in> set ss. slash \<notin> set s"
    and "\<forall>s \<in> set acc. clean s"
  shows "\<forall>s \<in> set r. clean s"
  using assms
proof (induction ss arbitrary: acc)
  case (Cons s ss)
  from Cons.prems(2) have "slash \<notin> set s" and rest: "\<forall>s \<in> set ss. slash \<notin> set s" by simp_all
  from this(1) show ?case
  proof (cases rule: segment_cases)
    case skip
    with Cons.prems rest Cons.IH [of acc] show ?thesis by simp
  next
    case pop
    with Cons.prems have "normalize_segments (butlast acc) ss = Some r" by (simp split: if_splits)
    moreover have "\<forall>s \<in> set (butlast acc). clean s"
      using Cons.prems(3) by (auto dest: in_set_butlastD)
    ultimately show ?thesis using rest by (intro Cons.IH)
  next
    case push
    with Cons.prems rest show ?thesis by (intro Cons.IH [of "acc @ [s]"]) auto
  qed
qed simp

lemma normalize_segments_id:
  "\<forall>s \<in> set ss. clean s \<Longrightarrow> normalize_segments acc ss = Some (acc @ ss)"
  by (induction ss arbitrary: acc) simp_all

lemma split_path_segments: "s \<in> set (split_path p) \<Longrightarrow> slash \<notin> set s"
  using split_by_segments [of s "\<lambda>c. c = slash" p slash] by (auto simp: split_path_def)

lemma split_path_Cons: "split_path (slash # p) = [] # split_path p"
  by (simp add: split_path_def)

lemma split_path_join: "ss \<noteq> [] \<Longrightarrow> \<forall>s \<in> set ss. clean s \<Longrightarrow> split_path (join_with ''/'' ss) = ss"
  unfolding split_path_def by (rule split_join) (auto dest: clean_no_slash)

lemma split_path_render:
  "\<forall>s \<in> set ss. clean s \<Longrightarrow> split_path (render_segments ss) = [] # (if ss = [] then [[]] else ss)"
proof (cases "ss = []")
  case True
  then show ?thesis by (simp add: render_segments_def split_path_def)
next
  case False
  assume "\<forall>s \<in> set ss. clean s"
  with False show ?thesis by (simp add: render_segments_def split_path_Cons split_path_join)
qed

lemma starts_with_render [simp]: "starts_with ''/'' (render_segments ss)"
  by (simp add: render_segments_def starts_with_def)

lemma normalize_render: "\<forall>s \<in> set ss. clean s \<Longrightarrow> normalize_path (render_segments ss) = Some (render_segments ss)"
  by (simp add: normalize_path_def split_path_render normalize_segments_id)

lemma normal_render: "\<forall>s \<in> set ss. clean s \<Longrightarrow> normal_path (render_segments ss)"
  by (cases "ss = []") (simp_all add: normal_path_def split_path_render, simp add: render_segments_def)

lemma render_inj:
  assumes "\<forall>s \<in> set ss. clean s" and "\<forall>s \<in> set ts. clean s" and "render_segments ss = render_segments ts"
  shows "ss = ts"
proof -
  have "(if ss = [] then [[]] else ss) = (if ts = [] then [[]] else ts)"
    using arg_cong [OF assms(3), of split_path]
    by (simp only: split_path_render [OF assms(1)] split_path_render [OF assms(2)] list.inject)
  with assms(1, 2) show ?thesis by (cases "ss = []"; cases "ts = []") auto
qed

lemma normalize_pathE:
  assumes "normalize_path p = Some q"
  obtains ss where "starts_with ''/'' p" and "normalize_segments [] (split_path p) = Some ss"
    and "q = render_segments ss" and "\<forall>s \<in> set ss. clean s"
proof -
  from assms obtain ss where p: "starts_with ''/'' p" and ss: "normalize_segments [] (split_path p) = Some ss"
    and q: "q = render_segments ss"
    by (auto simp: normalize_path_def split: if_splits option.splits)
  have "\<forall>s \<in> set ss. clean s"
    using normalize_segments_clean [OF ss] split_path_segments by auto
  with p ss q that show thesis by blast
qed

lemma normal_pathE:
  assumes "normal_path p"
  obtains ss where "p = render_segments ss" and "\<forall>s \<in> set ss. clean s"
proof (cases "p = ''/''")
  case True
  then show thesis using that [of "[]"] by (simp add: render_segments_def)
next
  case False
  with assms obtain t where p: "p = slash # t" and c: "\<forall>s \<in> set (split_path t). clean s"
    by (auto simp: normal_path_def starts_with_iff split_path_Cons)
  have "split_path t \<noteq> []" and "join_with ''/'' (split_path t) = t"
    by (simp_all add: split_path_def join_split)
  then have "p = render_segments (split_path t)"
    by (simp add: p render_segments_def)
  with c that show thesis by blast
qed

lemma normalize_path_normal: "normalize_path p = Some q \<Longrightarrow> normal_path q"
  by (erule normalize_pathE) (simp add: normal_render)

lemma normalize_path_id: "normal_path p \<Longrightarrow> normalize_path p = Some p"
  by (erule normal_pathE) (simp add: normalize_render)

lemma normal_path_slash: "normal_path p \<Longrightarrow> starts_with ''/'' p"
  by (erule normal_pathE) simp

section \<open>Normalisation as rewriting\<close>

lemma normalize_simplifies:
  assumes "normalize_segments acc ss = Some r" and "\<forall>s \<in> set acc. clean s"
    and "\<forall>s \<in> set ss. slash \<notin> set s"
  shows "simplifies (acc @ ss) r"
  using assms
proof (induction ss arbitrary: acc)
  case Nil
  then show ?case by (simp add: simplifies_refl)
next
  case (Cons s ss)
  from Cons.prems(3) have "slash \<notin> set s" and rest: "\<forall>s \<in> set ss. slash \<notin> set s" by simp_all
  from this(1) show ?case
  proof (cases rule: segment_cases)
    case skip
    with Cons.prems rest Cons.IH [of acc] show ?thesis
      by (intro simplifies_drop) simp_all
  next
    case pop
    with Cons.prems have ne: "acc \<noteq> []" and r: "normalize_segments (butlast acc) ss = Some r"
      by (simp_all split: if_splits)
    have "\<forall>s \<in> set (butlast acc). clean s" 
      using Cons.prems(2) by (auto dest: in_set_butlastD)
    with r rest have "simplifies (butlast acc @ ss) r" by (intro Cons.IH)
    moreover have "clean (last acc)" using Cons.prems(2) ne by simp
    ultimately have "simplifies (butlast acc @ last acc # ''..'' # ss) r"
      by (rule simplifies_pop [rotated])
    moreover have "butlast acc @ last acc # ''..'' # ss = acc @ s # ss"
      using ne pop by (metis append_Cons append_Nil append_assoc append_butlast_last_id)
    ultimately show ?thesis by simp
  next
    case push
    with Cons.prems rest Cons.IH [of "acc @ [s]"] show ?thesis by simp
  qed
qed

lemma simplifies_normalize: "simplifies xs zs \<Longrightarrow> normalize_segments acc xs = normalize_segments acc zs"
proof (induction arbitrary: acc rule: simplifies.induct)
  case (simplifies_drop s xs ys zs)
  have "normalize_segments acc (xs @ s # ys) = normalize_segments acc (xs @ ys)"
    using simplifies_drop.hyps(1) by (simp add: normalize_segments_append)
  then show ?case by (simp only: simplifies_drop.IH)
next
  case (simplifies_pop s xs ys zs)
  have "normalize_segments acc (xs @ s # ''..'' # ys) = normalize_segments acc (xs @ ys)"
    using simplifies_pop.hyps(1) by (simp add: normalize_segments_append)
  then show ?case by (simp only: simplifies_pop.IH)
qed simp

section \<open>Properties\<close>

text \<open>
  C18. Path normalisation computes the normal form of segment deletion: an absolute path
  normalises to \<open>q\<close> exactly if deleting empty and \<^verbatim>\<open>.\<close> segments and pairs of a segment and
  the \<^verbatim>\<open>..\<close> behind it, in any order, can reach a list of clean segments that renders as \<open>q\<close>.
  In particular the normal form does not depend on the order of the deletions.
\<close>

theorem normalize_path_rewriting:
  assumes "starts_with ''/'' p"
  shows "normalize_path p = Some q \<longleftrightarrow>
    (\<exists>ss. simplifies (split_path p) ss \<and> (\<forall>s \<in> set ss. clean s) \<and> q = render_segments ss)"
proof
  assume "normalize_path p = Some q"
  then show "\<exists>ss. simplifies (split_path p) ss \<and> (\<forall>s \<in> set ss. clean s) \<and> q = render_segments ss"
    using normalize_simplifies [of "[]"] split_path_segments by (elim normalize_pathE) fastforce
next
  assume "\<exists>ss. simplifies (split_path p) ss \<and> (\<forall>s \<in> set ss. clean s) \<and> q = render_segments ss"
  then show "normalize_path p = Some q"
    using assms by (auto simp: normalize_path_def simplifies_normalize normalize_segments_id)
qed

theorem normalize_path_rewriting_witness:
  "normalize_path ''/tmp//a/./b/../c'' = Some ''/tmp/a/c'' \<longleftrightarrow>
    (\<exists>ss. simplifies (split_path ''/tmp//a/./b/../c'') ss \<and> (\<forall>s \<in> set ss. clean s)
      \<and> ''/tmp/a/c'' = render_segments ss)"
  by (rule normalize_path_rewriting) (simp add: starts_with_def)

text \<open>
  The result of normalisation is a normal path, normalising it again changes nothing,
  and a longer path may be normalised by normalising its directory part first: what a
  relative tail means depends only on the normal form of the directory it starts from.
\<close>

theorem normalize_path_compositional:
  assumes "normalize_path p = Some q"
  shows "normal_path q \<and> normalize_path q = Some q
    \<and> normalize_path (p @ ''/'' @ t) = normalize_path (q @ ''/'' @ t)"
proof -
  have n: "normal_path q" using assms by (rule normalize_path_normal)
  then have q: "normalize_path q = Some q" by (rule normalize_path_id)
  have "split_path (x @ ''/'' @ t) = split_path x @ split_path t" for x
    by (simp add: split_path_def split_by_append)
  then have *: "normalize_path (x @ ''/'' @ t) =
      map_option render_segments (Option.bind (normalize_segments [] (split_path x)) (\<lambda>a. normalize_segments a (split_path t)))"
    if "starts_with ''/'' x" for x
    using that by (auto simp: normalize_path_def normalize_segments_append starts_with_iff split: option.splits)
  from assms obtain ss where p: "starts_with ''/'' p"
    and ss: "normalize_segments [] (split_path p) = Some ss" and q': "q = render_segments ss"
    and c: "\<forall>s \<in> set ss. clean s" by (rule normalize_pathE)
  have "normalize_segments [] (split_path q) = Some ss"
    using c by (simp add: q' split_path_render normalize_segments_id)
  with * [OF p] * [of q] ss have "normalize_path (p @ ''/'' @ t) = normalize_path (q @ ''/'' @ t)"
    by (simp add: q')
  with n q show ?thesis by blast
qed

theorem normalize_path_compositional_witness:
  "normal_path ''/a'' \<and> normalize_path ''/a'' = Some ''/a''
    \<and> normalize_path (''/a/b/..'' @ ''/'' @ ''c'') = normalize_path (''/a'' @ ''/'' @ ''c'')"
proof -
  have "normalize_path ''/a/b/..'' = Some ''/a''" by code_simp
  then show ?thesis
    using normalize_path_compositional by blast
qed

end
