(* ===== verification/Tmpfs.thy ===== *)
theory Tmpfs
  imports Path "HOL-Library.Char_ord" "HOL-Library.List_Lexorder"
begin

text \<open>
  The in-memory file system behind \<^verbatim>\<open>/tmp\<close> and \<^verbatim>\<open>/run\<close> (\<^verbatim>\<open>src/kernel/src/tmpfs.rs\<close>): a
  vector of at most 256 files, found by linear search on the normalised path.

  The state is the \<^verbatim>\<open>Option<TmpfsState>\<close> of the static; every public operation is a function
  of it.  The abstract file system is a map from a directory and a name to the content; the
  lemmas show that opening and writing do on the vector what they do on the map, on every
  error branch too, and that the well-formedness of the vector is kept.
\<close>

section \<open>State\<close>

definition TMP_ROOT_PATH :: string where "TMP_ROOT_PATH = ''/tmp''"
definition RUN_ROOT_PATH :: string where "RUN_ROOT_PATH = ''/run''"
definition MAX_TMPFS_FILES :: nat where "MAX_TMPFS_FILES = 256"

record tmpfs_file =
  tf_path :: string
  tf_content :: bytes

record tmpfs_state =
  tf_initialized :: bool
  tf_files :: "tmpfs_file list"

type_synonym tmpfs = "tmpfs_state option"

datatype tmpfs_kind = TmpfsDirectory | TmpfsFileKind

record tmpfs_summary =
  ts_directory_count :: nat
  ts_file_count :: nat
  ts_entry_count :: nat
  ts_total_bytes :: nat

record tmpfs_opened =
  to_path :: string
  to_content :: bytes

datatype tmpfs_error = TmpfsAlreadyInitialized | TmpfsNotInitialized | TmpfsInvalidPath
  | TmpfsNotFound | TmpfsIsDirectory | TmpfsFileLimitReached

section \<open>Operations\<close>

definition tmpfs_summary_of :: "tmpfs \<Rightarrow> tmpfs_summary" where
  "tmpfs_summary_of st = (case st of
      None \<Rightarrow> \<lparr> ts_directory_count = 0, ts_file_count = 0, ts_entry_count = 0, ts_total_bytes = 0 \<rparr>
    | Some state \<Rightarrow>
        let total_bytes = fold (\<lambda>file total. usize_sat_add total (length (tf_content file))) (tf_files state) 0;
            file_count = length (tf_files state)
        in \<lparr> ts_directory_count = 2, ts_file_count = file_count,
             ts_entry_count = usize_sat_add 2 file_count, ts_total_bytes = total_bytes \<rparr>)"

definition tmpfs_initialize :: "tmpfs \<Rightarrow> tmpfs \<times> (tmpfs_error + tmpfs_summary)" where
  "tmpfs_initialize st =
    (if st \<noteq> None then (st, Inl TmpfsAlreadyInitialized)
     else let st = Some \<lparr> tf_initialized = True, tf_files = [] \<rparr> in (st, Inr (tmpfs_summary_of st)))"

definition tmpfs_is_initialized :: "tmpfs \<Rightarrow> bool" where
  "tmpfs_is_initialized st = (case st of None \<Rightarrow> False | Some state \<Rightarrow> tf_initialized state)"

definition handles_path :: "string \<Rightarrow> bool" where
  "handles_path path = (path = TMP_ROOT_PATH \<or> path = RUN_ROOT_PATH
    \<or> starts_with ''/tmp/'' path \<or> starts_with ''/run/'' path)"

definition tmpfs_node_kind :: "tmpfs \<Rightarrow> string \<Rightarrow> tmpfs_kind option" where
  "tmpfs_node_kind st path = (case tmpfs_normalize_path path of None \<Rightarrow> None
    | Some normalized \<Rightarrow>
        if normalized = TMP_ROOT_PATH \<or> normalized = RUN_ROOT_PATH then Some TmpfsDirectory
        else case st of None \<Rightarrow> None
          | Some state \<Rightarrow>
              if list_ex (\<lambda>file. tf_path file = normalized) (tf_files state) then Some TmpfsFileKind else None)"

definition tmpfs_read_bytes :: "tmpfs \<Rightarrow> string \<Rightarrow> bytes option" where
  "tmpfs_read_bytes st path = (case tmpfs_normalize_path path of None \<Rightarrow> None
    | Some normalized \<Rightarrow> (case st of None \<Rightarrow> None
      | Some state \<Rightarrow> map_option tf_content (find (\<lambda>file. tf_path file = normalized) (tf_files state))))"

definition direct_child_name :: "string \<Rightarrow> string \<Rightarrow> string option" where
  "direct_child_name parent path =
    (if \<not> starts_with parent path then None
     else case strip_prefix ''/'' (drop (length parent) path) of None \<Rightarrow> None
       | Some suffix \<Rightarrow> if suffix = [] \<or> slash \<in> set suffix then None else Some suffix)"

definition writeln_all :: "string list \<Rightarrow> string" where
  "writeln_all entries = concat (map (\<lambda>entry. entry @ [CHR 0x0A]) entries)"

definition tmpfs_render_directory :: "tmpfs \<Rightarrow> string \<Rightarrow> string option" where
  "tmpfs_render_directory st path = (case st of None \<Rightarrow> None
    | Some state \<Rightarrow>
        let entries = List.map_filter (\<lambda>file. direct_child_name path (tf_path file)) (tf_files state)
        in Some (writeln_all (sort entries)))"

definition tmpfs_read :: "tmpfs \<Rightarrow> string \<Rightarrow> string option" where
  "tmpfs_read st path = (case tmpfs_normalize_path path of None \<Rightarrow> None
    | Some normalized \<Rightarrow> (case tmpfs_node_kind st normalized of None \<Rightarrow> None
      | Some TmpfsDirectory \<Rightarrow> tmpfs_render_directory st normalized
      | Some TmpfsFileKind \<Rightarrow> map_option (\<lambda>bs. str_of (utf8_lossy bs)) (tmpfs_read_bytes st normalized)))"

definition tmpfs_node_info :: "tmpfs \<Rightarrow> string \<Rightarrow> nat option" where
  "tmpfs_node_info st path = (case tmpfs_node_kind st path of None \<Rightarrow> None
    | Some TmpfsDirectory \<Rightarrow> map_option length (tmpfs_read st path)
    | Some TmpfsFileKind \<Rightarrow> (case tmpfs_normalize_path path of None \<Rightarrow> None
        | Some normalized \<Rightarrow> (case st of None \<Rightarrow> None
          | Some state \<Rightarrow> map_option (\<lambda>file. length (tf_content file))
              (find (\<lambda>file. tf_path file = normalized) (tf_files state)))))"

definition parent_directory :: "string \<Rightarrow> string option" where
  "parent_directory path = (case rfind_char slash path of None \<Rightarrow> None
    | Some slash_at \<Rightarrow> if slash_at = 0 then Some ''/'' else Some (take slash_at path))"

definition ensure_tmpfs_parent :: "string \<Rightarrow> tmpfs_error + unit" where
  "ensure_tmpfs_parent path =
    (if \<not> handles_path path then Inl TmpfsInvalidPath
     else if path = TMP_ROOT_PATH \<or> path = RUN_ROOT_PATH then Inr ()
     else case parent_directory path of None \<Rightarrow> Inl TmpfsInvalidPath
       | Some parent \<Rightarrow>
           if parent = TMP_ROOT_PATH \<or> parent = RUN_ROOT_PATH then Inr () else Inl TmpfsInvalidPath)"

text \<open>\<^verbatim>\<open>iter_mut().find(..)\<close> followed by an update of the file found.\<close>

fun update_first :: "('a \<Rightarrow> bool) \<Rightarrow> ('a \<Rightarrow> 'a) \<Rightarrow> 'a list \<Rightarrow> 'a list" where
  "update_first P f [] = []"
| "update_first P f (x # xs) = (if P x then f x # xs else x # update_first P f xs)"

definition tmpfs_open_file ::
  "tmpfs \<Rightarrow> string \<Rightarrow> bool \<Rightarrow> bool \<Rightarrow> tmpfs \<times> (tmpfs_error + tmpfs_opened)" where
  "tmpfs_open_file st path create trunc = (case tmpfs_normalize_path path of
      None \<Rightarrow> (st, Inl TmpfsInvalidPath)
    | Some normalized \<Rightarrow> (case ensure_tmpfs_parent normalized of Inl e \<Rightarrow> (st, Inl e)
      | Inr _ \<Rightarrow> (case st of None \<Rightarrow> (st, Inl TmpfsNotInitialized)
        | Some state \<Rightarrow>
            if normalized = TMP_ROOT_PATH \<or> normalized = RUN_ROOT_PATH then (st, Inl TmpfsIsDirectory)
            else (case find (\<lambda>file. tf_path file = normalized) (tf_files state) of
                Some file \<Rightarrow>
                  let content = (if trunc then [] else tf_content file);
                      files = update_first (\<lambda>file. tf_path file = normalized)
                        (\<lambda>file. file\<lparr> tf_content := content \<rparr>) (tf_files state)
                  in (Some (state\<lparr> tf_files := files \<rparr>),
                      Inr \<lparr> to_path = normalized, to_content = content \<rparr>)
              | None \<Rightarrow>
                  if \<not> create then (st, Inl TmpfsNotFound)
                  else if MAX_TMPFS_FILES \<le> length (tf_files state) then (st, Inl TmpfsFileLimitReached)
                  else (Some (state\<lparr> tf_files := tf_files state @ [\<lparr> tf_path = normalized, tf_content = [] \<rparr>] \<rparr>),
                        Inr \<lparr> to_path = normalized, to_content = [] \<rparr>)))))"

definition tmpfs_write_file :: "tmpfs \<Rightarrow> string \<Rightarrow> bytes \<Rightarrow> tmpfs \<times> (tmpfs_error + unit)" where
  "tmpfs_write_file st path content = (case tmpfs_normalize_path path of
      None \<Rightarrow> (st, Inl TmpfsInvalidPath)
    | Some normalized \<Rightarrow> (case ensure_tmpfs_parent normalized of Inl e \<Rightarrow> (st, Inl e)
      | Inr _ \<Rightarrow> (case st of None \<Rightarrow> (st, Inl TmpfsNotInitialized)
        | Some state \<Rightarrow> (case find (\<lambda>file. tf_path file = normalized) (tf_files state) of
              None \<Rightarrow> (st, Inl TmpfsNotFound)
            | Some file \<Rightarrow>
                (Some (state\<lparr> tf_files := update_first (\<lambda>file. tf_path file = normalized)
                    (\<lambda>file. file\<lparr> tf_content := content \<rparr>) (tf_files state) \<rparr>), Inr ())))))"

section \<open>The abstract file system\<close>

datatype tmp_root = Tmp | Run

type_synonym tmp_view = "tmp_root \<times> string \<Rightarrow> bytes option"

definition tmpfs_path :: "tmp_root \<times> string \<Rightarrow> string" where
  "tmpfs_path k = (case k of (Tmp, n) \<Rightarrow> ''/tmp/'' @ n | (Run, n) \<Rightarrow> ''/run/'' @ n)"

definition tmpfs_key :: "string \<Rightarrow> (tmp_root \<times> string) option" where
  "tmpfs_key p = (case split_path p of
      [e, d, n] \<Rightarrow>
        if e = [] \<and> clean n then
          (if d = ''tmp'' then Some (Tmp, n) else if d = ''run'' then Some (Run, n) else None)
        else None
    | _ \<Rightarrow> None)"

definition tmpfs_view :: "tmpfs_state \<Rightarrow> tmp_view" where
  "tmpfs_view s k = map_option tf_content (find (\<lambda>file. tf_path file = tmpfs_path k) (tf_files s))"

definition tmpfs_wf :: "tmpfs_state \<Rightarrow> bool" where
  "tmpfs_wf s = (tf_initialized s \<and> length (tf_files s) \<le> MAX_TMPFS_FILES
    \<and> distinct (map tf_path (tf_files s)) \<and> (\<forall>f \<in> set (tf_files s). tmpfs_key (tf_path f) \<noteq> None))"

definition spec_open :: "tmp_view \<Rightarrow> string \<Rightarrow> bool \<Rightarrow> bool \<Rightarrow> tmp_view \<times> (tmpfs_error + tmpfs_opened)" where
  "spec_open m path create trunc = (case normalize_path path of
      None \<Rightarrow> (m, Inl TmpfsInvalidPath)
    | Some q \<Rightarrow>
        if q = ''/tmp'' \<or> q = ''/run'' then (m, Inl TmpfsIsDirectory)
        else (case tmpfs_key q of None \<Rightarrow> (m, Inl TmpfsInvalidPath)
          | Some k \<Rightarrow> (case m k of
              Some c \<Rightarrow> let c = (if trunc then [] else c) in (m(k \<mapsto> c), Inr \<lparr> to_path = q, to_content = c \<rparr>)
            | None \<Rightarrow>
                if \<not> create then (m, Inl TmpfsNotFound)
                else if 256 \<le> card (dom m) then (m, Inl TmpfsFileLimitReached)
                else (m(k \<mapsto> []), Inr \<lparr> to_path = q, to_content = [] \<rparr>))))"

definition spec_write :: "tmp_view \<Rightarrow> string \<Rightarrow> bytes \<Rightarrow> tmp_view \<times> (tmpfs_error + unit)" where
  "spec_write m path content = (case normalize_path path of
      None \<Rightarrow> (m, Inl TmpfsInvalidPath)
    | Some q \<Rightarrow>
        if q = ''/tmp'' \<or> q = ''/run'' then (m, Inl TmpfsNotFound)
        else (case tmpfs_key q of None \<Rightarrow> (m, Inl TmpfsInvalidPath)
          | Some k \<Rightarrow> (case m k of
              Some _ \<Rightarrow> (m(k \<mapsto> content), Inr ())
            | None \<Rightarrow> (m, Inl TmpfsNotFound))))"

section \<open>Paths of files\<close>

lemma clean_tmp [simp]: "clean ''tmp''" "clean ''run''"
  by (simp_all add: clean_def)

lemma tmpfs_path_render:
  "tmpfs_path (Tmp, n) = render_segments [''tmp'', n]" "tmpfs_path (Run, n) = render_segments [''run'', n]"
  by (simp_all add: tmpfs_path_def render_segments_def)

lemma root_render: "''/tmp'' = render_segments [''tmp'']" "''/run'' = render_segments [''run'']"
  by (simp_all add: render_segments_def)

lemma split_path_tmpfs:
  "clean n \<Longrightarrow> split_path (tmpfs_path (r, n)) = [[], case r of Tmp \<Rightarrow> ''tmp'' | Run \<Rightarrow> ''run'', n]"
  by (cases r) (simp_all add: tmpfs_path_render split_path_render)

lemma tmpfs_key_path [simp]: "clean n \<Longrightarrow> tmpfs_key (tmpfs_path (r, n)) = Some (r, n)"
  by (cases r) (simp_all add: tmpfs_key_def split_path_tmpfs)

lemma tmpfs_keyD:
  assumes "tmpfs_key p = Some k"
  shows "p = tmpfs_path k" and "clean (snd k)"
proof -
  from assms obtain d n where sp: "split_path p = [[], d, n]" and n: "clean n"
    and k: "d = ''tmp'' \<and> k = (Tmp, n) \<or> d = ''run'' \<and> k = (Run, n)"
    by (auto simp: tmpfs_key_def split: list.splits if_splits)
  have "p = join_with ''/'' [[], d, n]"
    using join_split [of slash p] sp by (simp add: split_path_def)
  with k show "p = tmpfs_path k" by (auto simp: tmpfs_path_def)
  from k n show "clean (snd k)" by auto
qed

lemma tmpfs_path_inj [simp]: "tmpfs_path j = tmpfs_path k \<longleftrightarrow> j = k"
  by (cases j; cases k; cases "fst j"; cases "fst k") (simp_all add: tmpfs_path_def)

lemma rfind_char_last: "c \<notin> set t \<Longrightarrow> rfind_char c (s @ c # t) = Some (length s)"
proof -
  assume "c \<notin> set t"
  then have "find_index (\<lambda>d. d = c) (rev (s @ c # t)) = Some (length t)"
    by (intro find_index_eqI) (auto simp: nth_append rev_nth)
  then show ?thesis by (simp add: rfind_char_def)
qed

lemma render_snoc: "render_segments (ss @ [s]) = (if ss = [] then [] else render_segments ss) @ slash # s"
  by (simp add: render_segments_def join_with_snoc)

lemma parent_render:
  assumes "clean s"
  shows "parent_directory (render_segments (ss @ [s])) = Some (render_segments ss)"
proof -
  have "slash \<notin> set s" using assms clean_no_slash by blast
  then have "rfind_char slash (render_segments (ss @ [s])) = Some (length (if ss = [] then [] else render_segments ss))"
    unfolding render_snoc by (rule rfind_char_last)
  moreover have "ss \<noteq> [] \<Longrightarrow> render_segments ss \<noteq> []" by (simp add: render_segments_def)
  moreover have "take (length (render_segments ss)) (render_segments (ss @ [s])) = render_segments ss" if "ss \<noteq> []"
    using that by (simp add: render_snoc)
  ultimately show ?thesis
    by (cases "ss = []") (simp_all add: parent_directory_def render_segments_def [of "[]"])
qed

lemma ensure_tmpfs_parent_key:
  assumes "normal_path q"
  shows "ensure_tmpfs_parent q =
    (if q = ''/tmp'' \<or> q = ''/run'' \<or> tmpfs_key q \<noteq> None then Inr () else Inl TmpfsInvalidPath)"
proof (cases "q = ''/tmp'' \<or> q = ''/run''")
  case True
  then show ?thesis
    by (auto simp: ensure_tmpfs_parent_def handles_path_def TMP_ROOT_PATH_def RUN_ROOT_PATH_def)
next
  case False
  have parent: "parent_directory q = Some ''/tmp'' \<or> parent_directory q = Some ''/run'' \<longleftrightarrow> tmpfs_key q \<noteq> None"
  proof
    assume "parent_directory q = Some ''/tmp'' \<or> parent_directory q = Some ''/run''"
    moreover obtain ss where q: "q = render_segments ss" and c: "\<forall>s \<in> set ss. clean s"
      using assms by (rule normal_pathE)
    moreover have "ss \<noteq> []"
      using calculation(1) by (auto simp: q render_segments_def parent_directory_def rfind_char_def)
    moreover from this obtain ts t where ss: "ss = ts @ [t]" by (metis rev_exhaust)
    ultimately have "render_segments ts = render_segments [''tmp''] \<or> render_segments ts = render_segments [''run'']"
      by (simp add: parent_render flip: root_render)
    then have "ts = [''tmp''] \<or> ts = [''run'']"
      using render_inj [of ts "[''tmp'']"] render_inj [of ts "[''run'']"] c ss by auto
    then have "q = tmpfs_path (Tmp, t) \<or> q = tmpfs_path (Run, t)"
      by (auto simp: q ss tmpfs_path_render)
    moreover have "clean t" using c ss by simp
    ultimately show "tmpfs_key q \<noteq> None" by auto
  next
    assume "tmpfs_key q \<noteq> None"
    then obtain r n where "q = tmpfs_path (r, n)" and "clean n"
      using tmpfs_keyD by (metis option.exhaust prod.exhaust snd_conv)
    then show "parent_directory q = Some ''/tmp'' \<or> parent_directory q = Some ''/run''"
      using parent_render [of n "[''tmp'']"] parent_render [of n "[''run'']"]
      by (cases r) (simp_all add: tmpfs_path_render flip: root_render)
  qed
  moreover have "handles_path q" if "tmpfs_key q = Some k" for k
    using tmpfs_keyD [OF that] by (cases k; cases "fst k")
      (auto simp: handles_path_def tmpfs_path_def starts_with_def)
  ultimately show ?thesis
    using False by (cases "tmpfs_key q"; cases "parent_directory q")
      (auto simp: ensure_tmpfs_parent_def TMP_ROOT_PATH_def RUN_ROOT_PATH_def)
qed

section \<open>Refinement\<close>

lemma find_update_first:
  "(\<And>x. P x \<Longrightarrow> P (f x)) \<Longrightarrow> find P (update_first P f xs) = map_option f (find P xs)"
  by (induction xs) auto

lemma find_update_first_other:
  "(\<And>x. P x \<Longrightarrow> \<not> Q x \<and> \<not> Q (f x)) \<Longrightarrow> find Q (update_first P f xs) = find Q xs"
  by (induction xs) auto

lemma map_update_first: "(\<And>x. g (f x) = g x) \<Longrightarrow> map g (update_first P f xs) = map g xs"
  by (induction xs) auto

lemma find_snoc: "find P (xs @ [x]) = (case find P xs of None \<Rightarrow> if P x then Some x else None | Some y \<Rightarrow> Some y)"
  by (induction xs) auto

text \<open>Setting the content of an existing file, and adding a new one, on both levels.\<close>

lemma tmpfs_view_set:
  assumes "tmpfs_view s k = Some c"
  shows "tmpfs_view (s\<lparr> tf_files := update_first (\<lambda>file. tf_path file = tmpfs_path k)
      (\<lambda>file. file\<lparr> tf_content := c' \<rparr>) (tf_files s) \<rparr>) = (tmpfs_view s)(k \<mapsto> c')"
proof
  fix j
  show "tmpfs_view (s\<lparr> tf_files := update_first (\<lambda>file. tf_path file = tmpfs_path k)
      (\<lambda>file. file\<lparr> tf_content := c' \<rparr>) (tf_files s) \<rparr>) j = ((tmpfs_view s)(k \<mapsto> c')) j"
  proof (cases "j = k")
    case True
    with assms show ?thesis by (auto simp: tmpfs_view_def find_update_first)
  next
    case False
    then have "find (\<lambda>file. tf_path file = tmpfs_path j) (update_first (\<lambda>file. tf_path file = tmpfs_path k)
        (\<lambda>file. file\<lparr> tf_content := c' \<rparr>) (tf_files s)) = find (\<lambda>file. tf_path file = tmpfs_path j) (tf_files s)"
      by (intro find_update_first_other) auto
    with False show ?thesis by (simp add: tmpfs_view_def)
  qed
qed

lemma tmpfs_view_add:
  assumes "tmpfs_view s k = None"
  shows "tmpfs_view (s\<lparr> tf_files := tf_files s @ [\<lparr> tf_path = tmpfs_path k, tf_content = c \<rparr>] \<rparr>) =
    (tmpfs_view s)(k \<mapsto> c)"
  using assms by (auto simp: tmpfs_view_def find_snoc fun_eq_iff split: option.splits)

lemma tmpfs_view_None: "tmpfs_view s k = None \<longleftrightarrow> tmpfs_path k \<notin> tf_path ` set (tf_files s)"
  unfolding tmpfs_view_def option.map_disc_iff find_None_iff by force

lemma tmpfs_wf_add:
  "tmpfs_wf s \<Longrightarrow> tmpfs_view s k = None \<Longrightarrow> clean (snd k) \<Longrightarrow> length (tf_files s) < MAX_TMPFS_FILES \<Longrightarrow>
    tmpfs_wf (s\<lparr> tf_files := tf_files s @ [\<lparr> tf_path = tmpfs_path k, tf_content = c \<rparr>] \<rparr>)"
  using tmpfs_key_path [of "snd k" "fst k"] by (simp add: tmpfs_wf_def tmpfs_view_None)

lemma card_tmpfs_view: "tmpfs_wf s \<Longrightarrow> card (dom (tmpfs_view s)) = length (tf_files s)"
proof -
  assume wf: "tmpfs_wf s"
  have "tmpfs_path ` dom (tmpfs_view s) = tf_path ` set (tf_files s)"
  proof
    show "tmpfs_path ` dom (tmpfs_view s) \<subseteq> tf_path ` set (tf_files s)"
      using tmpfs_view_None [of s] by (metis domIff image_subsetI)
    show "tf_path ` set (tf_files s) \<subseteq> tmpfs_path ` dom (tmpfs_view s)"
    proof
      fix p assume p: "p \<in> tf_path ` set (tf_files s)"
      then obtain k where "tmpfs_key p = Some k"
        using wf by (auto simp: tmpfs_wf_def)
      then have "p = tmpfs_path k" by (rule tmpfs_keyD)
      moreover from this p have "k \<in> dom (tmpfs_view s)"
        using tmpfs_view_None [of s k] by (simp add: domIff)
      ultimately show "p \<in> tmpfs_path ` dom (tmpfs_view s)" by simp
    qed
  qed
  moreover have "card (tmpfs_path ` dom (tmpfs_view s)) = card (dom (tmpfs_view s))"
    by (intro card_image inj_onI) simp
  moreover have "card (tf_path ` set (tf_files s)) = length (tf_files s)"
    using wf distinct_card [of "map tf_path (tf_files s)"] by (simp add: tmpfs_wf_def)
  ultimately show ?thesis by simp
qed

lemma tmpfs_wf_set:
  "tmpfs_wf s \<Longrightarrow> tmpfs_wf (s\<lparr> tf_files := update_first P (\<lambda>file. file\<lparr> tf_content := c \<rparr>) (tf_files s) \<rparr>)"
proof -
  assume wf: "tmpfs_wf s"
  let ?u = "update_first P (\<lambda>file. file\<lparr> tf_content := c \<rparr>) (tf_files s)"
  have m: "map tf_path ?u = map tf_path (tf_files s)" by (rule map_update_first) simp
  from m have "length ?u = length (tf_files s)" using map_eq_imp_length_eq by blast
  moreover from m have "tf_path ` set ?u = tf_path ` set (tf_files s)" by (metis set_map)
  then have "\<forall>f \<in> set ?u. tmpfs_key (tf_path f) \<noteq> None"
    using wf unfolding tmpfs_wf_def by (metis (no_types, lifting) image_iff)
  ultimately show ?thesis using wf m by (simp add: tmpfs_wf_def)
qed

lemma normalize_root_key:
  "normalize_path p = Some q \<Longrightarrow> q = ''/tmp'' \<or> q = ''/run'' \<Longrightarrow> tmpfs_key q = None"
  by (auto simp: tmpfs_key_def split_path_def)

lemma tmpfs_open_sim:
  assumes "tmpfs_wf s" and "tmpfs_open_file (Some s) path create trunc = (st', r)"
  shows "\<exists>s'. st' = Some s' \<and> tmpfs_wf s' \<and> spec_open (tmpfs_view s) path create trunc = (tmpfs_view s', r)"
proof (cases "normalize_path path")
  case None
  with assms show ?thesis by (auto simp: tmpfs_open_file_def spec_open_def)
next
  case q: (Some q)
  have ens: "ensure_tmpfs_parent q =
      (if q = ''/tmp'' \<or> q = ''/run'' \<or> tmpfs_key q \<noteq> None then Inr () else Inl TmpfsInvalidPath)"
    using normalize_path_normal [OF q] by (rule ensure_tmpfs_parent_key)
  show ?thesis
  proof (cases "q = ''/tmp'' \<or> q = ''/run'' \<or> tmpfs_key q = None")
    case True
    with assms q ens show ?thesis
      by (auto simp: tmpfs_open_file_def spec_open_def TMP_ROOT_PATH_def RUN_ROOT_PATH_def split: if_splits)
  next
    case False
    then obtain k where roots: "q \<noteq> ''/tmp''" "q \<noteq> ''/run''" and k: "tmpfs_key q = Some k" by auto
    note qk = tmpfs_keyD [OF k]
    show ?thesis
    proof (cases "tmpfs_view s k")
      case None
      then have "find (\<lambda>file. tf_path file = q) (tf_files s) = None"
        by (simp add: tmpfs_view_def qk(1))
      with assms q ens roots k None show ?thesis
        by (auto simp: tmpfs_open_file_def spec_open_def TMP_ROOT_PATH_def RUN_ROOT_PATH_def
            card_tmpfs_view MAX_TMPFS_FILES_def qk tmpfs_view_add tmpfs_wf_add split: if_splits)
    next
      case (Some c)
      then obtain f where f: "find (\<lambda>file. tf_path file = q) (tf_files s) = Some f" "tf_content f = c"
        by (auto simp: tmpfs_view_def qk(1))
      with assms q ens roots k Some show ?thesis
        by (auto simp: tmpfs_open_file_def spec_open_def TMP_ROOT_PATH_def RUN_ROOT_PATH_def Let_def
            tmpfs_wf_set qk tmpfs_view_set)
    qed
  qed
qed

lemma tmpfs_write_sim:
  assumes "tmpfs_wf s" and "tmpfs_write_file (Some s) path content = (st', r)"
  shows "\<exists>s'. st' = Some s' \<and> tmpfs_wf s' \<and> spec_write (tmpfs_view s) path content = (tmpfs_view s', r)"
proof (cases "normalize_path path")
  case None
  with assms show ?thesis by (auto simp: tmpfs_write_file_def spec_write_def)
next
  case q: (Some q)
  have ens: "ensure_tmpfs_parent q =
      (if q = ''/tmp'' \<or> q = ''/run'' \<or> tmpfs_key q \<noteq> None then Inr () else Inl TmpfsInvalidPath)"
    using normalize_path_normal [OF q] by (rule ensure_tmpfs_parent_key)
  show ?thesis
  proof (cases "tmpfs_key q")
    case None
    have "find (\<lambda>file. tf_path file = q) (tf_files s) = None"
      using assms(1) None by (auto simp: find_None_iff tmpfs_wf_def)
    with assms q ens None show ?thesis
      by (auto simp: tmpfs_write_file_def spec_write_def split: if_splits)
  next
    case k: (Some k)
    then have roots: "q \<noteq> ''/tmp''" "q \<noteq> ''/run''" using normalize_root_key [OF q] by auto
    note qk = tmpfs_keyD [OF k]
    have "find (\<lambda>file. tf_path file = q) (tf_files s) = None \<longleftrightarrow> tmpfs_view s k = None"
      by (simp add: tmpfs_view_def qk(1))
    moreover have "tmpfs_view (s\<lparr> tf_files := update_first (\<lambda>file. tf_path file = q)
        (\<lambda>file. file\<lparr> tf_content := content \<rparr>) (tf_files s) \<rparr>) = (tmpfs_view s)(k \<mapsto> content)"
      if "tmpfs_view s k = Some c" for c
      unfolding qk(1) using that by (rule tmpfs_view_set)
    moreover note tmpfs_wf_set [OF assms(1)]
    ultimately show ?thesis using assms q ens roots k
      by (cases "tmpfs_view s k") (auto simp: tmpfs_write_file_def spec_write_def)
  qed
qed

lemma tmpfs_read_bytes_view:
  assumes "tmpfs_wf s"
  shows "tmpfs_read_bytes (Some s) path =
    Option.bind (normalize_path path) (\<lambda>q. Option.bind (tmpfs_key q) (tmpfs_view s))"
proof (cases "normalize_path path")
  case (Some q)
  show ?thesis
  proof (cases "tmpfs_key q")
    case None
    have "find (\<lambda>file. tf_path file = q) (tf_files s) = None"
      using assms None by (auto simp: find_None_iff tmpfs_wf_def)
    with Some None show ?thesis by (simp add: tmpfs_read_bytes_def)
  next
    case (Some k)
    with \<open>normalize_path path = Some q\<close> show ?thesis
      by (simp add: tmpfs_read_bytes_def tmpfs_view_def flip: tmpfs_keyD(1))
  qed
qed (simp add: tmpfs_read_bytes_def)

section \<open>Directory listings\<close>

definition root_path :: "tmp_root \<Rightarrow> string" where
  "root_path r = (case r of Tmp \<Rightarrow> ''/tmp'' | Run \<Rightarrow> ''/run'')"

lemma direct_child_name_path:
  assumes "clean n"
  shows "direct_child_name (root_path r) (tmpfs_path (r', n)) = (if r' = r then Some n else None)"
proof -
  have "slash \<notin> set n" "n \<noteq> []" using assms by (simp_all add: clean_def)
  then show ?thesis
    by (cases r; cases r')
      (simp_all add: root_path_def tmpfs_path_def direct_child_name_def starts_with_def strip_prefix_def)
qed

lemma map_filter_children:
  assumes "\<forall>p \<in> set ps. tmpfs_key p \<noteq> None" and "distinct ps"
  shows "set (List.map_filter (direct_child_name (root_path r)) ps) = {n. tmpfs_path (r, n) \<in> set ps}"
    and "distinct (List.map_filter (direct_child_name (root_path r)) ps)"
proof -
  have child: "direct_child_name (root_path r) p = Some n \<longleftrightarrow> p = tmpfs_path (r, n)" if p: "p \<in> set ps" for p n
  proof -
    obtain k where k: "tmpfs_key p = Some k" using bspec [OF assms(1) p] by (cases "tmpfs_key p") auto
    obtain r' n' where rn: "k = (r', n')" by (cases k)
    have "p = tmpfs_path (r', n')" using tmpfs_keyD(1) [OF k] unfolding rn .
    moreover have "clean n'" using tmpfs_keyD(2) [OF k] unfolding rn snd_conv .
    ultimately show ?thesis by (simp add: direct_child_name_path)
  qed
  show "set (List.map_filter (direct_child_name (root_path r)) ps) = {n. tmpfs_path (r, n) \<in> set ps}"
    unfolding set_map_filter_Some using child by (auto simp: child)
  show "distinct (List.map_filter (direct_child_name (root_path r)) ps)"
    using assms(2) child by (intro distinct_map_filter_Some) auto
qed

lemma render_directory_view:
  assumes "tmpfs_wf s"
  shows "tmpfs_render_directory (Some s) (root_path r) =
    Some (writeln_all (sorted_list_of_set {n. tmpfs_view s (r, n) \<noteq> None}))"
proof -
  let ?ps = "map tf_path (tf_files s)"
  let ?names = "List.map_filter (direct_child_name (root_path r)) ?ps"
  have ps: "\<forall>p \<in> set ?ps. tmpfs_key p \<noteq> None" "distinct ?ps"
    using assms by (auto simp: tmpfs_wf_def)
  have "set ?names = {n. tmpfs_view s (r, n) \<noteq> None}"
    using map_filter_children(1) [OF ps] by (simp add: tmpfs_view_None)
  moreover have "sort ?names = sorted_list_of_set (set ?names)"
    using map_filter_children(2) [OF ps] by (simp add: sorted_list_of_set_sort_remdups distinct_remdups_id)
  moreover have "List.map_filter (\<lambda>file. direct_child_name (root_path r) (tf_path file)) (tf_files s) = ?names"
    by (simp add: map_filter_def filter_map comp_def)
  ultimately show ?thesis
    by (simp add: tmpfs_render_directory_def)
qed

section \<open>Properties\<close>

text \<open>
  C16. Opening and writing refine the map: on a well-formed file table, \<^verbatim>\<open>open_file\<close> and
  \<^verbatim>\<open>write_file\<close> return exactly the result or the error the abstract file system gives, the
  new table is well formed, and it represents the new map; \<^verbatim>\<open>read_bytes\<close> reads the map.
\<close>

theorem tmpfs_refines_map:
  assumes "tmpfs_wf s"
  shows "(\<exists>s'. fst (tmpfs_open_file (Some s) path create trunc) = Some s' \<and> tmpfs_wf s'
      \<and> spec_open (tmpfs_view s) path create trunc = (tmpfs_view s', snd (tmpfs_open_file (Some s) path create trunc)))
    \<and> (\<exists>s'. fst (tmpfs_write_file (Some s) path content) = Some s' \<and> tmpfs_wf s'
      \<and> spec_write (tmpfs_view s) path content = (tmpfs_view s', snd (tmpfs_write_file (Some s) path content)))
    \<and> tmpfs_read_bytes (Some s) path =
      Option.bind (normalize_path path) (\<lambda>q. Option.bind (tmpfs_key q) (tmpfs_view s))"
  using tmpfs_open_sim [OF assms surjective_pairing] tmpfs_write_sim [OF assms surjective_pairing]
    tmpfs_read_bytes_view [OF assms] by blast

theorem tmpfs_refines_map_witness:
  "tmpfs_read_bytes (Some \<lparr> tf_initialized = True, tf_files = [\<lparr> tf_path = ''/tmp/a'', tf_content = [7] \<rparr>] \<rparr>) ''/run/../tmp/a''
    = Option.bind (normalize_path ''/run/../tmp/a'') (\<lambda>q. Option.bind (tmpfs_key q)
        (tmpfs_view \<lparr> tf_initialized = True, tf_files = [\<lparr> tf_path = ''/tmp/a'', tf_content = [7] \<rparr>] \<rparr>))"
proof -
  have "tmpfs_wf \<lparr> tf_initialized = True, tf_files = [\<lparr> tf_path = ''/tmp/a'', tf_content = [7] \<rparr>] \<rparr>"
    by code_simp
  then show ?thesis using tmpfs_refines_map by blast
qed

text \<open>
  C40. What is written is read back: after a successful \<^verbatim>\<open>write_file\<close>, reading any spelling of
  the same path gives the bytes written, and every path that names another file reads as
  before.
\<close>

theorem tmpfs_write_read:
  assumes "tmpfs_wf s" and "tmpfs_write_file (Some s) path content = (st', Inr ())"
  shows "tmpfs_read_bytes st' path' =
    (if normalize_path path' = normalize_path path then Some content else tmpfs_read_bytes (Some s) path')"
proof -
  obtain s' where st': "st' = Some s'" and wf: "tmpfs_wf s'"
    and spec: "spec_write (tmpfs_view s) path content = (tmpfs_view s', Inr ())"
    using tmpfs_write_sim [OF assms] by blast
  from spec obtain q k where q: "normalize_path path = Some q" and k: "tmpfs_key q = Some k"
    and view: "tmpfs_view s' = (tmpfs_view s)(k \<mapsto> content)"
    by (auto simp: spec_write_def split: option.splits if_splits)
  note reads = tmpfs_read_bytes_view [OF wf, of path'] tmpfs_read_bytes_view [OF assms(1), of path']
  show ?thesis
  proof (cases "normalize_path path'")
    case None
    with q reads show ?thesis by (simp add: st')
  next
    case q': (Some q')
    show ?thesis
    proof (cases "q' = q")
      case True
      with q q' k reads(1) show ?thesis by (simp add: st' view)
    next
      case False
      then have "tmpfs_key q' \<noteq> Some k" using tmpfs_keyD(1) [OF k] tmpfs_keyD(1) [of q' k] by blast
      with False q q' reads show ?thesis by (cases "tmpfs_key q'") (auto simp: st' view)
    qed
  qed
qed

theorem tmpfs_write_read_witness:
  "tmpfs_read_bytes (fst (tmpfs_write_file (Some \<lparr> tf_initialized = True,
      tf_files = [\<lparr> tf_path = ''/tmp/a'', tf_content = [7] \<rparr>] \<rparr>) ''/tmp/a'' [1, 2])) ''/tmp/./a'' = Some [1, 2]"
proof -
  let ?s = "\<lparr> tf_initialized = True, tf_files = [\<lparr> tf_path = ''/tmp/a'', tf_content = [7] \<rparr>] \<rparr>"
  have wf: "tmpfs_wf ?s" by code_simp
  have w: "tmpfs_write_file (Some ?s) ''/tmp/a'' [1, 2] =
      (fst (tmpfs_write_file (Some ?s) ''/tmp/a'' [1, 2]), Inr ())"
    by code_simp
  have "normalize_path ''/tmp/./a'' = normalize_path ''/tmp/a''" by code_simp
  with tmpfs_write_read [OF wf w, of "''/tmp/./a''"] show ?thesis by simp
qed

text \<open>
  A directory listing is exactly the files of the directory: reading \<^verbatim>\<open>/tmp\<close> or \<^verbatim>\<open>/run\<close>
  gives the names of its files in ascending order, each once, one per line.
\<close>

theorem tmpfs_listing:
  assumes "tmpfs_wf s"
  shows "tmpfs_read (Some s) (root_path r) =
    Some (writeln_all (sorted_list_of_set {n. tmpfs_view s (r, n) \<noteq> None}))"
proof -
  have n: "normalize_path (root_path r) = Some (root_path r)"
    by (cases r) (simp_all add: root_path_def root_render normalize_render)
  have "tmpfs_node_kind (Some s) (root_path r) = Some TmpfsDirectory"
    using n by (cases r) (simp_all add: tmpfs_node_kind_def root_path_def TMP_ROOT_PATH_def RUN_ROOT_PATH_def)
  with n show ?thesis
    by (simp add: tmpfs_read_def render_directory_view [OF assms])
qed

theorem tmpfs_listing_witness:
  "tmpfs_read (Some \<lparr> tf_initialized = True, tf_files = [\<lparr> tf_path = ''/tmp/b'', tf_content = [] \<rparr>,
      \<lparr> tf_path = ''/run/c'', tf_content = [] \<rparr>, \<lparr> tf_path = ''/tmp/a'', tf_content = [7] \<rparr>] \<rparr>) (root_path Tmp) =
    Some (writeln_all (sorted_list_of_set {n. tmpfs_view \<lparr> tf_initialized = True,
      tf_files = [\<lparr> tf_path = ''/tmp/b'', tf_content = [] \<rparr>,
      \<lparr> tf_path = ''/run/c'', tf_content = [] \<rparr>, \<lparr> tf_path = ''/tmp/a'', tf_content = [7] \<rparr>] \<rparr> (Tmp, n) \<noteq> None}))"
  by (rule tmpfs_listing) code_simp

end
