(* ===== verification/Devfs.thy ===== *)
theory Devfs
  imports Text
begin

text \<open>
  The device and process file systems (\<^verbatim>\<open>src/kernel/src/devfs.rs\<close>, \<^verbatim>\<open>src/kernel/src/procfs.rs\<close>):
  fixed sets of names and the texts behind them.  The console and frame buffer figures the
  device texts show are arguments.  Of the process files the directory and the version are
  rendered here; the texts made of run-time statistics are a function \<open>proc_text\<close>.
\<close>

section \<open>Numbers as text\<close>

definition digit_char :: "nat \<Rightarrow> char" where
  "digit_char d = char_of (if d < 10 then 48 + d else 87 + d)"

function show_base :: "nat \<Rightarrow> nat \<Rightarrow> string" where
  "show_base b n = (if n < b \<or> b < 2 then [digit_char n] else show_base b (n div b) @ [digit_char (n mod b)])"
  by pat_completeness auto
termination by (relation "measure snd") auto

declare show_base.simps [simp del]

abbreviation show_nat :: "nat \<Rightarrow> string" where
  "show_nat \<equiv> show_base 10"

definition line :: "string \<Rightarrow> string" where
  "line s = s @ [CHR 0x0A]"

section \<open>The device file system\<close>

definition DEVFS_DIRECTORIES :: "string list" where
  "DEVFS_DIRECTORIES = [''/'', ''/dev'']"

definition DEVFS_NODES :: "string list" where
  "DEVFS_NODES = [''/dev/console'', ''/dev/tty0'', ''/dev/tty1'', ''/dev/tty2'', ''/dev/tty3'',
    ''/dev/null'', ''/dev/zero'', ''/dev/kmsg'', ''/dev/fb0'']"

record devfs_state =
  ds_boot_console_id :: u32
  ds_boot_output_count :: u8

record tty_stats =
  ty_console_id :: u32
  ty_output_count :: u8
  ty_bytes_written :: u64
  ty_lines_written :: u64

record framebuffer_summary =
  fb_width :: u64
  fb_height :: u64
  fb_pitch :: u64
  fb_bpp :: u16

record devices =
  dv_tty :: tty_stats
  dv_fb :: "framebuffer_summary option"
  dv_fb_address :: "u64 option"

datatype dev_kind = DevDirectory | DevDevice
datatype devfs_error = DevfsAlreadyInitialized

record devfs_summary =
  dsum_directory_count :: nat
  dsum_node_count :: nat
  dsum_entry_count :: nat

definition devfs_summary_of :: devfs_summary where
  "devfs_summary_of = \<lparr> dsum_directory_count = length DEVFS_DIRECTORIES, dsum_node_count = length DEVFS_NODES,
    dsum_entry_count = length DEVFS_DIRECTORIES + length DEVFS_NODES \<rparr>"

definition devfs_initialize ::
  "devices \<Rightarrow> devfs_state option \<Rightarrow> devfs_state option \<times> (devfs_error + devfs_summary)" where
  "devfs_initialize dv slot =
    (if slot \<noteq> None then (slot, Inl DevfsAlreadyInitialized)
     else (Some \<lparr> ds_boot_console_id = ty_console_id (dv_tty dv),
         ds_boot_output_count = ty_output_count (dv_tty dv) \<rparr>, Inr devfs_summary_of))"

definition devfs_node_kind :: "string \<Rightarrow> dev_kind option" where
  "devfs_node_kind path =
    (if path = ''/dev'' \<or> path = ''/dev/'' then Some DevDirectory
     else if list_ex (\<lambda>node. node = path) DEVFS_NODES then Some DevDevice
     else None)"

definition devfs_mmap :: "devices \<Rightarrow> string \<Rightarrow> (u64 \<times> nat) option" where
  "devfs_mmap dv path =
    (if path = ''/dev/fb0'' then
       (case dv_fb dv of None \<Rightarrow> None
        | Some fb \<Rightarrow> map_option (\<lambda>phys. (phys, unat (fb_pitch fb * fb_height fb))) (dv_fb_address dv))
     else None)"

definition devfs_render_root :: string where
  "devfs_render_root = concat (map (\<lambda>node. line (drop (length ''/dev/'') node)) DEVFS_NODES)"

definition render_console :: "devices \<Rightarrow> devfs_state \<Rightarrow> string \<Rightarrow> string" where
  "render_console dv state path =
    line (''path '' @ path) @ line ''kind tty-console''
    @ line (''console_id '' @ show_nat (unat (ty_console_id (dv_tty dv))))
    @ line (''outputs '' @ show_nat (unat (ty_output_count (dv_tty dv))))
    @ line (''bytes '' @ show_nat (unat (ty_bytes_written (dv_tty dv))))
    @ line (''lines '' @ show_nat (unat (ty_lines_written (dv_tty dv))))
    @ line (''boot_console_id '' @ show_nat (unat (ds_boot_console_id state)))
    @ line (''boot_outputs '' @ show_nat (unat (ds_boot_output_count state)))"

definition render_null :: string where
  "render_null = line ''path /dev/null'' @ line ''kind sink'' @ line ''reads eof'' @ line ''writes discard''"

definition render_zero :: string where
  "render_zero = line ''path /dev/zero'' @ line ''kind source'' @ line ''reads zero-fill'' @ line ''writes discard''"

definition render_kmsg :: string where
  "render_kmsg = line ''path /dev/kmsg'' @ line ''kind kernel-log'' @ line ''writes append''
    @ line ''reads snapshot-unavailable''"

definition render_fb0 :: "devices \<Rightarrow> string" where
  "render_fb0 dv = line ''path /dev/fb0'' @ line ''kind framebuffer''
    @ (case dv_fb dv of None \<Rightarrow> []
       | Some fb \<Rightarrow> line (''width '' @ show_nat (unat (fb_width fb))) @ line (''height '' @ show_nat (unat (fb_height fb)))
           @ line (''pitch '' @ show_nat (unat (fb_pitch fb))) @ line (''bpp '' @ show_nat (unat (fb_bpp fb))))
    @ (case dv_fb_address dv of None \<Rightarrow> [] | Some phys \<Rightarrow> line (''phys_addr 0x'' @ show_base 16 (unat phys)))"

definition devfs_read :: "devices \<Rightarrow> devfs_state option \<Rightarrow> string \<Rightarrow> string option" where
  "devfs_read dv slot path = (case slot of None \<Rightarrow> None
    | Some state \<Rightarrow>
        if path = ''/dev'' \<or> path = ''/dev/'' then Some devfs_render_root
        else if path \<in> {''/dev/console'', ''/dev/tty0'', ''/dev/tty1'', ''/dev/tty2'', ''/dev/tty3''}
        then Some (render_console dv state path)
        else if path = ''/dev/null'' then Some render_null
        else if path = ''/dev/zero'' then Some render_zero
        else if path = ''/dev/kmsg'' then Some render_kmsg
        else if path = ''/dev/fb0'' then Some (render_fb0 dv)
        else None)"

section \<open>The process file system\<close>

definition PROCFS_DIRECTORIES :: "string list" where
  "PROCFS_DIRECTORIES = [''/'', ''/proc'']"

definition PROCFS_FILES :: "string list" where
  "PROCFS_FILES = [''/proc/version'', ''/proc/uptime'', ''/proc/meminfo'', ''/proc/cpuinfo'',
    ''/proc/schedstat'', ''/proc/topology'']"

datatype proc_kind = ProcDirectory | ProcFile
datatype procfs_error = ProcfsAlreadyInitialized

record procfs_summary =
  psum_directory_count :: nat
  psum_file_count :: nat
  psum_entry_count :: nat

definition procfs_summary_of :: procfs_summary where
  "procfs_summary_of = \<lparr> psum_directory_count = length PROCFS_DIRECTORIES, psum_file_count = length PROCFS_FILES,
    psum_entry_count = length PROCFS_DIRECTORIES + length PROCFS_FILES \<rparr>"

text \<open>The state of procfs is the boot CPU description, of an arbitrary type here.\<close>

definition procfs_initialize :: "'cpu \<Rightarrow> 'cpu option \<Rightarrow> 'cpu option \<times> (procfs_error + procfs_summary)" where
  "procfs_initialize cpu_info slot =
    (case slot of Some _ \<Rightarrow> (slot, Inl ProcfsAlreadyInitialized)
     | None \<Rightarrow> (Some cpu_info, Inr procfs_summary_of))"

definition procfs_node_kind :: "string \<Rightarrow> proc_kind option" where
  "procfs_node_kind path =
    (if path = ''/proc'' \<or> path = ''/proc/'' then Some ProcDirectory
     else if list_ex (\<lambda>file. file = path) PROCFS_FILES then Some ProcFile
     else None)"

definition procfs_render_root :: string where
  "procfs_render_root = concat (map (\<lambda>file. line (drop (length ''/proc/'') file)) PROCFS_FILES)"

definition render_version :: string where
  "render_version = line ''HXNU 2608 x86_64''"

definition procfs_read :: "(string \<Rightarrow> string) \<Rightarrow> 'cpu option \<Rightarrow> string \<Rightarrow> string option" where
  "procfs_read proc_text slot path = (case slot of None \<Rightarrow> None
    | Some _ \<Rightarrow>
        if path = ''/proc'' \<or> path = ''/proc/'' then Some procfs_render_root
        else if path = ''/proc/version'' then Some render_version
        else if path \<in> {''/proc/uptime'', ''/proc/meminfo'', ''/proc/cpuinfo'', ''/proc/schedstat'', ''/proc/topology''}
        then Some (proc_text path)
        else None)"

section \<open>Names and contents agree\<close>

lemma devfs_read_iff:
  "devfs_read dv (Some state) path \<noteq> None \<longleftrightarrow> devfs_node_kind path \<noteq> None"
  by (auto simp: devfs_read_def devfs_node_kind_def DEVFS_NODES_def)

lemma procfs_read_iff:
  "procfs_read proc_text (Some cpu) path \<noteq> None \<longleftrightarrow> procfs_node_kind path \<noteq> None"
  by (auto simp: procfs_read_def procfs_node_kind_def PROCFS_FILES_def)

end
