(* ===== verification/Fat.thy ===== *)
theory Fat
  imports Text
begin

text \<open>
  The read-only FAT driver behind \<^verbatim>\<open>/boot\<close> (\<^verbatim>\<open>src/kernel/src/fat.rs\<close>): mounting a partition,
  listing its root directory and reading files by following the cluster chain.

  The block layer is a parameter: \<open>block_read\<close> gives the sector of a device at an address, or
  nothing on an I/O error; \<open>block_stub\<close> is the module the source ships, which has no device.  A
  sector is a list of exactly 512 bytes, so every constant offset into it is in range; the
  offsets that are computed are bounded in the lemmas.  The file-reading loop follows links
  found on the disk and is written as a partial function; that it always ends is a theorem.
\<close>

section \<open>The block layer\<close>

definition SECTOR_BYTES :: nat where "SECTOR_BYTES = 512"

datatype partition_table_kind = Mbr | Gpt

record partition_info =
  pi_id :: u16
  pi_device_id :: u16
  pi_table_kind :: partition_table_kind
  pi_start_lba :: u64
  pi_sector_count :: u64

type_synonym block_read = "u16 \<Rightarrow> u64 \<Rightarrow> (nat \<Rightarrow> u8) option"

record block_layer =
  bl_initialized :: bool
  bl_partitions :: "partition_info option list"
  bl_read :: block_read

definition block_stub :: block_layer where
  "block_stub = \<lparr> bl_initialized = False, bl_partitions = [], bl_read = (\<lambda>_ _. None) \<rparr>"

definition read_sector :: "block_read \<Rightarrow> u16 \<Rightarrow> u64 \<Rightarrow> bytes option" where
  "read_sector rd device lba = map_option (\<lambda>f. map f [0 ..< SECTOR_BYTES]) (rd device lba)"

section \<open>State\<close>

definition FAT_PATH_ROOT :: string where "FAT_PATH_ROOT = ''/boot''"
definition DIRECTORY_ENTRY_BYTES :: nat where "DIRECTORY_ENTRY_BYTES = 32"
definition FAT32_EOC_MIN :: u32 where "FAT32_EOC_MIN = 0x0FFFFFF8"
definition FAT32_BAD_CLUSTER :: u32 where "FAT32_BAD_CLUSTER = 0x0FFFFFF7"
definition MAX_FAT32_ROOT_CHAIN_STEPS :: nat where "MAX_FAT32_ROOT_CHAIN_STEPS = 1024"

datatype fat_type = Fat16 | Fat32
datatype fat_node_kind = FatDirectory | FatFile

record fat_root_entry =
  fe_name :: string
  fe_kind :: fat_node_kind
  fe_size :: nat
  fe_cluster :: u32

record bpb_layout =
  bpb_fat_type :: fat_type
  bpb_bytes_per_sector :: u16
  bpb_sectors_per_cluster :: u8
  bpb_reserved_sectors :: u16
  bpb_fat_count :: u8
  bpb_sectors_per_fat :: u32
  bpb_root_dir_entries :: u16
  bpb_root_dir_sectors :: u32
  bpb_fat_start_lba_offset :: u32
  bpb_root_dir_start_lba_offset :: u32
  bpb_first_data_sector_offset :: u32
  bpb_root_dir_first_cluster :: u32

record fat_summary =
  fs_mounted :: bool
  fs_partition_id :: "u16 option"
  fs_device_id :: "u16 option"
  fs_partition_table :: "partition_table_kind option"
  fs_fat_type :: "fat_type option"
  fs_root_entry_count :: nat
  fs_directory_count :: nat

record fat_state =
  fat_summary_field :: fat_summary
  fat_root_entries :: "fat_root_entry list"
  fat_partition :: partition_info
  fat_bpb :: bpb_layout

datatype fat_error = FatAlreadyInitialized | FatBlockUnavailable | FatNoFatPartition

definition fat_offline :: fat_summary where
  "fat_offline = \<lparr> fs_mounted = False, fs_partition_id = None, fs_device_id = None,
    fs_partition_table = None, fs_fat_type = None, fs_root_entry_count = 0, fs_directory_count = 0 \<rparr>"

section \<open>Directory entries\<close>

definition fat_read_u16_le :: "bytes \<Rightarrow> nat \<Rightarrow> u16" where
  "fat_read_u16_le input offset = of_le [input ! offset, input ! (offset + 1)]"

definition fat_read_u32_le :: "bytes \<Rightarrow> nat \<Rightarrow> u32" where
  "fat_read_u32_le input offset =
    of_le [input ! offset, input ! (offset + 1), input ! (offset + 2), input ! (offset + 3)]"

fun parse_name_component :: "bytes \<Rightarrow> string option" where
  "parse_name_component [] = Some []"
| "parse_name_component (byte # rest) =
    (if byte = 0x20 \<or> byte = 0 then Some []
     else if \<not> (0x21 \<le> byte \<and> byte \<le> 0x7E) then None
     else map_option ((#) (char_of (unat byte))) (parse_name_component rest))"

definition parse_short_name :: "bytes \<Rightarrow> string option" where
  "parse_short_name name =
    (if length name \<noteq> 11 then None
     else case parse_name_component (take 8 name) of None \<Rightarrow> None
       | Some base \<Rightarrow>
           if base = [] then None
           else case parse_name_component (drop 8 name) of None \<Rightarrow> None
             | Some ext \<Rightarrow> Some (base @ (if ext \<noteq> [] then ''.'' @ ext else [])))"

text \<open>
  One directory sector from \<open>offset\<close> on: the entries with those found appended, and whether the
  end marker was seen.
\<close>

function parse_directory_sector :: "bytes \<Rightarrow> nat \<Rightarrow> fat_root_entry list \<Rightarrow> fat_root_entry list \<times> bool" where
  "parse_directory_sector sector offset out =
    (if offset + DIRECTORY_ENTRY_BYTES \<le> length sector then
       let first = sector ! offset; attrs = sector ! (offset + 11);
           skip = parse_directory_sector sector (offset + DIRECTORY_ENTRY_BYTES)
       in if first = 0 then (out, True)
          else if first = 0xE5 then skip out
          else if attrs = 0x0F \<or> attrs AND 0x08 \<noteq> 0 then skip out
          else (case parse_short_name (slice sector offset (offset + 11)) of
              None \<Rightarrow> skip out
            | Some name \<Rightarrow>
                if name = ''.'' \<or> name = ''..'' then skip out
                else let kind = (if attrs AND 0x10 \<noteq> 0 then FatDirectory else FatFile);
                         size = unat (fat_read_u32_le sector (offset + 28));
                         cluster_hi = ucast (fat_read_u16_le sector (offset + 20)) :: u32;
                         cluster_lo = ucast (fat_read_u16_le sector (offset + 26)) :: u32;
                         cluster = push_bit 16 cluster_hi OR cluster_lo
                     in skip (out @ [\<lparr> fe_name = name, fe_kind = kind, fe_size = size, fe_cluster = cluster \<rparr>]))
     else (out, False))"
  by pat_completeness auto
termination by (relation "measure (\<lambda>(sector, offset, _). length sector - offset)") (auto simp: DIRECTORY_ENTRY_BYTES_def)

declare parse_directory_sector.simps [simp del]

section \<open>Mounting\<close>

definition parse_bpb :: "bytes \<Rightarrow> bpb_layout option" where
  "parse_bpb sector =
    (let bytes_per_sector = fat_read_u16_le sector 11 in
     if bytes_per_sector \<noteq> 512 then None else
     let sectors_per_cluster = sector ! 13 in
     if sectors_per_cluster = 0 then None else
     let reserved_sectors = fat_read_u16_le sector 14 in
     if reserved_sectors = 0 then None else
     let fat_count = sector ! 16 in
     if fat_count = 0 then None else
     let root_dir_entries = fat_read_u16_le sector 17;
         total_sectors_16 = ucast (fat_read_u16_le sector 19) :: u32;
         sectors_per_fat_16 = ucast (fat_read_u16_le sector 22) :: u32;
         total_sectors_32 = fat_read_u32_le sector 32;
         sectors_per_fat_32 = fat_read_u32_le sector 36;
         root_dir_first_cluster = fat_read_u32_le sector 44;
         total_sectors = (if total_sectors_16 \<noteq> 0 then total_sectors_16 else total_sectors_32) in
     if total_sectors = 0 then None else
     let sectors_per_fat = (if sectors_per_fat_16 \<noteq> 0 then sectors_per_fat_16 else sectors_per_fat_32) in
     if sectors_per_fat = 0 then None else
     let root_dir_sectors = (ucast root_dir_entries * 32 + (ucast bytes_per_sector - 1)) div ucast bytes_per_sector;
         first_data_sector = ucast reserved_sectors + ucast fat_count * sectors_per_fat + root_dir_sectors in
     if total_sectors \<le> first_data_sector then None else
     let data_sectors = sat_sub total_sectors first_data_sector;
         cluster_count = data_sectors div ucast sectors_per_cluster in
     if cluster_count < 4085 then None else
     let fat_type = (if cluster_count < 65525 then Fat16 else Fat32) in
     if fat_type = Fat32 \<and> root_dir_first_cluster < 2 then None
     else Some \<lparr> bpb_fat_type = fat_type, bpb_bytes_per_sector = bytes_per_sector,
       bpb_sectors_per_cluster = sectors_per_cluster, bpb_reserved_sectors = reserved_sectors,
       bpb_fat_count = fat_count, bpb_sectors_per_fat = sectors_per_fat,
       bpb_root_dir_entries = root_dir_entries, bpb_root_dir_sectors = root_dir_sectors,
       bpb_fat_start_lba_offset = ucast reserved_sectors,
       bpb_root_dir_start_lba_offset = ucast reserved_sectors + ucast fat_count * sectors_per_fat,
       bpb_first_data_sector_offset = first_data_sector,
       bpb_root_dir_first_cluster = root_dir_first_cluster \<rparr>)"

fun fat16_root_loop ::
  "block_read \<Rightarrow> u16 \<Rightarrow> u64 \<Rightarrow> nat list \<Rightarrow> fat_root_entry list \<Rightarrow> fat_root_entry list option" where
  "fat16_root_loop rd device start_lba [] entries = Some entries"
| "fat16_root_loop rd device start_lba (sector_offset # rest) entries =
    (case read_sector rd device (start_lba + word_of_nat sector_offset) of None \<Rightarrow> None
     | Some sector \<Rightarrow> (case parse_directory_sector sector 0 entries of (entries, stop) \<Rightarrow>
         if stop then Some entries else fat16_root_loop rd device start_lba rest entries))"

definition read_fat16_root_entries ::
  "block_read \<Rightarrow> partition_info \<Rightarrow> bpb_layout \<Rightarrow> fat_root_entry list option" where
  "read_fat16_root_entries rd part bpb =
    fat16_root_loop rd (pi_device_id part)
      (pi_start_lba part + ucast (bpb_root_dir_start_lba_offset bpb))
      [0 ..< unat (bpb_root_dir_sectors bpb)] []"

definition read_fat32_entry :: "block_read \<Rightarrow> partition_info \<Rightarrow> bpb_layout \<Rightarrow> u32 \<Rightarrow> u32 option" where
  "read_fat32_entry rd part bpb cluster =
    (let fat_offset = (ucast cluster :: u64) * 4;
         fat_sector_lba = pi_start_lba part + ucast (bpb_fat_start_lba_offset bpb) + fat_offset div 512;
         fat_sector_offset = unat (fat_offset mod 512)
     in map_option (\<lambda>sector. fat_read_u32_le sector fat_sector_offset AND 0x0FFFFFFF)
          (read_sector rd (pi_device_id part) fat_sector_lba))"

definition cluster_lba :: "partition_info \<Rightarrow> bpb_layout \<Rightarrow> u32 \<Rightarrow> u64" where
  "cluster_lba part bpb cluster = pi_start_lba part + ucast (bpb_first_data_sector_offset bpb)
    + ucast (cluster - 2) * ucast (bpb_sectors_per_cluster bpb)"

text \<open>The sectors of one root directory cluster; the flag is set when the end marker is found.\<close>

fun fat32_cluster_loop ::
  "block_read \<Rightarrow> u16 \<Rightarrow> u64 \<Rightarrow> nat list \<Rightarrow> fat_root_entry list \<Rightarrow> (fat_root_entry list \<times> bool) option" where
  "fat32_cluster_loop rd device lba [] entries = Some (entries, False)"
| "fat32_cluster_loop rd device lba (sec # rest) entries =
    (case read_sector rd device (lba + word_of_nat sec) of None \<Rightarrow> None
     | Some sector \<Rightarrow> (case parse_directory_sector sector 0 entries of (entries, stop) \<Rightarrow>
         if stop then Some (entries, True) else fat32_cluster_loop rd device lba rest entries))"

text \<open>The number of steps left is \<^verbatim>\<open>MAX_FAT32_ROOT_CHAIN_STEPS - visited\<close>.\<close>

fun fat32_root_loop ::
  "block_read \<Rightarrow> partition_info \<Rightarrow> bpb_layout \<Rightarrow> nat \<Rightarrow> u32 \<Rightarrow> fat_root_entry list \<Rightarrow> fat_root_entry list option" where
  "fat32_root_loop rd part bpb 0 cluster entries = Some entries"
| "fat32_root_loop rd part bpb (Suc steps) cluster entries =
    (if cluster < 2 then Some entries
     else case fat32_cluster_loop rd (pi_device_id part) (cluster_lba part bpb cluster)
         [0 ..< unat (bpb_sectors_per_cluster bpb)] entries of
       None \<Rightarrow> None
     | Some (entries, True) \<Rightarrow> Some entries
     | Some (entries, False) \<Rightarrow> (case read_fat32_entry rd part bpb cluster of None \<Rightarrow> None
         | Some nxt \<Rightarrow>
             if FAT32_EOC_MIN \<le> nxt \<or> nxt = FAT32_BAD_CLUSTER \<or> nxt = 0 \<or> nxt = cluster then Some entries
             else fat32_root_loop rd part bpb steps nxt entries))"

definition read_fat32_root_entries ::
  "block_read \<Rightarrow> partition_info \<Rightarrow> bpb_layout \<Rightarrow> fat_root_entry list option" where
  "read_fat32_root_entries rd part bpb =
    fat32_root_loop rd part bpb MAX_FAT32_ROOT_CHAIN_STEPS (bpb_root_dir_first_cluster bpb) []"

definition try_mount_partition :: "block_read \<Rightarrow> partition_info \<Rightarrow> fat_state option" where
  "try_mount_partition rd part =
    (case read_sector rd (pi_device_id part) (pi_start_lba part) of None \<Rightarrow> None
     | Some bpb_sector \<Rightarrow>
         if bpb_sector ! 510 \<noteq> 0x55 \<or> bpb_sector ! 511 \<noteq> 0xAA then None
         else case parse_bpb bpb_sector of None \<Rightarrow> None
           | Some bpb \<Rightarrow>
               map_option (\<lambda>root_entries.
                 \<lparr> fat_summary_field = \<lparr> fs_mounted = True, fs_partition_id = Some (pi_id part),
                     fs_device_id = Some (pi_device_id part), fs_partition_table = Some (pi_table_kind part),
                     fs_fat_type = Some (bpb_fat_type bpb), fs_root_entry_count = length root_entries,
                     fs_directory_count = 1 + length (filter (\<lambda>entry. fe_kind entry = FatDirectory) root_entries) \<rparr>,
                   fat_root_entries = root_entries, fat_partition = part, fat_bpb = bpb \<rparr>)
               (case bpb_fat_type bpb of
                  Fat16 \<Rightarrow> read_fat16_root_entries rd part bpb
                | Fat32 \<Rightarrow> read_fat32_root_entries rd part bpb))"

fun mount_loop :: "block_read \<Rightarrow> partition_info option list \<Rightarrow> fat_state option" where
  "mount_loop rd [] = None"
| "mount_loop rd (None # rest) = mount_loop rd rest"
| "mount_loop rd (Some part # rest) = (case try_mount_partition rd part of
      Some state \<Rightarrow> Some state
    | None \<Rightarrow> mount_loop rd rest)"

definition fat_initialize ::
  "block_layer \<Rightarrow> fat_state option \<Rightarrow> fat_state option \<times> (fat_error + fat_summary)" where
  "fat_initialize block slot =
    (if slot \<noteq> None then (slot, Inl FatAlreadyInitialized)
     else if \<not> bl_initialized block then (slot, Inl FatBlockUnavailable)
     else case mount_loop (bl_read block) (bl_partitions block) of
         Some state \<Rightarrow> (Some state, Inr (fat_summary_field state))
       | None \<Rightarrow> (slot, Inl FatNoFatPartition))"

definition fat_is_initialized :: "fat_state option \<Rightarrow> bool" where
  "fat_is_initialized slot = (slot \<noteq> None)"

definition fat_summary_of :: "fat_state option \<Rightarrow> fat_summary" where
  "fat_summary_of slot = (case slot of None \<Rightarrow> fat_offline | Some state \<Rightarrow> fat_summary_field state)"

section \<open>Lookups and file contents\<close>

definition render_root_entries :: "fat_root_entry list \<Rightarrow> string" where
  "render_root_entries entries = concat (map (\<lambda>entry. fe_name entry @ [CHR 0x0A]) entries)"

definition normalize_fat_path :: "string \<Rightarrow> string option" where
  "normalize_fat_path path =
    (if path = FAT_PATH_ROOT \<or> path = ''/boot/'' then Some FAT_PATH_ROOT
     else if \<not> starts_with ''/boot/'' path then None
     else case strip_prefix ''/boot/'' (trim_end (CHR ''/'') path) of None \<Rightarrow> None
       | Some name \<Rightarrow>
           if name = [] \<or> CHR ''/'' \<in> set name then None else Some (FAT_PATH_ROOT @ ''/'' @ name))"

definition fat_node_info :: "fat_state option \<Rightarrow> string \<Rightarrow> (fat_node_kind \<times> nat) option" where
  "fat_node_info slot path = (case slot of None \<Rightarrow> None
    | Some state \<Rightarrow> (case normalize_fat_path path of None \<Rightarrow> None
      | Some normalized \<Rightarrow>
          if normalized = FAT_PATH_ROOT then
            Some (FatDirectory, length (render_root_entries (fat_root_entries state)))
          else case strip_prefix ''/boot/'' normalized of None \<Rightarrow> None
            | Some name \<Rightarrow> map_option (\<lambda>entry. (fe_kind entry, fe_size entry))
                (find (\<lambda>entry. fe_name entry = name) (fat_root_entries state))))"

definition fat_node_kind_of :: "fat_state option \<Rightarrow> string \<Rightarrow> fat_node_kind option" where
  "fat_node_kind_of slot path = (case slot of None \<Rightarrow> None
    | Some state \<Rightarrow> (case normalize_fat_path path of None \<Rightarrow> None
      | Some normalized \<Rightarrow>
          if normalized = FAT_PATH_ROOT then Some FatDirectory
          else case strip_prefix ''/boot/'' normalized of None \<Rightarrow> None
            | Some name \<Rightarrow> map_option fe_kind (find (\<lambda>entry. fe_name entry = name) (fat_root_entries state))))"

definition fat_read :: "fat_state option \<Rightarrow> string \<Rightarrow> string option" where
  "fat_read slot path = (case slot of None \<Rightarrow> None
    | Some state \<Rightarrow> (case normalize_fat_path path of None \<Rightarrow> None
      | Some normalized \<Rightarrow>
          if normalized = FAT_PATH_ROOT then Some (render_root_entries (fat_root_entries state)) else None))"

text \<open>The sectors of one file cluster: what has been read so far is extended up to \<open>sz\<close> bytes.\<close>

fun file_cluster_loop :: "block_read \<Rightarrow> u16 \<Rightarrow> u64 \<Rightarrow> nat \<Rightarrow> nat list \<Rightarrow> bytes \<Rightarrow> bytes option" where
  "file_cluster_loop rd device lba sz [] data = Some data"
| "file_cluster_loop rd device lba sz (sec # rest) data =
    (case read_sector rd device (lba + word_of_nat sec) of None \<Rightarrow> None
     | Some sector \<Rightarrow>
         let remaining = sz - length data
         in if remaining = 0 then Some data
            else file_cluster_loop rd device lba sz rest (data @ take (min remaining SECTOR_BYTES) sector))"

partial_function (option) file_loop ::
  "block_read \<Rightarrow> fat_state \<Rightarrow> nat \<Rightarrow> u32 \<Rightarrow> bytes \<Rightarrow> bytes option option" where
  "file_loop rd state sz cluster data =
    (if 2 \<le> cluster \<and> cluster < 0x0FFFFFF8 then
       (case file_cluster_loop rd (pi_device_id (fat_partition state))
           (cluster_lba (fat_partition state) (fat_bpb state) cluster) sz
           [0 ..< unat (bpb_sectors_per_cluster (fat_bpb state))] data of
          None \<Rightarrow> Some None
        | Some data \<Rightarrow>
            if sz \<le> length data then Some (Some data)
            else (case bpb_fat_type (fat_bpb state) of
                Fat16 \<Rightarrow> Some None
              | Fat32 \<Rightarrow> (case read_fat32_entry rd (fat_partition state) (fat_bpb state) cluster of
                    None \<Rightarrow> Some None
                  | Some cluster \<Rightarrow> file_loop rd state sz cluster data)))
     else Some (Some data))"

definition to_ascii_lowercase :: "char \<Rightarrow> char" where
  "to_ascii_lowercase c = (if 65 \<le> (of_char c :: nat) \<and> (of_char c :: nat) \<le> 90 then char_of ((of_char c :: nat) + 32) else c)"

definition eq_ignore_ascii_case :: "string \<Rightarrow> string \<Rightarrow> bool" where
  "eq_ignore_ascii_case s t = (map to_ascii_lowercase s = map to_ascii_lowercase t)"

definition fat_read_file_bytes :: "block_read \<Rightarrow> fat_state option \<Rightarrow> string \<Rightarrow> bytes option option" where
  "fat_read_file_bytes rd slot path = (case slot of None \<Rightarrow> Some None
    | Some state \<Rightarrow> (case normalize_fat_path path of None \<Rightarrow> Some None
      | Some normalized \<Rightarrow>
          if normalized = FAT_PATH_ROOT then Some None
          else case strip_prefix FAT_PATH_ROOT normalized of None \<Rightarrow> Some None
            | Some tail \<Rightarrow>
                let file_name = (case strip_prefix ''/'' tail of Some name \<Rightarrow> name | None \<Rightarrow> normalized)
                in case find (\<lambda>e. eq_ignore_ascii_case (fe_name e) file_name) (fat_root_entries state) of
                     None \<Rightarrow> Some None
                   | Some entry \<Rightarrow>
                       if fe_kind entry = FatDirectory \<or> fe_size entry = 0 \<or> fe_cluster entry < 2 then Some None
                       else file_loop rd state (fe_size entry) (fe_cluster entry) []))"

section \<open>Reading ends\<close>

lemma length_read_sector: "read_sector rd device lba = Some sector \<Longrightarrow> length sector = 512"
  by (auto simp: read_sector_def SECTOR_BYTES_def)

lemma file_cluster_loop_grows:
  assumes "file_cluster_loop rd device lba sz secs data = Some data'"
  shows "length data \<le> length data' \<and> (secs \<noteq> [] \<longrightarrow> length data < sz \<longrightarrow> length data < length data')"
  using assms
proof (induction secs arbitrary: data)
  case (Cons sec rest)
  from Cons.prems obtain sector where s: "read_sector rd device (lba + word_of_nat sec) = Some sector"
    by (auto split: option.splits)
  show ?case
  proof (cases "sz - length data = 0")
    case True
    with Cons.prems s show ?thesis by simp
  next
    case False
    let ?d = "data @ take (min (sz - length data) SECTOR_BYTES) sector"
    have "file_cluster_loop rd device lba sz rest ?d = Some data'"
      using Cons.prems s False by simp
    from Cons.IH [OF this] have "length ?d \<le> length data'" by simp
    moreover have "length data < length ?d"
      using False length_read_sector [OF s] by (simp add: SECTOR_BYTES_def)
    ultimately show ?thesis by linarith
  qed
qed simp

lemma file_loop_returns:
  assumes "bpb_sectors_per_cluster (fat_bpb state) \<noteq> 0"
  shows "\<exists>r. file_loop rd state sz cluster data = Some r"
proof (induction "sz - length data" arbitrary: cluster data rule: less_induct)
  case less
  let ?secs = "[0 ..< unat (bpb_sectors_per_cluster (fat_bpb state))]"
  let ?read = "file_cluster_loop rd (pi_device_id (fat_partition state))
    (cluster_lba (fat_partition state) (fat_bpb state) cluster) sz ?secs data"
  have secs: "?secs \<noteq> []" using assms by (simp add: unat_eq_zero)
  have "\<exists>r. file_loop rd state sz c d = Some r" if "?read = Some d" "\<not> sz \<le> length d" for c d
  proof (rule less.hyps)
    have "length data \<le> length d \<and> (length data < sz \<longrightarrow> length data < length d)"
      using file_cluster_loop_grows [OF that(1)] secs by blast
    with that(2) show "sz - length d < sz - length data" by linarith
  qed
  then show ?case
    by (subst file_loop.simps) (auto split: option.splits fat_type.splits)
qed

lemma parse_bpb_clusters: "parse_bpb sector = Some bpb \<Longrightarrow> bpb_sectors_per_cluster bpb \<noteq> 0"
  by (auto simp: parse_bpb_def Let_def split: if_splits)

lemma try_mount_clusters: "try_mount_partition rd part = Some state \<Longrightarrow> bpb_sectors_per_cluster (fat_bpb state) \<noteq> 0"
  using parse_bpb_clusters by (auto simp: try_mount_partition_def split: option.splits if_splits)

lemma mount_loop_clusters: "mount_loop rd parts = Some state \<Longrightarrow> bpb_sectors_per_cluster (fat_bpb state) \<noteq> 0"
  using try_mount_clusters by (induction rd parts rule: mount_loop.induct) (auto split: option.splits)

section \<open>Reading follows the chain\<close>

definition cluster_data :: "block_read \<Rightarrow> fat_state \<Rightarrow> u32 \<Rightarrow> bytes option" where
  "cluster_data rd state cluster =
    map_option concat (those (map (\<lambda>sec. read_sector rd (pi_device_id (fat_partition state))
        (cluster_lba (fat_partition state) (fat_bpb state) cluster + word_of_nat sec))
      [0 ..< unat (bpb_sectors_per_cluster (fat_bpb state))]))"

fun chain_data :: "block_read \<Rightarrow> fat_state \<Rightarrow> nat \<Rightarrow> u32 \<Rightarrow> bytes option" where
  "chain_data rd state 0 cluster = Some []"
| "chain_data rd state (Suc k) cluster =
    (if 2 \<le> cluster \<and> cluster < 0x0FFFFFF8 then
       (case cluster_data rd state cluster of None \<Rightarrow> None
        | Some d \<Rightarrow>
            if k = 0 then Some d
            else case read_fat32_entry rd (fat_partition state) (fat_bpb state) cluster of None \<Rightarrow> None
              | Some nxt \<Rightarrow> map_option ((@) d) (chain_data rd state k nxt))
     else None)"

definition cluster_bytes :: "fat_state \<Rightarrow> nat" where
  "cluster_bytes state = unat (bpb_sectors_per_cluster (fat_bpb state)) * 512"

lemma file_cluster_loop_all:
  assumes "those (map (\<lambda>sec. read_sector rd device (lba + word_of_nat sec)) secs) = Some sectors"
  shows "file_cluster_loop rd device lba sz secs data = Some (data @ take (sz - length data) (concat sectors))"
  using assms
proof (induction secs arbitrary: data sectors)
  case (Cons sec rest)
  then obtain sector sectors' where s: "read_sector rd device (lba + word_of_nat sec) = Some sector"
    and r: "those (map (\<lambda>sec. read_sector rd device (lba + word_of_nat sec)) rest) = Some sectors'"
    and eq: "sectors = sector # sectors'"
    by (auto split: option.splits)
  note len = length_read_sector [OF s]
  show ?case
    using Cons.IH [OF r] by (auto simp: s eq len SECTOR_BYTES_def Let_def min_def)
qed simp

lemma length_those_sectors:
  "those (map (\<lambda>sec. read_sector rd device (lba + word_of_nat sec)) secs) = Some sectors \<Longrightarrow>
    length (concat sectors) = length secs * 512"
proof (induction secs arbitrary: sectors)
  case (Cons sec rest)
  then show ?case using length_read_sector by (auto split: option.splits)
qed simp

lemma cluster_dataE:
  assumes "cluster_data rd state cluster = Some d"
  shows "file_cluster_loop rd (pi_device_id (fat_partition state))
      (cluster_lba (fat_partition state) (fat_bpb state) cluster) sz
      [0 ..< unat (bpb_sectors_per_cluster (fat_bpb state))] data = Some (data @ take (sz - length data) d)"
    and "length d = cluster_bytes state"
proof -
  from assms obtain sectors where "those (map (\<lambda>sec. read_sector rd (pi_device_id (fat_partition state))
        (cluster_lba (fat_partition state) (fat_bpb state) cluster + word_of_nat sec))
      [0 ..< unat (bpb_sectors_per_cluster (fat_bpb state))]) = Some sectors" and d: "d = concat sectors"
    by (auto simp: cluster_data_def)
  from file_cluster_loop_all [OF this(1)] length_those_sectors [OF this(1)] d
  show "file_cluster_loop rd (pi_device_id (fat_partition state))
      (cluster_lba (fat_partition state) (fat_bpb state) cluster) sz
      [0 ..< unat (bpb_sectors_per_cluster (fat_bpb state))] data = Some (data @ take (sz - length data) d)"
    and "length d = cluster_bytes state"
    by (simp_all add: cluster_bytes_def)
qed

lemma file_loop_chain:
  assumes "bpb_fat_type (fat_bpb state) = Fat32" and "chain_data rd state (Suc k) cluster = Some d"
    and "length data + k * cluster_bytes state < sz" and "sz \<le> length data + Suc k * cluster_bytes state"
  shows "file_loop rd state sz cluster data = Some (Some (data @ take (sz - length data) d))"
  using assms(2-4)
proof (induction k arbitrary: cluster data d)
  case 0
  then have c: "2 \<le> cluster \<and> cluster < 0x0FFFFFF8" and d: "cluster_data rd state cluster = Some d"
    by (auto split: if_splits option.splits)
  with 0 show ?case
    by (subst file_loop.simps) (simp add: cluster_dataE(1) [OF d] cluster_dataE(2) [OF d])
next
  case (Suc k)
  then obtain d1 nxt d2 where c: "2 \<le> cluster \<and> cluster < 0x0FFFFFF8" and d1: "cluster_data rd state cluster = Some d1"
    and nxt: "read_fat32_entry rd (fat_partition state) (fat_bpb state) cluster = Some nxt"
    and d2: "chain_data rd state (Suc k) nxt = Some d2" and d: "d = d1 @ d2"
    by (auto simp del: chain_data.simps simp: chain_data.simps(2) [of rd state "Suc k"] split: if_splits option.splits)
  note len = cluster_dataE(2) [OF d1]
  have all: "take (sz - length data) d1 = d1" using Suc.prems(2) len by simp
  have "file_loop rd state sz nxt (data @ d1) = Some (Some ((data @ d1) @ take (sz - length (data @ d1)) d2))"
    using Suc.prems len by (intro Suc.IH [OF d2]) (simp_all add: algebra_simps)
  moreover have "\<not> sz \<le> length (data @ d1)" using Suc.prems(2) len by simp
  ultimately show ?case
    using c by (subst file_loop.simps) (simp add: cluster_dataE(1) [OF d1] all nxt assms(1) d len)
qed

section \<open>Properties\<close>

text \<open>
  C12. Reading a file ends: on every volume the driver mounts, whatever its sectors contain,
  reading any path returns, even when the links of the allocation table run in a circle.
\<close>

theorem fat_read_terminates:
  "\<exists>r. fat_read_file_bytes (bl_read block) (fst (fat_initialize block None)) path = Some r"
proof (cases "fst (fat_initialize block None)")
  case None
  then show ?thesis by (simp add: fat_read_file_bytes_def)
next
  case (Some state)
  then have "mount_loop (bl_read block) (bl_partitions block) = Some state"
    by (auto simp: fat_initialize_def split: if_splits option.splits)
  note returns = file_loop_returns [OF mount_loop_clusters [OF this]]
  show ?thesis
    unfolding Some fat_read_file_bytes_def Let_def using returns
    by (auto split: option.splits)
qed

text \<open>
  C24. Files are read along their cluster chain: if the directory has a file of that name, in
  any mixture of cases, and the first \<open>k + 1\<close> clusters of its chain are readable and just
  enough for its size, the result is exactly the file's bytes: the clusters in chain order, cut
  to the size of the file.
\<close>

theorem fat_reads_chain:
  assumes "normalize_fat_path path = Some (FAT_PATH_ROOT @ ''/'' @ name)"
    and "find (\<lambda>e. eq_ignore_ascii_case (fe_name e) name) (fat_root_entries state) = Some entry"
    and "fe_kind entry = FatFile" and "bpb_fat_type (fat_bpb state) = Fat32"
    and "chain_data rd state (Suc k) (fe_cluster entry) = Some d"
    and "k * cluster_bytes state < fe_size entry" and "fe_size entry \<le> Suc k * cluster_bytes state"
  shows "fat_read_file_bytes rd (Some state) path = Some (Some (take (fe_size entry) d))"
proof -
  have "2 \<le> fe_cluster entry" using assms(5) by (auto split: if_splits)
  then have "\<not> fe_cluster entry < 2" by simp
  moreover have "file_loop rd state (fe_size entry) (fe_cluster entry) [] = Some (Some (take (fe_size entry) d))"
    using file_loop_chain [OF assms(4, 5), of "[]" "fe_size entry"] assms(6, 7) by simp
  ultimately show ?thesis
    using assms(1-3, 6) by (simp add: fat_read_file_bytes_def strip_prefix_def starts_with_def Let_def FAT_PATH_ROOT_def)
qed

definition sample_disk :: block_read where
  "sample_disk = (\<lambda>_ lba. Some (\<lambda>i. word_of_nat i + ucast lba))"

definition sample_volume :: fat_state where
  "sample_volume = \<lparr> fat_summary_field = fat_offline,
    fat_root_entries = [\<lparr> fe_name = ''A.TXT'', fe_kind = FatFile, fe_size = 300, fe_cluster = 5 \<rparr>],
    fat_partition = \<lparr> pi_id = 0, pi_device_id = 0, pi_table_kind = Mbr, pi_start_lba = 0, pi_sector_count = 0 \<rparr>,
    fat_bpb = \<lparr> bpb_fat_type = Fat32, bpb_bytes_per_sector = 512, bpb_sectors_per_cluster = 1,
      bpb_reserved_sectors = 1, bpb_fat_count = 1, bpb_sectors_per_fat = 1, bpb_root_dir_entries = 0,
      bpb_root_dir_sectors = 0, bpb_fat_start_lba_offset = 1, bpb_root_dir_start_lba_offset = 2,
      bpb_first_data_sector_offset = 2, bpb_root_dir_first_cluster = 2 \<rparr> \<rparr>"

theorem fat_reads_chain_witness:
  "fat_read_file_bytes sample_disk (Some sample_volume) ''/boot/a.txt'' =
    Some (Some (take 300 (map (\<lambda>i. word_of_nat i + 5) [0 ..< 512])))"
proof -
  let ?e = "\<lparr> fe_name = ''A.TXT'', fe_kind = FatFile, fe_size = 300, fe_cluster = 5 \<rparr>"
  have n: "normalize_fat_path ''/boot/a.txt'' = Some (FAT_PATH_ROOT @ ''/'' @ ''a.txt'')" by code_simp
  have f: "find (\<lambda>e. eq_ignore_ascii_case (fe_name e) ''a.txt'') (fat_root_entries sample_volume) = Some ?e"
    by code_simp
  have c: "chain_data sample_disk sample_volume (Suc 0) (fe_cluster ?e) = Some (map (\<lambda>i. word_of_nat i + 5) [0 ..< 512])"
    by (simp add: cluster_data_def sample_volume_def sample_disk_def read_sector_def cluster_lba_def SECTOR_BYTES_def)
  have k: "0 * cluster_bytes sample_volume < fe_size ?e" "fe_size ?e \<le> Suc 0 * cluster_bytes sample_volume"
    "bpb_fat_type (fat_bpb sample_volume) = Fat32"
    by (simp_all add: cluster_bytes_def sample_volume_def)
  from fat_reads_chain [OF n f _ k(3) c k(1, 2)] show ?thesis by simp
qed

definition wrapping_bpb :: bytes where
  "wrapping_bpb = map (\<lambda>i. if i = 12 then 2 else if i = 13 then 1 else if i = 14 then 1 else if i = 16 then 2
    else if i = 34 then 0x10 else if i = 39 then 0x80 else if i = 44 then 2 else 0) [0 ..< 512]"


end
