(* ===== verification/Initrd.thy ===== *)
theory Initrd
  imports Path
begin

text \<open>
  The initial RAM disk (\<^verbatim>\<open>src/kernel/src/initrd.rs\<close>): a cpio archive in the \<^verbatim>\<open>newc\<close> format is
  parsed once at boot into a vector of entries, which the lookups search linearly.

  The archive is a byte list; every slice of it goes through \<open>slice_at\<close>, so an access out of
  range would be a panic of the model.  The lemmas show that no archive makes the parser
  panic, that the parsed tree is well formed (below \<^verbatim>\<open>/initrd\<close>, parents present), and that
  parsing inverts the encoding of the format.
\<close>

section \<open>State\<close>

definition INITRD_ROOT :: string where "INITRD_ROOT = ''/initrd''"
definition NEWC_MAGIC :: bytes where "NEWC_MAGIC = bytes_of ''070701''"
definition CRC_MAGIC :: bytes where "CRC_MAGIC = bytes_of ''070702''"
definition CPIO_HEADER_LEN :: nat where "CPIO_HEADER_LEN = 110"
definition FILE_TYPE_MASK :: u32 where "FILE_TYPE_MASK = 0xF000"
definition FILE_TYPE_DIRECTORY :: u32 where "FILE_TYPE_DIRECTORY = 0x4000"
definition MODE_EXECUTABLE_MASK :: u32 where "MODE_EXECUTABLE_MASK = 0x49"
definition DEFAULT_DIRECTORY_MODE :: u32 where "DEFAULT_DIRECTORY_MODE = FILE_TYPE_DIRECTORY OR 0x1ED"

datatype initrd_entry_kind = InitrdDirectory | InitrdFile

record initrd_entry =
  ie_path :: string
  ie_kind :: initrd_entry_kind
  ie_mode :: u32
  ie_data :: bytes

record boot_module =
  bm_path :: "string option"
  bm_string :: "string option"
  bm_bytes :: bytes

record initrd_state =
  is_module_path :: "string option"
  is_module_label :: "string option"
  is_module_count :: nat
  is_archive :: bytes
  is_archive_bytes :: nat
  is_entries :: "initrd_entry list"

record initrd_info =
  in_kind :: initrd_entry_kind
  in_size :: nat
  in_executable :: bool

record initrd_summary =
  isum_module_count :: nat
  isum_archive_bytes :: nat
  isum_directory_count :: nat
  isum_file_count :: nat
  isum_entry_count :: nat

datatype initrd_error = InitrdAlreadyInitialized | InitrdModuleMissing | InitrdInvalidArchive
  | InitrdInvalidEntryName | InitrdUnsupportedPath

section \<open>Entries and paths\<close>

definition is_dir_at :: "string \<Rightarrow> initrd_entry \<Rightarrow> bool" where
  "is_dir_at path entry = (ie_kind entry = InitrdDirectory \<and> ie_path entry = path)"

definition push_directory :: "initrd_entry list \<Rightarrow> string \<Rightarrow> u32 \<Rightarrow> initrd_entry list" where
  "push_directory entries path mode = (case find_index (is_dir_at path) entries of
      Some i \<Rightarrow> entries[i := (entries ! i)\<lparr> ie_mode := mode \<rparr>]
    | None \<Rightarrow> entries @ [\<lparr> ie_path = path, ie_kind = InitrdDirectory, ie_mode = mode, ie_data = [] \<rparr>])"

function ensure_parent_loop ::
  "string \<Rightarrow> nat \<Rightarrow> initrd_entry list \<Rightarrow> (initrd_error, initrd_entry list) outcome" where
  "ensure_parent_loop path e entries =
    (if e + 1 \<le> length path then
       (case find_index (\<lambda>c. c = slash) (drop (e + 1) path) of
          None \<Rightarrow> Ok entries
        | Some offset \<Rightarrow>
            let e = e + (offset + 1)
            in ensure_parent_loop path e (push_directory entries (take e path) DEFAULT_DIRECTORY_MODE))
     else Abort)"
  by pat_completeness auto
termination by (relation "measure (\<lambda>(path, e, _). length path - e)") auto

declare ensure_parent_loop.simps [simp del]

definition ensure_parent_directories ::
  "initrd_entry list \<Rightarrow> string \<Rightarrow> (initrd_error, initrd_entry list) outcome" where
  "ensure_parent_directories entries path =
    (if length path \<le> length INITRD_ROOT then Ok entries
     else ensure_parent_loop path (length INITRD_ROOT) entries)"

definition normalize_archive_path :: "string \<Rightarrow> (initrd_error, string) outcome" where
  "normalize_archive_path path =
    (let trimmed = trim_matches slash path;
         trimmed = (case strip_prefix ''./'' trimmed of Some t \<Rightarrow> t | None \<Rightarrow> trimmed)
     in if trimmed = [] \<or> trimmed = ''.'' then Ok INITRD_ROOT
        else if contains ''..'' trimmed then Fail InitrdInvalidEntryName
        else Ok (INITRD_ROOT @ ''/'' @ trimmed))"

definition normalize_vfs_path :: "string \<Rightarrow> initrd_error + string" where
  "normalize_vfs_path path =
    (if path = INITRD_ROOT \<or> path = ''/initrd/'' then Inr INITRD_ROOT
     else if \<not> starts_with ''/initrd/'' path then Inl InitrdUnsupportedPath
     else Inr (trim_end slash path))"

section \<open>The archive parser\<close>

definition hex_digit :: "u8 \<Rightarrow> u32 option" where
  "hex_digit b =
    (if 0x30 \<le> b \<and> b \<le> 0x39 then Some (ucast (b - 0x30))
     else if 0x61 \<le> b \<and> b \<le> 0x66 then Some (ucast (b - 0x61 + 10))
     else if 0x41 \<le> b \<and> b \<le> 0x46 then Some (ucast (b - 0x41 + 10))
     else None)"

fun parse_hex_loop :: "u32 \<Rightarrow> bytes \<Rightarrow> (initrd_error, u32) outcome" where
  "parse_hex_loop v [] = Ok v"
| "parse_hex_loop v (b # bs) =
    and_then (ok_or (checked_mul v 16) InitrdInvalidArchive) (\<lambda>w.
    and_then (ok_or (hex_digit b) InitrdInvalidArchive) (\<lambda>d.
    parse_hex_loop (w + d) bs))"

definition parse_hex_u32 :: "bytes \<Rightarrow> (initrd_error, u32) outcome" where
  "parse_hex_u32 bs = parse_hex_loop 0 bs"

definition align4 :: "nat \<Rightarrow> nat" where
  "align4 v = (v + 3) div 4 * 4"

text \<open>
  The header and the name of the record at the cursor: mode, file size, name and the cursor
  behind the padded name.
\<close>

definition newc_header :: "bytes \<Rightarrow> nat \<Rightarrow> (initrd_error, u32 \<times> nat \<times> string \<times> nat) outcome" where
  "newc_header archive cursor =
    and_then (slice_at archive cursor (cursor + CPIO_HEADER_LEN)) (\<lambda>header.
    let cursor = cursor + CPIO_HEADER_LEN in
    and_then (slice_at header 0 6) (\<lambda>magic.
    if magic \<noteq> NEWC_MAGIC \<and> magic \<noteq> CRC_MAGIC then Fail InitrdInvalidArchive else
    and_then (and_then (slice_at header 14 22) parse_hex_u32) (\<lambda>mode.
    and_then (and_then (slice_at header 54 62) parse_hex_u32) (\<lambda>file_size.
    and_then (and_then (slice_at header 94 102) parse_hex_u32) (\<lambda>name_size.
    let name_size = unat name_size in
    if name_size = 0 \<or> length archive < cursor + name_size then Fail InitrdInvalidArchive else
    and_then (slice_at archive cursor (cursor + name_size)) (\<lambda>name_bytes.
    let cursor = align4 (cursor + name_size) in
    if length archive < cursor then Fail InitrdInvalidArchive
    else if name_bytes = [] \<or> last name_bytes \<noteq> 0 then Fail InitrdInvalidArchive
    else if \<not> utf8_valid (butlast name_bytes) then Fail InitrdInvalidEntryName
    else Ok (mode, unat file_size, str_of (butlast name_bytes), cursor)))))))"

definition add_entry :: "initrd_entry list \<Rightarrow> string \<Rightarrow> u32 \<Rightarrow> bytes \<Rightarrow> initrd_entry list" where
  "add_entry entries path mode file_data =
    (if mode AND FILE_TYPE_MASK = FILE_TYPE_DIRECTORY then push_directory entries path mode
     else entries @ [\<lparr> ie_path = path, ie_kind = InitrdFile, ie_mode = mode, ie_data = file_data \<rparr>])"

lemma align4_ge: "v \<le> align4 v"
  unfolding align4_def using nat_sub_mod_le_add [of 4 v] by (simp add: minus_mod_eq_div_mult)

lemma newc_header_cursor:
  "newc_header archive cursor = Ok (mode, file_size, name, cursor') \<Longrightarrow>
    cursor + CPIO_HEADER_LEN \<le> cursor' \<and> cursor' \<le> length archive"
  using align4_ge
  by (auto simp: newc_header_def and_then_Inr Let_def split: if_splits intro: order.trans [OF _ align4_ge])

function newc_loop :: "bytes \<Rightarrow> nat \<Rightarrow> initrd_entry list \<Rightarrow> (initrd_error, initrd_entry list) outcome" where
  "newc_loop archive cursor entries =
    (if cursor + CPIO_HEADER_LEN \<le> length archive then
       and_then (newc_header archive cursor) (\<lambda>(mode, file_size, raw_name, cursor').
       if raw_name = ''TRAILER!!!'' then Ok entries else
       and_then (normalize_archive_path raw_name) (\<lambda>normalized.
       and_then (ensure_parent_directories entries normalized) (\<lambda>entries.
       if length archive < cursor' + file_size then Fail InitrdInvalidArchive else
       and_then (slice_at archive cursor' (cursor' + file_size)) (\<lambda>file_data.
       let cursor'' = align4 (cursor' + file_size) in
       if length archive < cursor'' then Fail InitrdInvalidArchive
       else newc_loop archive cursor'' (add_entry entries normalized mode file_data)))))
     else Fail InitrdInvalidArchive)"
  by pat_completeness auto
termination
proof (relation "measure (\<lambda>(archive, cursor, _). length archive - cursor)", goal_cases)
  case (2 archive cursor entries r mode x file_size y raw_name cursor' normalized entries' file_data cursor'')
  have "newc_header archive cursor = Ok (mode, file_size, raw_name, cursor')"
    using 2 by simp
  from newc_header_cursor [OF this] have "cursor < cursor'" and "cursor' \<le> length archive"
    by (simp_all add: CPIO_HEADER_LEN_def)
  moreover have "cursor' \<le> cursor''" using 2 align4_ge [of "cursor' + file_size"] by simp
  ultimately show ?case by simp
qed simp

declare newc_loop.simps [simp del]

definition parse_newc_archive :: "bytes \<Rightarrow> (initrd_error, initrd_entry list) outcome" where
  "parse_newc_archive archive =
    newc_loop archive 0 (push_directory [] INITRD_ROOT DEFAULT_DIRECTORY_MODE)"

section \<open>The public operations\<close>

fun select_module_loop :: "boot_module option \<Rightarrow> boot_module list \<Rightarrow> boot_module option" where
  "select_module_loop first [] = first"
| "select_module_loop first (m # ms) =
    (let first = (if first = None then Some m else first)
     in if bm_string m = Some ''initrd'' then Some m
        else if (case bm_path m of Some path \<Rightarrow> ends_with ''initrd.cpio'' path | None \<Rightarrow> False) then Some m
        else select_module_loop first ms)"

definition select_initrd_module :: "boot_module list \<Rightarrow> boot_module option" where
  "select_initrd_module modules = select_module_loop None modules"

definition initrd_is_initialized :: "initrd_state option \<Rightarrow> bool" where
  "initrd_is_initialized st = (st \<noteq> None)"

definition initrd_summary_of :: "initrd_state option \<Rightarrow> initrd_summary" where
  "initrd_summary_of st = (case st of
      None \<Rightarrow> \<lparr> isum_module_count = 0, isum_archive_bytes = 0, isum_directory_count = 0,
        isum_file_count = 0, isum_entry_count = 0 \<rparr>
    | Some state \<Rightarrow>
        \<lparr> isum_module_count = is_module_count state, isum_archive_bytes = is_archive_bytes state,
          isum_directory_count = length (filter (\<lambda>entry. ie_kind entry = InitrdDirectory) (is_entries state)),
          isum_file_count = length (filter (\<lambda>entry. ie_kind entry = InitrdFile) (is_entries state)),
          isum_entry_count = length (is_entries state) \<rparr>)"

definition initrd_initialize ::
  "initrd_state option \<Rightarrow> boot_module list option \<Rightarrow> initrd_state option \<times> (initrd_error, initrd_summary) outcome" where
  "initrd_initialize slot boot_modules =
    (if slot \<noteq> None then (slot, Fail InitrdAlreadyInitialized)
     else case boot_modules of None \<Rightarrow> (slot, Fail InitrdModuleMissing)
       | Some modules \<Rightarrow>
           if modules = [] then (slot, Fail InitrdModuleMissing)
           else case select_initrd_module modules of None \<Rightarrow> (slot, Fail InitrdModuleMissing)
             | Some module \<Rightarrow> (case parse_newc_archive (bm_bytes module) of
                   Inl e \<Rightarrow> (slot, Inl e)
                 | Inr entries \<Rightarrow>
                     let slot = Some \<lparr> is_module_path = bm_path module, is_module_label = bm_string module,
                       is_module_count = length modules, is_archive = bm_bytes module,
                       is_archive_bytes = length (bm_bytes module), is_entries = entries \<rparr>
                     in (slot, Ok (initrd_summary_of slot))))"

definition initrd_module_path :: "initrd_state option \<Rightarrow> string option" where
  "initrd_module_path st = Option.bind st is_module_path"

definition initrd_module_label :: "initrd_state option \<Rightarrow> string option" where
  "initrd_module_label st = Option.bind st is_module_label"

definition initrd_archive_bytes :: "initrd_state option \<Rightarrow> bytes option" where
  "initrd_archive_bytes st = map_option is_archive st"

definition find_entry :: "initrd_state \<Rightarrow> string \<Rightarrow> initrd_entry option" where
  "find_entry state path = find (\<lambda>entry. ie_path entry = path) (is_entries state)"

text \<open>The three lookups share the steps up to the entry found.\<close>

definition lookup_entry :: "initrd_state option \<Rightarrow> string \<Rightarrow> (initrd_state \<times> string \<times> initrd_entry) option" where
  "lookup_entry st path = (case st of None \<Rightarrow> None
    | Some state \<Rightarrow> (case normalize_vfs_path path of Inl _ \<Rightarrow> None
      | Inr normalized \<Rightarrow> map_option (\<lambda>entry. (state, normalized, entry)) (find_entry state normalized)))"

definition render_entries :: "initrd_state \<Rightarrow> string \<Rightarrow> string" where
  "render_entries state path =
    (let prefix = (if path = INITRD_ROOT then INITRD_ROOT @ ''/'' else path @ ''/'')
     in concat (map (\<lambda>entry.
          if ie_path entry = path \<or> \<not> starts_with prefix (ie_path entry) then []
          else let remainder = drop (length prefix) (ie_path entry)
               in if remainder = [] \<or> slash \<in> set remainder then [] else remainder @ [CHR 0x0A])
        (is_entries state)))"

definition initrd_read :: "initrd_state option \<Rightarrow> string \<Rightarrow> string option" where
  "initrd_read st path = (case lookup_entry st path of None \<Rightarrow> None
    | Some (state, normalized, entry) \<Rightarrow> (case ie_kind entry of
        InitrdDirectory \<Rightarrow> Some (render_entries state normalized)
      | InitrdFile \<Rightarrow> Some (str_of (utf8_lossy (ie_data entry)))))"

definition initrd_node_info :: "initrd_state option \<Rightarrow> string \<Rightarrow> initrd_info option" where
  "initrd_node_info st path = (case lookup_entry st path of None \<Rightarrow> None
    | Some (_, _, entry) \<Rightarrow> Some \<lparr> in_kind = ie_kind entry, in_size = length (ie_data entry),
        in_executable = (ie_mode entry AND MODE_EXECUTABLE_MASK \<noteq> 0) \<rparr>)"

definition initrd_read_bytes :: "initrd_state option \<Rightarrow> string \<Rightarrow> bytes option" where
  "initrd_read_bytes st path = (case lookup_entry st path of None \<Rightarrow> None
    | Some (_, _, entry) \<Rightarrow> if ie_kind entry \<noteq> InitrdFile then None else Some (ie_data entry))"

definition get_module_paths :: "initrd_state option \<Rightarrow> string list" where
  "get_module_paths st = (case st of None \<Rightarrow> []
    | Some state \<Rightarrow> map ie_path (filter (\<lambda>entry. ie_kind entry = InitrdFile
        \<and> (ends_with ''.hxext'' (ie_path entry) \<or> ends_with ''.hxmd'' (ie_path entry))) (is_entries state)))"

section \<open>Shape of the entries\<close>

text \<open>What the lookups depend on, without the mode bits.\<close>

definition skeleton :: "initrd_entry list \<Rightarrow> (string \<times> initrd_entry_kind \<times> bytes) list" where
  "skeleton entries = map (\<lambda>e. (ie_path e, ie_kind e, ie_data e)) entries"

definition below_root :: "string \<Rightarrow> bool" where
  "below_root p = (p = INITRD_ROOT \<or> starts_with ''/initrd/'' p)"

definition parent_cuts :: "string \<Rightarrow> nat list" where
  "parent_cuts p = filter (\<lambda>i. p ! i = slash) [8 ..< length p]"

definition dirs_plain :: "initrd_entry list \<Rightarrow> bool" where
  "dirs_plain entries = (\<forall>(p, k, d) \<in> set (skeleton entries). k = InitrdDirectory \<longrightarrow> d = [])"

definition dir_paths :: "initrd_entry list \<Rightarrow> string list" where
  "dir_paths entries = map ie_path (filter (\<lambda>e. ie_kind e = InitrdDirectory) entries)"

definition initrd_wf :: "initrd_entry list \<Rightarrow> bool" where
  "initrd_wf entries = (dirs_plain entries \<and> distinct (dir_paths entries)
    \<and> (INITRD_ROOT, InitrdDirectory, []) \<in> set (skeleton entries)
    \<and> (\<forall>(p, k, d) \<in> set (skeleton entries). below_root p
        \<and> (\<forall>i \<in> set (parent_cuts p). (take i p, InitrdDirectory, []) \<in> set (skeleton entries))))"

lemma push_directory_cases:
  obtains (old) i where "i < length entries" "is_dir_at path (entries ! i)"
      "push_directory entries path mode = entries[i := (entries ! i)\<lparr> ie_mode := mode \<rparr>]"
    | (new) "\<forall>e \<in> set entries. \<not> is_dir_at path e"
      "push_directory entries path mode =
        entries @ [\<lparr> ie_path = path, ie_kind = InitrdDirectory, ie_mode = mode, ie_data = [] \<rparr>]"
proof (cases "find_index (is_dir_at path) entries")
  case None
  then have "\<forall>e \<in> set entries. \<not> is_dir_at path e" by (simp add: find_index_None)
  moreover from None have "push_directory entries path mode =
      entries @ [\<lparr> ie_path = path, ie_kind = InitrdDirectory, ie_mode = mode, ie_data = [] \<rparr>]"
    by (simp add: push_directory_def)
  ultimately show thesis by (rule new)
next
  case (Some i)
  then show thesis using old [of i] find_index_SomeD [OF Some] by (simp add: push_directory_def)
qed

lemma skeleton_update_mode:
  "i < length entries \<Longrightarrow> skeleton (entries[i := (entries ! i)\<lparr> ie_mode := mode \<rparr>]) = skeleton entries"
  by (auto simp: skeleton_def intro!: nth_equalityI simp: nth_list_update)

lemma dir_in_skeleton:
  "dirs_plain entries \<Longrightarrow> e \<in> set entries \<Longrightarrow> is_dir_at path e \<Longrightarrow> (path, InitrdDirectory, []) \<in> set (skeleton entries)"
  by (force simp: dirs_plain_def skeleton_def is_dir_at_def)

lemma skeleton_push:
  assumes "dirs_plain entries"
  shows "set (skeleton (push_directory entries path mode)) =
      insert (path, InitrdDirectory, []) (set (skeleton entries))"
    and "dirs_plain (push_directory entries path mode)"
proof -
  show 1: "set (skeleton (push_directory entries path mode)) =
      insert (path, InitrdDirectory, []) (set (skeleton entries))"
  proof (cases rule: push_directory_cases [of entries path mode])
    case (old i)
    then have "(path, InitrdDirectory, []) \<in> set (skeleton entries)"
      using assms by (intro dir_in_skeleton [of _ "entries ! i"]) simp_all
    with old show ?thesis by (simp add: skeleton_update_mode insert_absorb)
  next
    case new
    then show ?thesis by (simp add: skeleton_def)
  qed
  show "dirs_plain (push_directory entries path mode)"
    using assms by (auto simp: dirs_plain_def 1)
qed

lemma dir_paths_push: "distinct (dir_paths entries) \<Longrightarrow> distinct (dir_paths (push_directory entries path mode))"
proof (cases rule: push_directory_cases [of entries path mode])
  case (old i)
  assume d: "distinct (dir_paths entries)"
  have dp: "dir_paths es = map fst (filter (\<lambda>t. fst (snd t) = InitrdDirectory) (skeleton es))" for es
    by (simp add: dir_paths_def skeleton_def filter_map comp_def)
  from d old show ?thesis by (simp add: dp skeleton_update_mode)
next
  case new
  assume "distinct (dir_paths entries)"
  with new show ?thesis by (auto simp: dir_paths_def is_dir_at_def)
qed

section \<open>Parent directories\<close>

definition push_parents :: "initrd_entry list \<Rightarrow> string \<Rightarrow> initrd_entry list" where
  "push_parents entries path =
    fold (\<lambda>i es. push_directory es (take i path) DEFAULT_DIRECTORY_MODE) (parent_cuts path) entries"

lemma filter_upt_first:
  assumes "find_index P (drop a xs) = Some k"
  shows "filter (\<lambda>i. P (xs ! i)) [a ..< length xs] = (a + k) # filter (\<lambda>i. P (xs ! i)) [Suc (a + k) ..< length xs]"
proof -
  note k = find_index_SomeD [OF assms]
  have a: "a \<le> length xs" using conjunct1 [OF k] by simp
  have "P (drop a xs ! k)" using k by blast
  with a have at: "P (xs ! (a + k))" by simp
  have "[a ..< length xs] = [a ..< a + k] @ (a + k) # [Suc (a + k) ..< length xs]"
    using k by (metis add_lessD1 le_add1 length_drop less_diff_conv add.commute upt_add_eq_append
        upt_conv_Cons le_add_diff_inverse less_imp_le_nat)
  moreover have "filter (\<lambda>i. P (xs ! i)) [a ..< a + k] = []"
  proof (intro filter_False ballI)
    fix i assume i: "i \<in> set [a ..< a + k]"
    then obtain j where j: "i = a + j" "j < k" by (auto simp: le_iff_add)
    have "\<not> P (drop a xs ! j)" using j k by blast
    with a show "\<not> P (xs ! i)" using j by simp
  qed
  ultimately show ?thesis using at by simp
qed

lemma filter_upt_none:
  assumes "find_index P (drop a xs) = None"
  shows "filter (\<lambda>i. P (xs ! i)) [a ..< length xs] = []"
proof (intro filter_False ballI)
  fix i assume i: "i \<in> set [a ..< length xs]"
  then have "drop a xs ! (i - a) \<in> set (drop a xs)" by (intro nth_mem) auto
  with assms i show "\<not> P (xs ! i)" by (auto simp: find_index_None)
qed

lemma ensure_parent_loop_fold:
  "e < length path \<Longrightarrow> ensure_parent_loop path e entries =
    Ok (fold (\<lambda>i es. push_directory es (take i path) DEFAULT_DIRECTORY_MODE)
      (filter (\<lambda>i. path ! i = slash) [Suc e ..< length path]) entries)"
proof (induction "length path - e" arbitrary: e entries rule: less_induct)
  case less
  show ?case
  proof (cases "find_index (\<lambda>c. c = slash) (drop (Suc e) path)")
    case None
    then show ?thesis
      using less.prems filter_upt_none [OF None] by (simp add: ensure_parent_loop.simps [of path e])
  next
    case (Some k)
    note k = find_index_SomeD [OF Some]
    let ?es = "push_directory entries (take (Suc (e + k)) path) DEFAULT_DIRECTORY_MODE"
    have "ensure_parent_loop path e entries = ensure_parent_loop path (Suc (e + k)) ?es"
      using Some less.prems by (simp add: ensure_parent_loop.simps [of path e])
    also have "\<dots> = Ok (fold (\<lambda>i es. push_directory es (take i path) DEFAULT_DIRECTORY_MODE)
        (filter (\<lambda>i. path ! i = slash) [Suc (Suc (e + k)) ..< length path]) ?es)"
      using k less.prems by (intro less.hyps) auto
    finally show ?thesis
      using filter_upt_first [OF Some] by simp
  qed
qed

lemma ensure_parent_directories_eq:
  assumes "path = INITRD_ROOT \<or> 8 < length path"
  shows "ensure_parent_directories entries path = Ok (push_parents entries path)"
proof (cases "path = INITRD_ROOT")
  case True
  then show ?thesis by (simp add: ensure_parent_directories_def push_parents_def parent_cuts_def INITRD_ROOT_def)
next
  case False
  have "length INITRD_ROOT = 7" by (simp add: INITRD_ROOT_def)
  with False assms ensure_parent_loop_fold [of 7 path entries] show ?thesis
    by (simp add: ensure_parent_directories_def push_parents_def parent_cuts_def)
qed

lemma fold_push_directory:
  assumes "dirs_plain entries" and "distinct (dir_paths entries)"
  shows "set (skeleton (fold (\<lambda>i es. push_directory es (f i) m) is entries)) =
      set (skeleton entries) \<union> (\<lambda>i. (f i, InitrdDirectory, [])) ` set is
    \<and> dirs_plain (fold (\<lambda>i es. push_directory es (f i) m) is entries)
    \<and> distinct (dir_paths (fold (\<lambda>i es. push_directory es (f i) m) is entries))"
  using assms
proof (induction "is" arbitrary: entries)
  case (Cons i "is")
  note Cons.IH [of "push_directory entries (f i) m", OF skeleton_push(2) dir_paths_push, OF Cons.prems]
  with Cons.prems show ?case by (simp add: skeleton_push(1))
qed simp

section \<open>The parser keeps the entries well formed and never panics\<close>

definition archive_path :: "string \<Rightarrow> bool" where
  "archive_path p = (p = INITRD_ROOT \<or> starts_with ''/initrd/'' p \<and> 8 < length p)"

lemma normalize_archive_path_shape:
  "normalize_archive_path raw = Ok p \<Longrightarrow> archive_path p"
  by (auto simp: normalize_archive_path_def archive_path_def Let_def INITRD_ROOT_def starts_with_def
      split: if_splits)

lemma normalize_archive_path_no_panic: "normalize_archive_path raw \<noteq> Abort"
  by (simp add: normalize_archive_path_def Let_def)

lemma archive_path_ensure: "archive_path p \<Longrightarrow> ensure_parent_directories entries p = Ok (push_parents entries p)"
  by (rule ensure_parent_directories_eq) (auto simp: archive_path_def)

lemma parent_cuts_take: "i \<in> set (parent_cuts p) \<Longrightarrow> j \<in> set (parent_cuts (take i p)) \<Longrightarrow>
  j \<in> set (parent_cuts p) \<and> take j (take i p) = take j p"
  by (auto simp: parent_cuts_def min_def)

lemma below_root_take: "archive_path p \<Longrightarrow> i \<in> set (parent_cuts p) \<Longrightarrow> below_root (take i p)"
  by (auto simp: archive_path_def below_root_def parent_cuts_def INITRD_ROOT_def starts_with_def min_def)

lemma parent_cuts_root [simp]: "parent_cuts INITRD_ROOT = []"
  by (simp add: parent_cuts_def INITRD_ROOT_def)

lemma skeleton_push_parents:
  assumes "initrd_wf entries"
  shows "set (skeleton (push_parents entries p)) =
      set (skeleton entries) \<union> (\<lambda>i. (take i p, InitrdDirectory, [])) ` set (parent_cuts p)"
    and "dirs_plain (push_parents entries p)" and "distinct (dir_paths (push_parents entries p))"
  using fold_push_directory [of entries "\<lambda>i. take i p" DEFAULT_DIRECTORY_MODE "parent_cuts p"] assms
  by (simp_all add: initrd_wf_def push_parents_def)

lemma initrd_wf_extend:
  assumes wf: "initrd_wf entries" and p: "archive_path p"
    and sk: "set (skeleton entries') = insert (p, k, d) (set (skeleton (push_parents entries p)))"
    and "dirs_plain entries'" and "distinct (dir_paths entries')"
  shows "initrd_wf entries'"
proof -
  let ?S = "set (skeleton entries')"
  have old: "set (skeleton entries) \<subseteq> ?S" and cuts: "\<And>i. i \<in> set (parent_cuts p) \<Longrightarrow> (take i p, InitrdDirectory, []) \<in> ?S"
    unfolding sk skeleton_push_parents(1) [OF wf] by auto
  have "below_root q \<and> (\<forall>i \<in> set (parent_cuts q). (take i q, InitrdDirectory, []) \<in> ?S)"
    if "(q, k', d') \<in> ?S" for q k' d'
  proof -
    from that consider "(q, k', d') \<in> set (skeleton entries)" | i where "i \<in> set (parent_cuts p)" "q = take i p"
      | "q = p"
      unfolding sk skeleton_push_parents(1) [OF wf] by auto
    then show ?thesis
    proof cases
      case 1
      with wf old show ?thesis unfolding initrd_wf_def by blast
    next
      case 2
      with p cuts show ?thesis by (metis below_root_take parent_cuts_take)
    next
      case 3
      with p cuts show ?thesis by (auto simp: archive_path_def below_root_def)
    qed
  qed
  moreover have "(INITRD_ROOT, InitrdDirectory, []) \<in> ?S"
    using wf old by (auto simp: initrd_wf_def)
  ultimately show ?thesis using assms(4, 5) by (auto simp: initrd_wf_def)
qed

lemma initrd_wf_add:
  assumes wf: "initrd_wf entries" and p: "archive_path p"
  shows "initrd_wf (add_entry (push_parents entries p) p mode d)"
proof (cases "mode AND FILE_TYPE_MASK = FILE_TYPE_DIRECTORY")
  case True
  note sp = skeleton_push_parents(2, 3) [OF wf, of p]
  from wf p show ?thesis
    by (rule initrd_wf_extend [where k = InitrdDirectory and d = "[]"])
      (simp_all add: add_entry_def True skeleton_push sp dir_paths_push)
next
  case False
  note sp = skeleton_push_parents(2, 3) [OF wf, of p]
  from wf p show ?thesis
    by (rule initrd_wf_extend [where k = InitrdFile and d = d])
      (use sp False in \<open>auto simp: add_entry_def skeleton_def dirs_plain_def dir_paths_def\<close>)
qed

lemma parse_hex_no_panic: "parse_hex_loop v bs \<noteq> Abort"
  by (induction v bs rule: parse_hex_loop.induct) (auto simp: and_then_Inl)

lemma newc_header_no_panic:
  "cursor + CPIO_HEADER_LEN \<le> length archive \<Longrightarrow> newc_header archive cursor \<noteq> Abort"
  using parse_hex_no_panic [of 0]
  by (auto simp: newc_header_def and_then_Inl Let_def parse_hex_u32_def CPIO_HEADER_LEN_def split: if_splits)

lemma newc_loop_safe:
  "initrd_wf entries \<Longrightarrow>
    newc_loop archive cursor entries \<noteq> Abort
    \<and> (\<forall>entries'. newc_loop archive cursor entries = Ok entries' \<longrightarrow> initrd_wf entries')"
proof (induction "length archive - cursor" arbitrary: cursor entries rule: less_induct)
  case less
  show ?case
  proof (cases "cursor + CPIO_HEADER_LEN \<le> length archive")
    case False
    then show ?thesis by (simp add: newc_loop.simps [of archive cursor])
  next
    case True
    consider e where "newc_header archive cursor = Fail e"
      | mode size raw c where "newc_header archive cursor = Ok (mode, size, raw, c)"
      using newc_header_no_panic [OF True] by (metis failure.exhaust prod_cases4 sum.exhaust)
    then show ?thesis
    proof cases
      case 1
      with True show ?thesis by (simp add: newc_loop.simps [of archive cursor])
    next
      case 2
      note c = newc_header_cursor [OF 2]
      consider "raw = ''TRAILER!!!''" | e where "raw \<noteq> ''TRAILER!!!''" "normalize_archive_path raw = Fail e"
        | p where "raw \<noteq> ''TRAILER!!!''" "normalize_archive_path raw = Ok p"
        using normalize_archive_path_no_panic [of raw] by (metis failure.exhaust sum.exhaust)
      then show ?thesis
      proof cases
        case 3
        note p = normalize_archive_path_shape [OF 3(2)]
        have "length archive - align4 (c + size) < length archive - cursor"
          using c align4_ge [of "c + size"] by (auto simp: CPIO_HEADER_LEN_def)
        note IH = less.hyps [OF this initrd_wf_add [OF less.prems p]]
        from True 2 3 IH show ?thesis
          by (simp add: newc_loop.simps [of archive cursor] archive_path_ensure [OF p] Let_def)
      qed (use True 2 less.prems in \<open>simp_all add: newc_loop.simps [of archive cursor]\<close>)
    qed
  qed
qed

lemma initrd_wf_root: "initrd_wf (push_directory [] INITRD_ROOT DEFAULT_DIRECTORY_MODE)"
  by (simp add: push_directory_def initrd_wf_def dirs_plain_def skeleton_def dir_paths_def below_root_def)

section \<open>The archive format\<close>

text \<open>
  A \<^verbatim>\<open>newc\<close> record as the archiver writes it: thirteen numeric fields of eight hexadecimal
  digits, the zero-terminated name and the data, name and data padded to four bytes.  The
  fields the kernel ignores are arbitrary.
\<close>

record newc_item =
  ni_name :: string
  ni_mode :: u32
  ni_data :: bytes
  ni_meta :: "nat \<Rightarrow> u32"

definition hex_char :: "nat \<Rightarrow> u8" where
  "hex_char n = (if n < 10 then word_of_nat (48 + n) else word_of_nat (87 + n))"

definition hex8 :: "u32 \<Rightarrow> bytes" where
  "hex8 w = map (\<lambda>j. hex_char (unat w div 16 ^ j mod 16)) [7, 6, 5, 4, 3, 2, 1, 0]"

definition pad4 :: "bytes \<Rightarrow> bytes" where
  "pad4 bs = bs @ replicate (align4 (length bs) - length bs) 0"

definition newc_fields :: "newc_item \<Rightarrow> u32 list" where
  "newc_fields it = [ni_meta it 0, ni_mode it, ni_meta it 1, ni_meta it 2, ni_meta it 3, ni_meta it 4,
    word_of_nat (length (ni_data it)), ni_meta it 5, ni_meta it 6, ni_meta it 7, ni_meta it 8,
    word_of_nat (length (ni_name it) + 1), ni_meta it 9]"

definition newc_encode_header :: "newc_item \<Rightarrow> bytes" where
  "newc_encode_header it = NEWC_MAGIC @ concat (map hex8 (newc_fields it))"

definition newc_record :: "newc_item \<Rightarrow> bytes" where
  "newc_record it = pad4 (newc_encode_header it @ bytes_of (ni_name it) @ [0]) @ pad4 (ni_data it)"

definition newc_trailer :: bytes where
  "newc_trailer = newc_record \<lparr> ni_name = ''TRAILER!!!'', ni_mode = 0, ni_data = [], ni_meta = (\<lambda>_. 0) \<rparr>"

definition newc_encode :: "newc_item list \<Rightarrow> bytes" where
  "newc_encode items = concat (map newc_record items) @ newc_trailer"

definition sized_item :: "newc_item \<Rightarrow> bool" where
  "sized_item it = (length (ni_name it) + 1 < 2 ^ 32 \<and> length (ni_data it) < 2 ^ 32
    \<and> utf8_valid (bytes_of (ni_name it)))"

definition item_path :: "newc_item \<Rightarrow> string" where
  "item_path it = (case normalize_archive_path (ni_name it) of Inr p \<Rightarrow> p | Inl _ \<Rightarrow> [])"

definition good_item :: "newc_item \<Rightarrow> bool" where
  "good_item it = (sized_item it \<and> ni_name it \<noteq> ''TRAILER!!!''
    \<and> normalize_archive_path (ni_name it) = Ok (item_path it))"

definition unpack :: "newc_item \<Rightarrow> initrd_entry list \<Rightarrow> initrd_entry list" where
  "unpack it entries = add_entry (push_parents entries (item_path it)) (item_path it) (ni_mode it) (ni_data it)"

lemma hex_digit_char: "n < 16 \<Longrightarrow> hex_digit (hex_char n) = Some (word_of_nat n)"
proof -
  assume "n < 16"
  then have "n \<in> set [0 ..< 16]" by simp
  moreover have "list_all (\<lambda>n. hex_digit (hex_char n) = Some (word_of_nat n)) [0 ..< 16]"
    by code_simp
  ultimately show ?thesis by (simp only: list_all_iff)
qed

lemma parse_hex_step:
  "n < 16 \<Longrightarrow> unat v * 16 < 2 ^ 32 \<Longrightarrow>
    parse_hex_loop v (hex_char n # bs) = parse_hex_loop (v * 16 + word_of_nat n) bs"
  by (simp add: hex_digit_char checked_mul_def)

lemma parse_hex_digits:
  "n \<le> 8 \<Longrightarrow> unat v = unat w div 16 ^ n \<Longrightarrow>
    parse_hex_loop v (map (\<lambda>j. hex_char (unat w div 16 ^ j mod 16)) (rev [0 ..< n])) = Ok w" for w :: u32
proof (induction n arbitrary: v)
  case 0
  then show ?case by (simp add: word_unat_eq_iff)
next
  case (Suc n)
  let ?d = "unat w div 16 ^ n mod 16"
  have eq: "unat v * 16 + ?d = unat w div 16 ^ n"
    unfolding Suc.prems(2) by (simp add: div_mult2_eq mult.commute [of 16])
  have "unat w < 2 ^ 32" using unsigned_less [of w, where ?'a = nat] by simp
  then have lt: "unat w div 16 ^ n < 2 ^ 32" using div_le_dividend le_less_trans by blast
  have "unat (v * 16 + word_of_nat ?d) = (unat v * 16 + ?d) mod 2 ^ 32"
    by (simp add: unat_word_ariths unat_of_nat mod_simps)
  then have "unat (v * 16 + word_of_nat ?d) = unat w div 16 ^ n" using eq lt by simp
  with Suc.prems(1) have "parse_hex_loop (v * 16 + word_of_nat ?d)
      (map (\<lambda>j. hex_char (unat w div 16 ^ j mod 16)) (rev [0 ..< n])) = Ok w"
    by (intro Suc.IH) simp_all
  moreover have "unat v * 16 < 2 ^ 32" using eq lt by linarith
  ultimately show ?case by (simp add: parse_hex_step del: parse_hex_loop.simps)
qed

lemma parse_hex_hex8: "parse_hex_u32 (hex8 w) = Ok w"
proof -
  have "unat w < 2 ^ 32" using unsigned_less [of w, where ?'a = nat] by simp
  then have "unat (0 :: u32) = unat w div 16 ^ 8" by simp
  with parse_hex_digits [of 8 0 w] show ?thesis
    by (simp add: parse_hex_u32_def hex8_def upt_rec)
qed

lemma length_hex8 [simp]: "length (hex8 w) = 8"
  by (simp add: hex8_def)

lemma align4_dvd [simp]: "4 dvd align4 n"
  by (simp add: align4_def)

lemma align4_add: "4 dvd a \<Longrightarrow> align4 (a + n) = a + align4 n"
  by (auto simp: align4_def elim!: dvdE simp: add.assoc)

lemma length_pad4 [simp]: "length (pad4 bs) = align4 (length bs)"
  using align4_ge [of "length bs"] by (simp add: pad4_def)

lemma take_drop_concat:
  "\<forall>x \<in> set xs. length (f x) = k \<Longrightarrow> i < length xs \<Longrightarrow> take k (drop (i * k) (concat (map f xs))) = f (xs ! i)"
proof (induction xs arbitrary: i)
  case (Cons x xs)
  then show ?case by (cases i) auto
qed simp

lemma length_encode_header [simp]: "length (newc_encode_header it) = 110"
  by (simp add: newc_encode_header_def newc_fields_def NEWC_MAGIC_def)

lemma slice_encode_header:
  assumes "i < 13" and "a = 6 + i * 8" and "b = a + 8"
  shows "slice (newc_encode_header it) a b = hex8 (newc_fields it ! i)"
proof -
  have "length (newc_fields it) = 13" by (simp add: newc_fields_def)
  then have "take 8 (drop (i * 8) (concat (map hex8 (newc_fields it)))) = hex8 (newc_fields it ! i)"
    using assms(1) by (intro take_drop_concat) simp_all
  moreover have "drop a (newc_encode_header it) = drop (i * 8) (concat (map hex8 (newc_fields it)))"
    by (simp add: newc_encode_header_def assms(2) NEWC_MAGIC_def)
  ultimately show ?thesis by (simp add: slice_def assms(3))
qed

definition name_end :: "newc_item \<Rightarrow> nat" where
  "name_end it = align4 (111 + length (ni_name it))"

lemma newc_record_parts:
  "newc_record it = newc_encode_header it @ (bytes_of (ni_name it) @ [0]) @
    replicate (name_end it - (111 + length (ni_name it))) 0 @ pad4 (ni_data it)"
  by (simp add: newc_record_def pad4_def name_end_def)

lemma length_newc_record: "length (newc_record it) = name_end it + align4 (length (ni_data it))"
  by (simp add: newc_record_def name_end_def)

lemma newc_header_record:
  assumes "sized_item it" and "4 dvd length pre"
  shows "newc_header (pre @ newc_record it @ rest) (length pre) =
    Ok (ni_mode it, length (ni_data it), ni_name it, length pre + name_end it)"
proof -
  let ?a = "pre @ newc_record it @ rest" and ?h = "newc_encode_header it"
  let ?n = "bytes_of (ni_name it) @ [0]"
  define N where "N = length (ni_name it) + 1"
  have mode: "slice ?h 14 22 = hex8 (ni_mode it)"
    using slice_encode_header [of 1 14 22 it] by (simp add: newc_fields_def)
  have fsize: "slice ?h 54 62 = hex8 (word_of_nat (length (ni_data it)))"
    using slice_encode_header [of 6 54 62 it] by (simp add: newc_fields_def)
  have nsize: "slice ?h 94 102 = hex8 (word_of_nat N)"
    using slice_encode_header [of 11 94 102 it] by (simp add: newc_fields_def N_def)
  have magic: "slice ?h 0 6 = NEWC_MAGIC"
    by (simp add: newc_encode_header_def slice_def NEWC_MAGIC_def)
  have head: "slice ?a (length pre) (length pre + 110) = ?h"
    unfolding newc_record_parts append_assoc by (rule slice_mid) simp_all
  have name: "slice ?a (length pre + 110) (length pre + 110 + N) = ?n"
    using slice_mid [of "length pre + 110" "pre @ ?h" "length pre + 110 + N" ?n]
    by (simp add: newc_record_parts N_def)
  have len: "length pre + 110 + N \<le> length ?a" "length pre + name_end it \<le> length ?a" "N \<noteq> 0"
    using align4_ge [of "111 + length (ni_name it)"] by (simp_all add: length_newc_record N_def name_end_def)
  have "length pre + 110 + N = length pre + (111 + length (ni_name it))" by (simp add: N_def)
  then have al: "align4 (length pre + 110 + N) = length pre + name_end it"
    unfolding name_end_def using align4_add [OF assms(2)] by metis
  have sz: "unat (word_of_nat N :: u32) = N" "unat (word_of_nat (length (ni_data it)) :: u32) = length (ni_data it)"
    using assms(1) by (simp_all add: sized_item_def N_def unat_of_nat del: of_nat_Suc of_nat_add)
  have utf: "utf8_valid (bytes_of (ni_name it))" using assms(1) by (simp add: sized_item_def)
  show ?thesis
    unfolding newc_header_def CPIO_HEADER_LEN_def
    using len utf
    by (simp add: head magic mode fsize nsize name al sz parse_hex_hex8 Let_def butlast_append del: append_assoc)
qed

lemma newc_loop_record:
  assumes "good_item it" and "4 dvd length pre"
  shows "newc_loop (pre @ newc_record it @ rest) (length pre) entries =
    newc_loop (pre @ newc_record it @ rest) (length pre + length (newc_record it)) (unpack it entries)"
proof -
  let ?a = "pre @ newc_record it @ rest" and ?c = "length pre + name_end it"
  have it: "sized_item it" "ni_name it \<noteq> ''TRAILER!!!''" "normalize_archive_path (ni_name it) = Ok (item_path it)"
    using assms(1) by (simp_all add: good_item_def)
  have h: "newc_header ?a (length pre) = Ok (ni_mode it, length (ni_data it), ni_name it, ?c)"
    using it(1) assms(2) by (rule newc_header_record)
  have pad: "length (newc_encode_header it @ (bytes_of (ni_name it) @ [0]) @
      replicate (name_end it - (111 + length (ni_name it))) 0) = name_end it"
    using align4_ge [of "111 + length (ni_name it)"] by (simp add: name_end_def)
  have data: "slice ?a ?c (?c + length (ni_data it)) = ni_data it"
    using slice_mid [of ?c "pre @ newc_encode_header it @ (bytes_of (ni_name it) @ [0]) @
      replicate (name_end it - (111 + length (ni_name it))) 0" "?c + length (ni_data it)" "ni_data it"
      "replicate (align4 (length (ni_data it)) - length (ni_data it)) 0 @ rest"] pad
    by (simp add: newc_record_parts pad4_def)
  have end': "align4 (?c + length (ni_data it)) = length pre + length (newc_record it)"
  proof -
    have "4 dvd ?c" using assms(2) by (simp add: name_end_def)
    from align4_add [OF this] show ?thesis by (simp add: length_newc_record)
  qed
  have "110 \<le> name_end it" using align4_ge [of "111 + length (ni_name it)"] by (simp add: name_end_def)
  then have lens: "length pre + CPIO_HEADER_LEN \<le> length ?a" "?c + length (ni_data it) \<le> length ?a"
    "length pre + length (newc_record it) \<le> length ?a"
    using align4_ge [of "length (ni_data it)"] by (simp_all add: CPIO_HEADER_LEN_def length_newc_record)
  show ?thesis
    using lens by (subst newc_loop.simps)
      (simp add: h it(2, 3) archive_path_ensure [OF normalize_archive_path_shape [OF it(3)]] data end'
        Let_def unpack_def del: append_assoc)
qed

lemma newc_loop_records:
  "\<forall>it \<in> set items. good_item it \<Longrightarrow> 4 dvd length pre \<Longrightarrow>
    newc_loop (pre @ concat (map newc_record items) @ rest) (length pre) entries =
    newc_loop (pre @ concat (map newc_record items) @ rest)
      (length pre + length (concat (map newc_record items))) (fold unpack items entries)"
proof (induction items arbitrary: pre entries)
  case (Cons it items)
  have "4 dvd length (pre @ newc_record it)" using Cons.prems by (simp add: length_newc_record name_end_def)
  with Cons.prems Cons.IH [of "pre @ newc_record it" "unpack it entries"]
  show ?case by (simp add: newc_loop_record add.assoc)
qed simp

lemma newc_loop_trailer:
  assumes "4 dvd length pre"
  shows "newc_loop (pre @ newc_trailer @ rest) (length pre) entries = Ok entries"
proof -
  let ?t = "\<lparr> ni_name = ''TRAILER!!!'', ni_mode = 0, ni_data = [], ni_meta = (\<lambda>_. 0) \<rparr>"
  have "sized_item ?t" by code_simp
  note newc_header_record [OF this assms, of rest]
  moreover have "length pre + CPIO_HEADER_LEN \<le> length (pre @ newc_trailer @ rest)"
    by (simp add: newc_trailer_def length_newc_record name_end_def CPIO_HEADER_LEN_def align4_def)
  ultimately show ?thesis
    by (subst newc_loop.simps) (simp add: newc_trailer_def)
qed

section \<open>Lookups in the parsed tree\<close>

lemma skeleton_push_prefix: "\<exists>t. skeleton (push_directory es p m) = skeleton es @ t
  \<and> set t \<subseteq> {(p, InitrdDirectory, [])}"
proof (cases rule: push_directory_cases [of es p m])
  case (old i)
  then show ?thesis by (simp add: skeleton_update_mode)
next
  case new
  then show ?thesis by (simp add: skeleton_def)
qed

lemma skeleton_fold_prefix:
  "\<exists>t. skeleton (fold (\<lambda>i es. push_directory es (f i) m) is es) = skeleton es @ t
    \<and> set t \<subseteq> (\<lambda>i. (f i, InitrdDirectory, [])) ` set is"
proof (induction "is" arbitrary: es)
  case (Cons i "is")
  obtain t where t: "skeleton (push_directory es (f i) m) = skeleton es @ t" "set t \<subseteq> {(f i, InitrdDirectory, [])}"
    using skeleton_push_prefix by blast
  obtain u where u: "skeleton (fold (\<lambda>i es. push_directory es (f i) m) is (push_directory es (f i) m)) =
      skeleton (push_directory es (f i) m) @ u" "set u \<subseteq> (\<lambda>i. (f i, InitrdDirectory, [])) ` set is"
    using Cons.IH by blast
  from t u have "skeleton (fold (\<lambda>i es. push_directory es (f i) m) (i # is) es) = skeleton es @ (t @ u)" by simp
  moreover have "set (t @ u) \<subseteq> (\<lambda>i. (f i, InitrdDirectory, [])) ` set (i # is)" using t(2) u(2) by auto
  ultimately show ?case by blast
qed simp

definition unpacked_paths :: "newc_item \<Rightarrow> string set" where
  "unpacked_paths it = insert (item_path it) ((\<lambda>i. take i (item_path it)) ` set (parent_cuts (item_path it)))"

lemma skeleton_parents_prefix: "\<exists>t. skeleton (push_parents es p) = skeleton es @ t
    \<and> fst ` set t \<subseteq> (\<lambda>i. take i p) ` set (parent_cuts p)"
  using skeleton_fold_prefix [of "\<lambda>i. take i p" DEFAULT_DIRECTORY_MODE "parent_cuts p" es]
  unfolding push_parents_def by (smt (verit) fst_conv imageE image_eqI image_subsetI subsetD)

lemma skeleton_unpack_prefix: "\<exists>t. skeleton (unpack it es) = skeleton es @ t \<and> fst ` set t \<subseteq> unpacked_paths it"
proof -
  let ?p = "item_path it" and ?q = "push_parents es (item_path it)"
  obtain t where t: "skeleton ?q = skeleton es @ t" "fst ` set t \<subseteq> (\<lambda>i. take i ?p) ` set (parent_cuts ?p)"
    using skeleton_parents_prefix by blast
  obtain u where "skeleton (unpack it es) = skeleton ?q @ u" "fst ` set u \<subseteq> {?p}"
  proof (cases "ni_mode it AND FILE_TYPE_MASK = FILE_TYPE_DIRECTORY")
    case True
    then show thesis
      using skeleton_push_prefix [of ?q ?p "ni_mode it"] that unfolding unpack_def add_entry_def by fastforce
  next
    case False
    then show thesis using that by (simp add: unpack_def add_entry_def skeleton_def)
  qed
  with t show ?thesis unfolding unpacked_paths_def by (intro exI [of _ "t @ u"]) auto
qed

lemma skeleton_unpacks_prefix:
  "\<exists>t. skeleton (fold unpack its es) = skeleton es @ t \<and> fst ` set t \<subseteq> (\<Union>it \<in> set its. unpacked_paths it)"
proof (induction its arbitrary: es)
  case (Cons it its)
  obtain t where t: "skeleton (unpack it es) = skeleton es @ t" "fst ` set t \<subseteq> unpacked_paths it"
    using skeleton_unpack_prefix by blast
  obtain u where u: "skeleton (fold unpack its (unpack it es)) = skeleton (unpack it es) @ u"
      "fst ` set u \<subseteq> (\<Union>it \<in> set its. unpacked_paths it)"
    using Cons.IH by blast
  show ?case using t u by (intro exI [of _ "t @ u"]) auto
qed simp

lemma find_skeleton:
  "map_option (\<lambda>e. (ie_path e, ie_kind e, ie_data e)) (find (\<lambda>e. ie_path e = p) es) =
    find (\<lambda>t. fst t = p) (skeleton es)"
  by (induction es) (auto simp: skeleton_def)

lemma find_append: "find P (xs @ ys) = (case find P xs of None \<Rightarrow> find P ys | Some x \<Rightarrow> Some x)"
  by (induction xs) auto

lemma find_not_in: "p \<notin> fst ` set ts \<Longrightarrow> find (\<lambda>t. fst t = p) ts = None"
  by (force simp: find_None_iff)

lemma item_path_last:
  assumes "good_item it"
  shows "last (item_path it) \<noteq> slash"
proof -
  define t where "t = trim_matches slash (ni_name it)"
  define u where "u = (case strip_prefix ''./'' t of Some d \<Rightarrow> d | None \<Rightarrow> t)"
  have "item_path it = INITRD_ROOT \<or> u \<noteq> [] \<and> item_path it = INITRD_ROOT @ ''/'' @ u"
    using assms unfolding good_item_def normalize_archive_path_def Let_def t_def [symmetric] u_def [symmetric]
    by (auto split: if_splits)
  moreover have "last u \<noteq> slash" if ne: "u \<noteq> []"
  proof -
    have tl: "last t \<noteq> slash" if "t \<noteq> []"
      using that unfolding t_def trim_matches_def by (rule trim_end_last)
    show ?thesis
    proof (cases "starts_with ''./'' t")
      case True
      then obtain d where d: "t = ''./'' @ d" unfolding starts_with_iff by (rule exE)
      then have "u = d" by (simp add: u_def strip_prefix_def starts_with_def)
      with d ne tl show ?thesis by simp
    next
      case False
      then have "u = t" by (simp add: u_def strip_prefix_def)
      with ne tl show ?thesis by simp
    qed
  qed
  moreover have "last INITRD_ROOT \<noteq> slash" by (simp add: INITRD_ROOT_def)
  ultimately show ?thesis by auto
qed

lemma normalize_vfs_item: "good_item it \<Longrightarrow> normalize_vfs_path (item_path it) = Inr (item_path it)"
proof -
  assume it: "good_item it"
  then have "archive_path (item_path it)" 
    using normalize_archive_path_shape [of "ni_name it"] by (simp add: good_item_def)
  moreover have "trim_end slash (item_path it) = item_path it"
    using item_path_last [OF it] by (intro trim_end_id disjI2)
  ultimately show ?thesis by (auto simp: normalize_vfs_path_def archive_path_def)
qed

lemma newc_parse_items:
  assumes "\<forall>it \<in> set items. good_item it"
  shows "parse_newc_archive (newc_encode items @ rest) =
    Ok (fold unpack items (push_directory [] INITRD_ROOT DEFAULT_DIRECTORY_MODE))"
proof -
  let ?recs = "concat (map newc_record items)"
  have "4 dvd length ?recs"
    by (induction items) (simp_all add: length_newc_record name_end_def)
  then show ?thesis
    using newc_loop_records [OF assms, of "[]" "newc_trailer @ rest"] newc_loop_trailer [of ?recs rest]
    by (simp add: parse_newc_archive_def newc_encode_def)
qed

definition boot_initrd :: "string option \<Rightarrow> string option \<Rightarrow> bytes \<Rightarrow> initrd_state option" where
  "boot_initrd path label archive = fst (initrd_initialize None (Some
    [\<lparr> bm_path = path, bm_string = label, bm_bytes = archive \<rparr>]))"

lemma lookup_item:
  assumes "\<forall>it \<in> set (xs @ it # ys). good_item it"
    and "item_path it \<noteq> INITRD_ROOT" and "item_path it \<notin> (\<Union>x \<in> set xs. unpacked_paths x)"
    and "ni_mode it AND FILE_TYPE_MASK \<noteq> FILE_TYPE_DIRECTORY"
  shows "\<exists>state e. lookup_entry (boot_initrd path label (newc_encode (xs @ it # ys) @ rest)) (item_path it) =
      Some (state, item_path it, e) \<and> ie_kind e = InitrdFile \<and> ie_data e = ni_data it"
proof -
  let ?p = "item_path it" and ?root = "push_directory [] INITRD_ROOT DEFAULT_DIRECTORY_MODE"
  let ?es = "fold unpack (xs @ it # ys) ?root"
  obtain t where t: "skeleton (fold unpack xs ?root) = skeleton ?root @ t" "?p \<notin> fst ` set t"
    using skeleton_unpacks_prefix [of xs ?root] assms(3) by blast
  obtain u where u: "skeleton (push_parents (fold unpack xs ?root) ?p) = skeleton (fold unpack xs ?root) @ u"
      "fst ` set u \<subseteq> (\<lambda>i. take i ?p) ` set (parent_cuts ?p)"
    using skeleton_parents_prefix by blast
  obtain v where "skeleton ?es = skeleton (unpack it (fold unpack xs ?root)) @ v"
    using skeleton_unpacks_prefix [of ys "unpack it (fold unpack xs ?root)"] by auto
  moreover have "skeleton (unpack it (fold unpack xs ?root)) = skeleton ?root @ t @ u @ [(?p, InitrdFile, ni_data it)]"
    using assms(4) t(1) u(1) by (simp add: unpack_def add_entry_def skeleton_def)
  moreover have "?p \<notin> fst ` set u"
  proof
    assume "?p \<in> fst ` set u"
    with u(2) have "?p \<in> (\<lambda>i. take i ?p) ` set (parent_cuts ?p)" by (rule subsetD)
    then obtain i where i: "i \<in> set (parent_cuts ?p)" and eq: "?p = take i ?p" by (rule imageE)
    from eq have "length ?p = length (take i ?p)" by (rule arg_cong)
    moreover have "i < length ?p" using i by (simp add: parent_cuts_def)
    ultimately show False by simp
  qed
  moreover have "?p \<notin> fst ` set (skeleton ?root)"
    using assms(2) by (simp add: push_directory_def skeleton_def)
  ultimately have "find (\<lambda>t. fst t = ?p) (skeleton ?es) = Some (?p, InitrdFile, ni_data it)"
    using t(2) by (simp add: find_append find_not_in)
  then obtain e where e: "find (\<lambda>e. ie_path e = ?p) ?es = Some e" "ie_kind e = InitrdFile" "ie_data e = ni_data it"
    unfolding find_skeleton [symmetric] by auto
  have "good_item it" using assms(1) by simp
  note vfs = normalize_vfs_item [OF this]
  from newc_parse_items [OF assms(1)] e vfs show ?thesis
    by (simp add: boot_initrd_def initrd_initialize_def select_initrd_module_def lookup_entry_def
        find_entry_def Let_def)
qed

section \<open>Properties\<close>





text \<open>
  C20. No archive panics the kernel, and what is accepted is a tree: on every byte string the
  parser returns entries or one of its errors, and the entries all lie below \<^verbatim>\<open>/initrd\<close>, each
  of their parent directories is an entry, and no directory occurs twice.
\<close>

theorem initrd_parse_safe:
  "parse_newc_archive archive \<noteq> Abort \<and>
    (\<forall>entries. parse_newc_archive archive = Ok entries \<longrightarrow> initrd_wf entries)"
  unfolding parse_newc_archive_def using initrd_wf_root by (rule newc_loop_safe)

theorem initrd_parse_safe_witness:
  "initrd_wf (fold unpack [] (push_directory [] INITRD_ROOT DEFAULT_DIRECTORY_MODE))
    \<and> parse_newc_archive newc_trailer = Ok (push_directory [] INITRD_ROOT DEFAULT_DIRECTORY_MODE)"
proof -
  have p: "parse_newc_archive newc_trailer = Ok (push_directory [] INITRD_ROOT DEFAULT_DIRECTORY_MODE)"
    using newc_loop_trailer [of "[]" "[]"] by (simp add: parse_newc_archive_def)
  with initrd_parse_safe [of newc_trailer] show ?thesis by simp
qed

end
