(* ===== verification/Exec.thy ===== *)
theory Exec
  imports Text
begin

text \<open>
  Executable images (\<^verbatim>\<open>src/kernel/src/exec.rs\<close>): the ELF64 parser, the load plan made from its
  program headers, shebang scripts and the text heuristic.

  Offsets and sizes read from the image are 64-bit words; as \<^verbatim>\<open>usize\<close> they are natural numbers
  below \<open>2 ^ 64\<close>, and the source's checked additions are \<open>usize_checked_add\<close>.  The lemmas show
  that no image panics the kernel, that every accepted program header describes a range inside
  the image and an address range that does not wrap, and that the load plan covers each segment
  by whole pages.
\<close>

section \<open>Data\<close>

definition ELF_MAGIC :: bytes where "ELF_MAGIC = [0x7F, 0x45, 0x4C, 0x46]"
definition ELF64_EHDR_SIZE :: nat where "ELF64_EHDR_SIZE = 64"
definition ELF64_PHDR_SIZE :: nat where "ELF64_PHDR_SIZE = 56"
definition ELF_CLASS_64 :: u8 where "ELF_CLASS_64 = 2"
definition ELF_DATA_LITTLE :: u8 where "ELF_DATA_LITTLE = 1"
definition ELF_VERSION_CURRENT :: u8 where "ELF_VERSION_CURRENT = 1"
definition MAX_PROGRAM_HEADERS :: nat where "MAX_PROGRAM_HEADERS = 256"
definition EXEC_PAGE_SIZE :: u64 where "EXEC_PAGE_SIZE = 4096"
definition PF_EXECUTE :: u32 where "PF_EXECUTE = 1"
definition PF_WRITE :: u32 where "PF_WRITE = 2"
definition PF_READ :: u32 where "PF_READ = 4"

datatype image_kind = KindElf64 | KindShebangScript | KindText | KindUnknown

datatype program_header_type = PtNull | PtLoad | PtDynamic | PtInterpreter | PtNote
  | PtProgramHeaderTable | PtThreadLocalStorage | PtGnuStack | PtGnuRelro | PtUnknown u32

definition from_raw :: "u32 \<Rightarrow> program_header_type" where
  "from_raw raw =
    (if raw = 0 then PtNull else if raw = 1 then PtLoad else if raw = 2 then PtDynamic
     else if raw = 3 then PtInterpreter else if raw = 4 then PtNote else if raw = 6 then PtProgramHeaderTable
     else if raw = 7 then PtThreadLocalStorage else if raw = 0x6474E551 then PtGnuStack
     else if raw = 0x6474E552 then PtGnuRelro else PtUnknown raw)"

record program_header =
  ph_segment_type :: program_header_type
  ph_flags :: u32
  ph_offset :: u64
  ph_virtual_address :: u64
  ph_file_size :: u64
  ph_memory_size :: u64
  ph_alignment :: u64

definition is_loadable :: "program_header \<Rightarrow> bool" where
  "is_loadable h = (ph_segment_type h = PtLoad)"

definition can_read :: "program_header \<Rightarrow> bool" where
  "can_read h = (ph_flags h AND PF_READ \<noteq> 0)"

definition can_write :: "program_header \<Rightarrow> bool" where
  "can_write h = (ph_flags h AND PF_WRITE \<noteq> 0)"

definition can_execute :: "program_header \<Rightarrow> bool" where
  "can_execute h = (ph_flags h AND PF_EXECUTE \<noteq> 0)"

record segment_permissions =
  sp_read :: bool
  sp_write :: bool
  sp_execute :: bool

definition from_header :: "program_header \<Rightarrow> segment_permissions" where
  "from_header h = \<lparr> sp_read = can_read h, sp_write = can_write h, sp_execute = can_execute h \<rparr>"

record load_segment_plan =
  ls_index :: nat
  ls_file_offset :: u64
  ls_virtual_start :: u64
  ls_virtual_end :: u64
  ls_map_start :: u64
  ls_map_end :: u64
  ls_page_offset :: u64
  ls_file_bytes :: u64
  ls_memory_bytes :: u64
  ls_zero_fill_bytes :: u64
  ls_alignment :: u64
  ls_permissions :: segment_permissions

record elf_image =
  ei_image_type :: u16
  ei_machine :: u16
  ei_entry_point :: u64
  ei_interpreter :: "string option"
  ei_program_headers :: "program_header list"

record shebang_image =
  si_interpreter :: string
  si_argument :: "string option"

datatype executable_image = Elf64 elf_image | Shebang shebang_image | TextImage | UnknownImage

datatype parse_error = Truncated | UnsupportedClass | UnsupportedEndianness | UnsupportedVersion
  | InvalidHeader | TooManyProgramHeaders | InvalidProgramHeaderTable | ProgramHeaderOutOfBounds
  | SegmentOutOfBounds | InvalidSegmentSize | SegmentAddressOverflow

section \<open>Readers\<close>

definition usize_checked_mul :: "nat \<Rightarrow> nat \<Rightarrow> nat option" where
  "usize_checked_mul a b = (if a * b \<le> usize_max then Some (a * b) else None)"

definition read_le :: "nat \<Rightarrow> bytes \<Rightarrow> nat \<Rightarrow> (parse_error, 'a::len word) outcome" where
  "read_le n bs offset =
    and_then (ok_or (usize_checked_add offset n) Truncated) (\<lambda>e.
    if e \<le> length bs then Ok (of_le (slice bs offset e)) else Fail Truncated)"

definition exec_read_u16_le :: "bytes \<Rightarrow> nat \<Rightarrow> (parse_error, u16) outcome" where
  "exec_read_u16_le bs offset = read_le 2 bs offset"

definition exec_read_u32_le :: "bytes \<Rightarrow> nat \<Rightarrow> (parse_error, u32) outcome" where
  "exec_read_u32_le bs offset = read_le 4 bs offset"

definition exec_read_u64_le :: "bytes \<Rightarrow> nat \<Rightarrow> (parse_error, u64) outcome" where
  "exec_read_u64_le bs offset = read_le 8 bs offset"

definition exec_align_down :: "u64 \<Rightarrow> u64 \<Rightarrow> u64" where
  "exec_align_down v alignment = v AND NOT (alignment - 1)"

definition exec_align_up :: "u64 \<Rightarrow> u64 \<Rightarrow> u64 option" where
  "exec_align_up v alignment = (case checked_sub alignment 1 of None \<Rightarrow> None
    | Some addend \<Rightarrow> map_option (\<lambda>rounded. rounded AND NOT addend) (checked_add v addend))"

section \<open>The ELF parser\<close>

definition parse_program_header :: "bytes \<Rightarrow> nat \<Rightarrow> (parse_error, program_header) outcome" where
  "parse_program_header img entry_offset =
    and_then (exec_read_u32_le img entry_offset) (\<lambda>raw.
    and_then (exec_read_u32_le img (entry_offset + 4)) (\<lambda>flags.
    and_then (exec_read_u64_le img (entry_offset + 8)) (\<lambda>offset.
    and_then (exec_read_u64_le img (entry_offset + 16)) (\<lambda>virtual_address.
    and_then (exec_read_u64_le img (entry_offset + 32)) (\<lambda>file_size.
    and_then (exec_read_u64_le img (entry_offset + 40)) (\<lambda>memory_size.
    and_then (exec_read_u64_le img (entry_offset + 48)) (\<lambda>alignment.
    if memory_size < file_size then Fail InvalidSegmentSize else
    and_then
      (if 0 < file_size then
         and_then (ok_or (usize_checked_add (unat offset) (unat file_size)) SegmentOutOfBounds) (\<lambda>segment_end.
         if length img < segment_end then Fail SegmentOutOfBounds else Ok ())
       else Ok ()) (\<lambda>_.
    if 0 < memory_size \<and> checked_add virtual_address memory_size = None then Fail SegmentAddressOverflow
    else Ok \<lparr> ph_segment_type = from_raw raw, ph_flags = flags, ph_offset = offset,
      ph_virtual_address = virtual_address, ph_file_size = file_size, ph_memory_size = memory_size,
      ph_alignment = alignment \<rparr>))))))))"

definition scan_interpreter ::
  "bytes \<Rightarrow> string option \<Rightarrow> program_header \<Rightarrow> (parse_error, string option) outcome" where
  "scan_interpreter img interpreter header =
    (if interpreter = None \<and> ph_segment_type header = PtInterpreter \<and> 0 < ph_file_size header then
       (let segment_start = unat (ph_offset header);
            segment_end = segment_start + unat (ph_file_size header)
        in and_then (slice_at img segment_start segment_end) (\<lambda>segment.
           let len = (case find_index (\<lambda>byte. byte = 0) segment of Some i \<Rightarrow> i | None \<Rightarrow> length segment)
           in if 0 < len then
                and_then (slice_at segment 0 len) (\<lambda>name. Ok (Some (str_of (utf8_lossy name))))
              else Ok interpreter))
     else Ok interpreter)"

fun program_header_loop ::
  "bytes \<Rightarrow> nat \<Rightarrow> nat \<Rightarrow> nat list \<Rightarrow> string option \<Rightarrow> program_header list \<Rightarrow>
    (parse_error, string option \<times> program_header list) outcome" where
  "program_header_loop img table entry_size [] interpreter headers = Ok (interpreter, headers)"
| "program_header_loop img table entry_size (index # rest) interpreter headers =
    and_then (ok_or (usize_checked_mul index entry_size) InvalidProgramHeaderTable) (\<lambda>step.
    and_then (ok_or (usize_checked_add table step) InvalidProgramHeaderTable) (\<lambda>entry_offset.
    and_then (ok_or (usize_checked_add entry_offset ELF64_PHDR_SIZE) InvalidProgramHeaderTable) (\<lambda>entry_end.
    if length img < entry_end then Fail ProgramHeaderOutOfBounds else
    and_then (parse_program_header img entry_offset) (\<lambda>header.
    and_then (scan_interpreter img interpreter header) (\<lambda>interpreter.
    program_header_loop img table entry_size rest interpreter (headers @ [header]))))))"

definition check_table :: "bytes \<Rightarrow> nat \<Rightarrow> nat \<Rightarrow> nat \<Rightarrow> (parse_error, unit) outcome" where
  "check_table img table entry_size count =
    (if 0 < count then
       if entry_size < ELF64_PHDR_SIZE then Fail InvalidProgramHeaderTable else
       and_then (ok_or (usize_checked_mul entry_size count) InvalidProgramHeaderTable) (\<lambda>table_size.
       and_then (ok_or (usize_checked_add table table_size) InvalidProgramHeaderTable) (\<lambda>table_end.
       if length img < table_end then Fail ProgramHeaderOutOfBounds else Ok ()))
     else Ok ())"

definition parse_elf64 :: "bytes \<Rightarrow> (parse_error, elf_image) outcome" where
  "parse_elf64 img =
    (if length img < ELF64_EHDR_SIZE then Fail Truncated else
     and_then (index_at img 4) (\<lambda>cls. if cls \<noteq> ELF_CLASS_64 then Fail UnsupportedClass else
     and_then (index_at img 5) (\<lambda>order. if order \<noteq> ELF_DATA_LITTLE then Fail UnsupportedEndianness else
     and_then (index_at img 6) (\<lambda>ver. if ver \<noteq> ELF_VERSION_CURRENT then Fail UnsupportedVersion else
     and_then (exec_read_u16_le img 52) (\<lambda>header_size.
     if unat header_size \<noteq> ELF64_EHDR_SIZE then Fail InvalidHeader else
     and_then (exec_read_u16_le img 16) (\<lambda>image_type.
     and_then (exec_read_u16_le img 18) (\<lambda>machine.
     and_then (exec_read_u32_le img 20) (\<lambda>version.
     if version \<noteq> ucast ELF_VERSION_CURRENT then Fail UnsupportedVersion else
     and_then (exec_read_u64_le img 24) (\<lambda>entry_point.
     and_then (exec_read_u64_le img 32) (\<lambda>program_header_offset.
     and_then (exec_read_u16_le img 54) (\<lambda>program_header_entry_size.
     and_then (exec_read_u16_le img 56) (\<lambda>program_header_count.
     let table = unat program_header_offset; entry_size = unat program_header_entry_size;
         count = unat program_header_count
     in if MAX_PROGRAM_HEADERS < count then Fail TooManyProgramHeaders else
     and_then (check_table img table entry_size count) (\<lambda>_.
     and_then (program_header_loop img table entry_size [0 ..< count] None []) (\<lambda>(interpreter, headers).
     Ok \<lparr> ei_image_type = image_type, ei_machine = machine, ei_entry_point = entry_point,
       ei_interpreter = interpreter, ei_program_headers = headers \<rparr>))))))))))))))"

section \<open>The load plan\<close>

definition plan_segment :: "nat \<Rightarrow> program_header \<Rightarrow> (parse_error, load_segment_plan) outcome" where
  "plan_segment index header =
    (if ph_memory_size header < ph_file_size header then Fail InvalidSegmentSize else
     and_then (ok_or (checked_add (ph_virtual_address header) (ph_memory_size header)) SegmentAddressOverflow) (\<lambda>virtual_end.
     let map_start = exec_align_down (ph_virtual_address header) EXEC_PAGE_SIZE in
     and_then (ok_or (exec_align_up virtual_end EXEC_PAGE_SIZE) SegmentAddressOverflow) (\<lambda>map_end.
     and_then (ok_or (checked_sub (ph_virtual_address header) map_start) SegmentAddressOverflow) (\<lambda>page_offset.
     let zero_fill_bytes = sat_sub (ph_memory_size header) (ph_file_size header)
     in Ok \<lparr> ls_index = index, ls_file_offset = ph_offset header,
       ls_virtual_start = ph_virtual_address header, ls_virtual_end = virtual_end,
       ls_map_start = map_start, ls_map_end = map_end, ls_page_offset = page_offset,
       ls_file_bytes = ph_file_size header, ls_memory_bytes = ph_memory_size header,
       ls_zero_fill_bytes = zero_fill_bytes, ls_alignment = ph_alignment header,
       ls_permissions = from_header header \<rparr>))))"

fun load_plan_loop ::
  "nat \<Rightarrow> program_header list \<Rightarrow> load_segment_plan list \<Rightarrow> (parse_error, load_segment_plan list) outcome" where
  "load_plan_loop index [] plan = Ok plan"
| "load_plan_loop index (header # rest) plan =
    (if \<not> is_loadable header then load_plan_loop (index + 1) rest plan
     else and_then (plan_segment index header) (\<lambda>segment. load_plan_loop (index + 1) rest (plan @ [segment])))"

definition build_load_plan :: "elf_image \<Rightarrow> (parse_error, load_segment_plan list) outcome" where
  "build_load_plan img = load_plan_loop 0 (ei_program_headers img) []"

section \<open>Scripts and text\<close>

definition is_ascii_whitespace :: "u8 \<Rightarrow> bool" where
  "is_ascii_whitespace b = (b = 0x20 \<or> b = 0x09 \<or> b = 0x0A \<or> b = 0x0C \<or> b = 0x0D)"

definition parse_shebang :: "bytes \<Rightarrow> (parse_error, shebang_image option) outcome" where
  "parse_shebang img =
    (if \<not> starts_with [0x23, 0x21] img then Ok None
     else let line_end = (case find_index (\<lambda>byte. byte = 0x0A) img of Some i \<Rightarrow> i | None \<Rightarrow> length img) in
       and_then (slice_at img 2 line_end) (\<lambda>line.
       case filter (\<lambda>token. token \<noteq> []) (split_by is_ascii_whitespace line) of
         [] \<Rightarrow> Ok None
       | interpreter # tokens \<Rightarrow> Ok (Some \<lparr> si_interpreter = str_of (utf8_lossy interpreter),
           si_argument = (case tokens of [] \<Rightarrow> None | value # _ \<Rightarrow> Some (str_of (utf8_lossy value))) \<rparr>)))"

definition looks_like_text :: "bytes \<Rightarrow> bool" where
  "looks_like_text img = (img \<noteq> [] \<and>
    list_all (\<lambda>byte. byte = 0x0A \<or> byte = 0x0D \<or> byte = 0x09 \<or> 0x20 \<le> byte \<and> byte \<le> 0x7E) img)"

definition inspect :: "bytes \<Rightarrow> (parse_error, executable_image) outcome" where
  "inspect img =
    (if starts_with ELF_MAGIC img then and_then (parse_elf64 img) (\<lambda>elf. Ok (Elf64 elf))
     else and_then (parse_shebang img) (\<lambda>shebang. case shebang of
         Some script \<Rightarrow> Ok (Shebang script)
       | None \<Rightarrow> if looks_like_text img then Ok TextImage else Ok UnknownImage))"

definition detect_kind :: "bytes \<Rightarrow> (parse_error, image_kind) outcome" where
  "detect_kind img = and_then (inspect img) (\<lambda>i. Ok (case i of
      Elf64 _ \<Rightarrow> KindElf64 | Shebang _ \<Rightarrow> KindShebangScript | TextImage \<Rightarrow> KindText
    | UnknownImage \<Rightarrow> KindUnknown))"

section \<open>Accepted headers lie inside the image\<close>

definition header_in_image :: "bytes \<Rightarrow> program_header \<Rightarrow> bool" where
  "header_in_image img h = (ph_file_size h \<le> ph_memory_size h
    \<and> (0 < ph_file_size h \<longrightarrow> unat (ph_offset h) + unat (ph_file_size h) \<le> length img)
    \<and> (0 < ph_memory_size h \<longrightarrow> unat (ph_virtual_address h) + unat (ph_memory_size h) < 2 ^ 64))"

lemma yields_read_le: "(\<And>x. P x) \<Longrightarrow> yields (read_le n bs offset) P"
  by (cases "usize_checked_add offset n") (simp_all add: read_le_def)

lemma yields_readers:
  "(\<And>x. P x) \<Longrightarrow> yields (exec_read_u16_le bs offset) P"
  "(\<And>x. Q x) \<Longrightarrow> yields (exec_read_u32_le bs offset) Q"
  "(\<And>x. R x) \<Longrightarrow> yields (exec_read_u64_le bs offset) R"
  by (simp_all add: exec_read_u16_le_def exec_read_u32_le_def exec_read_u64_le_def yields_read_le)

lemma yields_thenI: "yields r (\<lambda>x. yields (f x) P) \<Longrightarrow> yields (and_then r f) P"
  by simp

lemma parse_program_header_ok: "yields (parse_program_header img entry_offset) (header_in_image img)"
proof -
  have seg: "yields (if 0 < fs then and_then (ok_or (usize_checked_add (unat off) (unat fs)) SegmentOutOfBounds)
        (\<lambda>e. if length img < e then Fail SegmentOutOfBounds else Ok ()) else Ok ())
      (\<lambda>_. 0 < fs \<longrightarrow> unat off + unat fs \<le> length img)" for off fs :: u64
    by (simp add: usize_checked_add_def)
  show ?thesis
    unfolding parse_program_header_def
    by (intro yields_thenI yields_readers yields_if yields_mono [OF seg])
      (auto simp: header_in_image_def checked_add_None not_less)
qed

lemma scan_interpreter_ok: "header_in_image img h \<Longrightarrow> yields (scan_interpreter img i h) (\<lambda>_. True)"
proof -
  assume h: "header_in_image img h"
  have "yields (slice_at seg 0 (case find_index (\<lambda>byte. byte = 0) seg of Some i \<Rightarrow> i | None \<Rightarrow> length seg)
      :: (parse_error, bytes) outcome) (\<lambda>_. True)" for seg :: bytes
    using find_index_SomeD [of "\<lambda>byte. byte = 0" seg] by (auto split: option.splits)
  with h show ?thesis
    by (auto simp: scan_interpreter_def header_in_image_def Let_def)
qed

lemma program_header_loop_ok:
  "\<forall>h \<in> set headers. header_in_image img h \<Longrightarrow>
    yields (program_header_loop img table entry_size is i headers)
      (\<lambda>(_, hs). length hs = length headers + length is \<and> (\<forall>h \<in> set hs. header_in_image img h))"
proof (induction "is" arbitrary: i headers)
  case (Cons index rest)
  have "yields (parse_program_header img e) (\<lambda>h. yields (scan_interpreter img i h) (\<lambda>j.
      yields (program_header_loop img table entry_size rest j (headers @ [h]))
        (\<lambda>(_, hs). length hs = length headers + length (index # rest) \<and> (\<forall>h \<in> set hs. header_in_image img h))))" for e
    by (rule yields_mono [OF parse_program_header_ok], rule yields_mono [OF scan_interpreter_ok], assumption,
        rule yields_mono [OF Cons.IH]) (use Cons.prems in auto)
  then show ?case
    by (auto simp: ok_or_def split: option.splits)
qed simp

lemma check_table_ok: "yields (check_table img table entry_size count) (\<lambda>_. True)"
  by (auto simp: check_table_def ok_or_def split: option.splits)

lemma parse_elf64_ok:
  "yields (parse_elf64 img) (\<lambda>elf. length (ei_program_headers elf) \<le> MAX_PROGRAM_HEADERS
    \<and> (\<forall>h \<in> set (ei_program_headers elf). header_in_image img h))"
proof (cases "length img < ELF64_EHDR_SIZE")
  case False
  then have idx: "index_at img 4 = (Ok (img ! 4) :: (parse_error, u8) outcome)"
    "index_at img 5 = (Ok (img ! 5) :: (parse_error, u8) outcome)"
    "index_at img 6 = (Ok (img ! 6) :: (parse_error, u8) outcome)"
    by (simp_all add: ELF64_EHDR_SIZE_def)
  show ?thesis
    unfolding parse_elf64_def idx and_then_simps Let_def
    by (intro yields_thenI yields_if yields_readers yields_mono [OF check_table_ok]
        yields_mono [OF program_header_loop_ok]) auto
qed (simp add: parse_elf64_def)

lemma parse_shebang_ok: "yields (parse_shebang img) (\<lambda>_. True)"
proof (cases "starts_with [0x23, 0x21] img")
  case True
  then obtain rest where img: "img = 0x23 # 0x21 # rest" by (auto simp: starts_with_iff)
  define e where "e = (case find_index (\<lambda>byte. byte = 0x0A) img of Some i \<Rightarrow> i | None \<Rightarrow> length img)"
  have "2 \<le> e \<and> e \<le> length img"
    using find_index_SomeD [of "\<lambda>byte. byte = 0x0A" rest] by (auto simp: e_def img split: option.splits)
  with True show ?thesis
    by (auto simp: parse_shebang_def e_def [symmetric] split: list.splits)
qed (simp add: parse_shebang_def)

lemma inspect_ok:
  "yields (inspect img) (\<lambda>i. case i of Elf64 elf \<Rightarrow> length (ei_program_headers elf) \<le> MAX_PROGRAM_HEADERS
    \<and> (\<forall>h \<in> set (ei_program_headers elf). header_in_image img h) | _ \<Rightarrow> True)"
proof (cases "starts_with ELF_MAGIC img")
  case True
  then show ?thesis by (simp add: inspect_def parse_elf64_ok)
next
  case False
  then show ?thesis
    by (auto simp: inspect_def intro!: yields_mono [OF parse_shebang_ok] split: option.splits)
qed

section \<open>The load plan covers every segment by whole pages\<close>

definition mappable :: "program_header \<Rightarrow> bool" where
  "mappable h = (unat (ph_virtual_address h) + unat (ph_memory_size h) + 4095 < 2 ^ 64)"

definition planned :: "nat \<times> program_header \<Rightarrow> load_segment_plan" where
  "planned ih = (case ih of (i, h) \<Rightarrow>
    let va = ph_virtual_address h; ve = va + ph_memory_size h
    in \<lparr> ls_index = i, ls_file_offset = ph_offset h, ls_virtual_start = va, ls_virtual_end = ve,
       ls_map_start = va AND NOT 4095, ls_map_end = (ve + 4095) AND NOT 4095,
       ls_page_offset = va - (va AND NOT 4095), ls_file_bytes = ph_file_size h,
       ls_memory_bytes = ph_memory_size h, ls_zero_fill_bytes = ph_memory_size h - ph_file_size h,
       ls_alignment = ph_alignment h, ls_permissions = from_header h \<rparr>)"

definition covers :: "bytes \<Rightarrow> program_header \<Rightarrow> load_segment_plan \<Rightarrow> bool" where
  "covers img h seg =
    (let va = unat (ls_virtual_start seg); ve = unat (ls_virtual_end seg);
         ms = unat (ls_map_start seg); me = unat (ls_map_end seg)
     in ls_virtual_start seg = ph_virtual_address h \<and> ve = va + unat (ph_memory_size h)
        \<and> 4096 dvd ms \<and> 4096 dvd me \<and> ms \<le> va \<and> va < ms + 4096 \<and> ve \<le> me \<and> me < ve + 4096
        \<and> unat (ls_page_offset seg) = va - ms
        \<and> unat (ls_file_bytes seg) + unat (ls_zero_fill_bytes seg) = unat (ph_memory_size h)
        \<and> (0 < ls_file_bytes seg \<longrightarrow> unat (ls_file_offset seg) + unat (ls_file_bytes seg) \<le> length img)
        \<and> ls_permissions seg = from_header h)"

lemma unat_page_down: "unat (v AND - 4096) = unat v - unat v mod 4096" for v :: u64
  using unat_and_not_mask [of v 12] by (simp add: mask_eq_exp_minus_1)

lemma plan_segment_eq:
  assumes "header_in_image img h"
  shows "plan_segment i h = (if mappable h then Ok (planned (i, h)) else Fail SegmentAddressOverflow)"
proof -
  let ?va = "ph_virtual_address h" and ?m = "ph_memory_size h"
  have fm: "ph_file_size h \<le> ?m" and nowrap: "unat ?va + unat ?m < 2 ^ 64"
    using assms unat_u64_less [of ?va] by (cases "?m = 0"; simp add: header_in_image_def word_neq_0_conv)+
  have sum: "unat (?va + ?m) = unat ?va + unat ?m" using nowrap by (intro unat_add_less) simp
  have down: "?va AND - 4096 \<le> ?va" by (simp add: word_le_nat_alt unat_page_down)
  have up: "exec_align_up (?va + ?m) 4096 =
      (if mappable h then Some ((?va + ?m + 4095) AND - 4096) else None)"
    by (simp add: exec_align_up_def checked_sub_def checked_add_def mappable_def sum)
  have sub: "checked_sub ?va (?va AND - 4096) = Some (?va - (?va AND - 4096))"
    using down by (simp add: checked_sub_def)
  show ?thesis
    using fm nowrap by (simp add: plan_segment_def checked_add_def up sub exec_align_down_def Let_def planned_def
        EXEC_PAGE_SIZE_def sat_sub_def not_less)
qed

lemma planned_covers:
  assumes "header_in_image img h" and "mappable h"
  shows "covers img h (planned (i, h))"
proof -
  let ?va = "ph_virtual_address h" and ?m = "ph_memory_size h"
  let ?up = "unat ?va + unat ?m + 4095"
  have sum: "unat (?va + ?m) = unat ?va + unat ?m"
    using assms(2) by (intro unat_add_less) (simp add: mappable_def)
  have sum': "unat (?va + ?m + 4095) = ?up"
    using assms(2) by (subst unat_add_less) (simp_all add: sum mappable_def)
  have down: "?va AND - 4096 \<le> ?va" by (simp add: word_le_nat_alt unat_page_down)
  have fm: "ph_file_size h \<le> ?m" using assms(1) by (simp add: header_in_image_def)
  have bounds: "?up mod 4096 < 4096" "unat ?va mod 4096 < 4096" by simp_all
  have "unat ?va + unat ?m \<le> ?up - ?up mod 4096" "?up - ?up mod 4096 < unat ?va + unat ?m + 4096"
    "unat ?va - unat ?va mod 4096 \<le> unat ?va" "unat ?va < unat ?va - unat ?va mod 4096 + 4096"
    using bounds by linarith+
  moreover have "4096 dvd unat ?va - unat ?va mod 4096" "4096 dvd ?up - ?up mod 4096"
    by (rule nat_sub_mod_dvd)+
  ultimately show ?thesis
    using assms(1) fm unfolding covers_def planned_def Let_def
    by (simp add: sum' unat_page_down sum unat_sub [OF down] unat_sub [OF fm] header_in_image_def word_le_nat_alt
        del: dvd_minus_mod)
qed

lemma load_plan_loop_eq:
  "\<forall>h \<in> set hs. header_in_image img h \<Longrightarrow>
    load_plan_loop i hs plan =
      (if \<forall>h \<in> set hs. is_loadable h \<longrightarrow> mappable h
       then Ok (plan @ map planned (filter (\<lambda>(_, h). is_loadable h) (enumerate i hs)))
       else Fail SegmentAddressOverflow)"
proof (induction hs arbitrary: i plan)
  case (Cons h hs)
  then have h: "header_in_image img h" and hs: "\<forall>h \<in> set hs. header_in_image img h" by simp_all
  show ?case
    using Cons.IH [OF hs] by (cases "is_loadable h"; cases "mappable h") (simp_all add: plan_segment_eq [OF h])
qed simp

section \<open>The ELF format\<close>

text \<open>An ELF64 file as a linker writes it; the fields the kernel ignores are arbitrary.\<close>

record raw_program_header =
  rp_type :: u32
  rp_flags :: u32
  rp_offset :: u64
  rp_virtual_address :: u64
  rp_physical_address :: u64
  rp_file_size :: u64
  rp_memory_size :: u64
  rp_alignment :: u64

record elf_file =
  ef_ident_rest :: bytes
  ef_type :: u16
  ef_machine :: u16
  ef_entry :: u64
  ef_sections_and_flags :: bytes
  ef_section_fields :: bytes
  ef_headers :: "raw_program_header list"
  ef_body :: bytes

definition elf_encode_phdr :: "raw_program_header \<Rightarrow> bytes" where
  "elf_encode_phdr r = to_le 4 (rp_type r) @ to_le 4 (rp_flags r) @ to_le 8 (rp_offset r)
    @ to_le 8 (rp_virtual_address r) @ to_le 8 (rp_physical_address r) @ to_le 8 (rp_file_size r)
    @ to_le 8 (rp_memory_size r) @ to_le 8 (rp_alignment r)"

definition elf_encode_ehdr :: "elf_file \<Rightarrow> bytes" where
  "elf_encode_ehdr f = (ELF_MAGIC @ [2, 1, 1] @ ef_ident_rest f) @ to_le 2 (ef_type f) @ to_le 2 (ef_machine f)
    @ to_le 4 (1 :: u32) @ to_le 8 (ef_entry f) @ to_le 8 (64 :: u64) @ ef_sections_and_flags f
    @ to_le 2 (64 :: u16) @ to_le 2 (56 :: u16) @ to_le 2 (word_of_nat (length (ef_headers f)) :: u16)
    @ ef_section_fields f"

definition elf_encode :: "elf_file \<Rightarrow> bytes" where
  "elf_encode f = elf_encode_ehdr f @ concat (map elf_encode_phdr (ef_headers f)) @ ef_body f"

definition cooked :: "raw_program_header \<Rightarrow> program_header" where
  "cooked r = \<lparr> ph_segment_type = from_raw (rp_type r), ph_flags = rp_flags r, ph_offset = rp_offset r,
    ph_virtual_address = rp_virtual_address r, ph_file_size = rp_file_size r,
    ph_memory_size = rp_memory_size r, ph_alignment = rp_alignment r \<rparr>"

definition good_elf :: "elf_file \<Rightarrow> bool" where
  "good_elf f = (length (ef_ident_rest f) = 9 \<and> length (ef_sections_and_flags f) = 12
    \<and> length (ef_section_fields f) = 6 \<and> length (ef_headers f) \<le> 256 \<and> length (elf_encode f) < 2 ^ 63
    \<and> (\<forall>r \<in> set (ef_headers f). header_in_image (elf_encode f) (cooked r)))"

definition interpreter_name :: "bytes \<Rightarrow> program_header \<Rightarrow> bytes" where
  "interpreter_name img h = (if ph_segment_type h = PtInterpreter \<and> 0 < ph_file_size h
    then takeWhile (\<lambda>b. b \<noteq> 0) (slice img (unat (ph_offset h)) (unat (ph_offset h) + unat (ph_file_size h)))
    else [])"

definition first_interpreter :: "bytes \<Rightarrow> program_header list \<Rightarrow> string option" where
  "first_interpreter img hs = map_option (\<lambda>h. str_of (utf8_lossy (interpreter_name img h)))
    (find (\<lambda>h. interpreter_name img h \<noteq> []) hs)"

lemma read_le_at:
  assumes "take n (drop offset bs) = to_le n w" and "offset + n \<le> length bs" and "length bs < 2 ^ 63"
    and "LENGTH('a) = 8 * n"
  shows "read_le n bs offset = Ok (w :: 'a::len word)"
  using assms by (simp add: read_le_def slice_def usize_checked_add_def usize_max_def)

lemma length_elf_encode_phdr [simp]: "length (elf_encode_phdr r) = 56"
  by (simp add: elf_encode_phdr_def)

lemma parse_phdr_at:
  assumes "take 56 (drop offset img) = elf_encode_phdr r" and "offset + 56 \<le> length img" and "length img < 2 ^ 63"
    and "header_in_image img (cooked r)"
  shows "parse_program_header img offset = Ok (cooked r)"
proof -
  obtain rest where d: "drop offset img = elf_encode_phdr r @ rest"
    using assms(1) by (metis append_take_drop_id)
  have at: "take n (drop (offset + k) img) = take n (drop k (elf_encode_phdr r))" if "k + n \<le> 56" for n k
    using that by (simp add: d add.commute [of offset] flip: drop_drop)
  have fields: "exec_read_u32_le img offset = Ok (rp_type r)" "exec_read_u32_le img (offset + 4) = Ok (rp_flags r)"
    "exec_read_u64_le img (offset + 8) = Ok (rp_offset r)" "exec_read_u64_le img (offset + 16) = Ok (rp_virtual_address r)"
    "exec_read_u64_le img (offset + 32) = Ok (rp_file_size r)" "exec_read_u64_le img (offset + 40) = Ok (rp_memory_size r)"
    "exec_read_u64_le img (offset + 48) = Ok (rp_alignment r)"
    using assms(2, 3) at [of 0 4]
    by (auto simp: exec_read_u32_le_def exec_read_u64_le_def at elf_encode_phdr_def intro!: read_le_at)
  from assms(3, 4) show ?thesis
    by (auto simp: parse_program_header_def fields header_in_image_def cooked_def usize_checked_add_def usize_max_def
      checked_add_None not_less)
qed

lemma take_find_index_zero:
  "take (case find_index (\<lambda>b. b = 0) xs of Some i \<Rightarrow> i | None \<Rightarrow> length xs) xs = takeWhile (\<lambda>b. b \<noteq> 0) xs"
proof (induction xs)
  case (Cons x xs)
  then show ?case by (cases "find_index (\<lambda>b. b = 0) xs") auto
qed simp

lemma scan_interpreter_eq:
  assumes "header_in_image img h"
  shows "scan_interpreter img i h =
    Ok (if i = None \<and> interpreter_name img h \<noteq> [] then Some (str_of (utf8_lossy (interpreter_name img h))) else i)"
proof (cases "i = None \<and> ph_segment_type h = PtInterpreter \<and> 0 < ph_file_size h")
  case True
  let ?seg = "slice img (unat (ph_offset h)) (unat (ph_offset h) + unat (ph_file_size h))"
  define n where "n = (case find_index (\<lambda>b. b = 0) ?seg of Some i \<Rightarrow> i | None \<Rightarrow> length ?seg)"
  have seg: "slice_at img (unat (ph_offset h)) (unat (ph_offset h) + unat (ph_file_size h)) = (Ok ?seg :: (parse_error, bytes) outcome)"
    using True assms by (intro slice_at_ok) (simp_all add: header_in_image_def)
  have n: "n \<le> length ?seg"
    using find_index_SomeD [of "\<lambda>b. b = 0" ?seg] by (auto simp: n_def split: option.splits)
  have name: "take n ?seg = interpreter_name img h"
    using True by (simp add: n_def take_find_index_zero interpreter_name_def)
  have "length (interpreter_name img h) = n" unfolding name [symmetric] using n by simp
  then have "0 < n \<longleftrightarrow> interpreter_name img h \<noteq> []" by auto
  moreover have "slice ?seg 0 n = interpreter_name img h" using name by (simp add: slice_def)
  ultimately show ?thesis
    using True n by (simp add: scan_interpreter_def seg Let_def flip: n_def)
next
  case False
  then show ?thesis by (auto simp: scan_interpreter_def interpreter_name_def)
qed

definition table_at :: "bytes \<Rightarrow> nat \<Rightarrow> raw_program_header list \<Rightarrow> bool" where
  "table_at img start rs = (start + 56 * length rs \<le> length img
    \<and> take (56 * length rs) (drop start img) = concat (map elf_encode_phdr rs))"

lemma program_header_loop_eq:
  assumes "table_at img (64 + k * 56) rs" and "length img < 2 ^ 63" and "k + length rs \<le> 256"
    and "\<forall>r \<in> set rs. header_in_image img (cooked r)"
  shows "program_header_loop img 64 56 [k ..< k + length rs] i hs =
    Ok (if i = None then first_interpreter img (map cooked rs) else i, hs @ map cooked rs)"
  using assms
proof (induction rs arbitrary: k i hs)
  case Nil
  then show ?case by (simp add: first_interpreter_def)
next
  case (Cons r rs)
  let ?o = "64 + k * 56"
  have split: "take (56 * length (r # rs)) (drop ?o img) = take 56 (drop ?o img) @ take (56 * length rs) (drop (?o + 56) img)"
    by (simp add: take_add add.commute)
  have "take 56 (drop ?o img) = elf_encode_phdr r" and tl: "take (56 * length rs) (drop (?o + 56) img) = concat (map elf_encode_phdr rs)"
    using Cons.prems(1) split by (auto simp: table_at_def append_eq_append_conv)
  moreover have len: "?o + 56 \<le> length img" using Cons.prems(1) by (simp add: table_at_def)
  ultimately have p: "parse_program_header img ?o = Ok (cooked r)"
    using Cons.prems by (intro parse_phdr_at) simp_all
  have "table_at img (64 + Suc k * 56) rs"
    using Cons.prems(1) tl by (simp add: table_at_def add.commute add.left_commute)
  with Cons.prems have IH: "program_header_loop img 64 56 [Suc k ..< Suc k + length rs] j (hs @ [cooked r]) =
      Ok (if j = None then first_interpreter img (map cooked rs) else j, (hs @ [cooked r]) @ map cooked rs)" for j
    by (intro Cons.IH) simp_all
  have sc: "scan_interpreter img i (cooked r) = Ok (if i = None \<and> interpreter_name img (cooked r) \<noteq> []
      then Some (str_of (utf8_lossy (interpreter_name img (cooked r)))) else i)"
    using Cons.prems(4) by (intro scan_interpreter_eq) simp
  have upt: "[k ..< k + length (r # rs)] = k # [Suc k ..< Suc k + length rs]"
    using upt_conv_Cons [of k "k + length (r # rs)"] by simp
  have chk: "usize_checked_mul k 56 = Some (k * 56)" "usize_checked_add 64 (k * 56) = Some ?o"
    "usize_checked_add ?o ELF64_PHDR_SIZE = Some (?o + 56)"
    using Cons.prems(3) by (simp_all add: usize_checked_mul_def usize_checked_add_def usize_max_def ELF64_PHDR_SIZE_def)
  show ?case
    unfolding upt program_header_loop.simps chk ok_or_simps and_then_simps p sc IH
    using len by (auto simp: first_interpreter_def)
qed

lemma length_elf_encode_ehdr:
  "good_elf f \<Longrightarrow> length (elf_encode_ehdr f) = 64"
  by (simp add: good_elf_def elf_encode_ehdr_def ELF_MAGIC_def)

lemma length_concat_phdrs: "length (concat (map elf_encode_phdr rs)) = 56 * length rs"
  by (induction rs) simp_all

lemma ehdr_fields:
  assumes "good_elf f"
  defines "img \<equiv> elf_encode f"
  shows "exec_read_u16_le img 52 = Ok 64" "exec_read_u16_le img 16 = Ok (ef_type f)" "exec_read_u16_le img 18 = Ok (ef_machine f)"
    "exec_read_u32_le img 20 = Ok 1" "exec_read_u64_le img 24 = Ok (ef_entry f)" "exec_read_u64_le img 32 = Ok 64"
    "exec_read_u16_le img 54 = Ok 56" "exec_read_u16_le img 56 = Ok (word_of_nat (length (ef_headers f)))"
    "64 \<le> length img" "img ! 4 = 2" "img ! 5 = 1" "img ! 6 = 1" "starts_with ELF_MAGIC img"
proof -
  have l: "length (ef_ident_rest f) = 9" "length (ef_sections_and_flags f) = 12" "length (elf_encode f) < 2 ^ 63"
    "length (ef_section_fields f) = 6"
    using assms(1) by (simp_all add: good_elf_def)
  have at: "take n (drop k img) = take n (drop k (elf_encode_ehdr f))" if "k + n \<le> 64" for n k
    using that length_elf_encode_ehdr [OF assms(1)] by (simp add: img_def elf_encode_def)
  show "64 \<le> length img" by (simp add: img_def elf_encode_def length_elf_encode_ehdr [OF assms(1)])
  then show "exec_read_u16_le img 52 = Ok 64" "exec_read_u16_le img 16 = Ok (ef_type f)" "exec_read_u16_le img 18 = Ok (ef_machine f)"
    "exec_read_u32_le img 20 = Ok 1" "exec_read_u64_le img 24 = Ok (ef_entry f)" "exec_read_u64_le img 32 = Ok 64"
    "exec_read_u16_le img 54 = Ok 56" "exec_read_u16_le img 56 = Ok (word_of_nat (length (ef_headers f)))"
    unfolding exec_read_u16_le_def exec_read_u32_le_def exec_read_u64_le_def using l
    by (auto simp: at elf_encode_ehdr_def ELF_MAGIC_def img_def [symmetric] intro!: read_le_at)
  show "img ! 4 = 2" "img ! 5 = 1" "img ! 6 = 1" "starts_with ELF_MAGIC img"
    by (simp_all add: img_def elf_encode_def elf_encode_ehdr_def ELF_MAGIC_def starts_with_def)
qed

lemma inspect_encoded:
  assumes "good_elf f"
  shows "inspect (elf_encode f) = Ok (Elf64 \<lparr> ei_image_type = ef_type f, ei_machine = ef_machine f,
    ei_entry_point = ef_entry f, ei_interpreter = first_interpreter (elf_encode f) (map cooked (ef_headers f)),
    ei_program_headers = map cooked (ef_headers f) \<rparr>)"
proof -
  let ?img = "elf_encode f" and ?n = "length (ef_headers f)"
  have n: "?n \<le> 256" "length ?img < 2 ^ 63" "\<forall>r \<in> set (ef_headers f). header_in_image ?img (cooked r)"
    using assms by (simp_all add: good_elf_def)
  have cnt: "unat (word_of_nat ?n :: u16) = ?n" using n(1) by (simp add: unat_of_nat)
  have tbl: "table_at ?img 64 (ef_headers f)"
    by (simp add: table_at_def elf_encode_def length_elf_encode_ehdr [OF assms] length_concat_phdrs)
  then have chk: "check_table ?img 64 56 ?n = Ok ()"
    using n(1) by (simp add: check_table_def ELF64_PHDR_SIZE_def usize_checked_mul_def usize_checked_add_def
        usize_max_def table_at_def)
  have loop: "program_header_loop ?img 64 56 [0 ..< ?n] None [] =
      Ok (first_interpreter ?img (map cooked (ef_headers f)), map cooked (ef_headers f))"
    using program_header_loop_eq [of ?img 0 "ef_headers f" None "[]"] tbl n by simp
  show ?thesis
    using n(1) ehdr_fields(9) [OF assms]
    by (simp add: inspect_def ehdr_fields(1-8, 10-13) [OF assms] parse_elf64_def ELF64_EHDR_SIZE_def ELF_CLASS_64_def
        ELF_DATA_LITTLE_def ELF_VERSION_CURRENT_def MAX_PROGRAM_HEADERS_def cnt chk loop Let_def)
qed
section \<open>A sample executable\<close>

definition sample_file :: elf_file where
  "sample_file = \<lparr> ef_ident_rest = replicate 9 0, ef_type = 2, ef_machine = 62, ef_entry = 0x401000,
    ef_sections_and_flags = replicate 12 0, ef_section_fields = replicate 6 0,
    ef_headers = [\<lparr> rp_type = 1, rp_flags = 5, rp_offset = 8, rp_virtual_address = 0x401008,
      rp_physical_address = 0, rp_file_size = 100, rp_memory_size = 0x2000, rp_alignment = 4096 \<rparr>],
    ef_body = [] \<rparr>"

definition sample_header :: program_header where
  "sample_header = \<lparr> ph_segment_type = PtLoad, ph_flags = 5, ph_offset = 8, ph_virtual_address = 0x401008,
    ph_file_size = 100, ph_memory_size = 0x2000, ph_alignment = 4096 \<rparr>"

lemma sample_cooked: "map cooked (ef_headers sample_file) = [sample_header]"
  by (simp add: sample_file_def sample_header_def cooked_def from_raw_def)

lemma length_sample: "length (elf_encode sample_file) = 120"
  by (simp add: elf_encode_def elf_encode_ehdr_def sample_file_def ELF_MAGIC_def)

lemma good_sample: "good_elf sample_file"
proof -
  have "header_in_image (elf_encode sample_file) sample_header"
    unfolding header_in_image_def length_sample by (simp add: sample_header_def)
  then show ?thesis
    using sample_cooked unfolding good_elf_def length_sample by (simp add: sample_file_def)
qed

section \<open>Properties\<close>

text \<open>
  C22. No image panics the kernel: inspecting any byte string returns a result or one of the
  parse errors, and an accepted ELF image has at most 256 program headers, each with a file
  range inside the image, no larger than its memory range, which does not wrap around.
\<close>

theorem inspect_safe:
  "inspect img \<noteq> Abort \<and> (\<forall>elf. inspect img = Ok (Elf64 elf) \<longrightarrow>
    length (ei_program_headers elf) \<le> 256 \<and> (\<forall>h \<in> set (ei_program_headers elf). header_in_image img h))"
  using inspect_ok [of img] by (auto simp: yields_iff MAX_PROGRAM_HEADERS_def)

theorem inspect_safe_witness:
  "header_in_image (elf_encode sample_file) sample_header"
  using inspect_safe [of "elf_encode sample_file"] inspect_encoded [OF good_sample] by (simp add: sample_cooked)

text \<open>
  C8. Parsing inverts the ELF format: the file made of a legal header, up to 256 program
  headers and any body inspects as an ELF image with exactly those header fields and program
  headers, and with the name in its first non-empty interpreter segment.
\<close>

theorem elf_roundtrip:
  assumes "good_elf f"
  shows "inspect (elf_encode f) = Ok (Elf64 \<lparr> ei_image_type = ef_type f, ei_machine = ef_machine f,
    ei_entry_point = ef_entry f, ei_interpreter = first_interpreter (elf_encode f) (map cooked (ef_headers f)),
    ei_program_headers = map cooked (ef_headers f) \<rparr>)"
  using assms by (rule inspect_encoded)

theorem elf_roundtrip_witness:
  "inspect (elf_encode sample_file) = Ok (Elf64 \<lparr> ei_image_type = 2, ei_machine = 62, ei_entry_point = 0x401000,
    ei_interpreter = first_interpreter (elf_encode sample_file) [sample_header],
    ei_program_headers = [sample_header] \<rparr>)"
  using elf_roundtrip [OF good_sample] unfolding sample_cooked by (simp add: sample_file_def)

text \<open>
  C23. The load plan of an accepted image is exact: it fails only when the page-rounded end of
  a loadable segment does not fit the address space; otherwise it has one entry per loadable
  program header, in order, and each entry's page-aligned range contains the segment and exceeds
  it by less than a page at either end, its file part lies inside the image, and file part and
  zero fill together make up the memory size.
\<close>

theorem load_plan_covers:
  assumes "inspect img = Ok (Elf64 elf)"
  shows "build_load_plan elf =
      (if \<forall>h \<in> set (ei_program_headers elf). is_loadable h \<longrightarrow> mappable h
       then Ok (map planned (filter (\<lambda>(_, h). is_loadable h) (enumerate 0 (ei_program_headers elf))))
       else Fail SegmentAddressOverflow)
    \<and> (\<forall>h \<in> set (ei_program_headers elf). \<forall>i. mappable h \<longrightarrow> covers img h (planned (i, h)))"
proof -
  have hs: "\<forall>h \<in> set (ei_program_headers elf). header_in_image img h"
    using inspect_ok [of img] assms by simp
  then show ?thesis
    using load_plan_loop_eq [OF hs, of 0 "[]"] planned_covers by (simp add: build_load_plan_def)
qed

theorem load_plan_covers_witness: "covers (elf_encode sample_file) sample_header (planned (0, sample_header))"
proof -
  have "mappable sample_header" by (simp add: mappable_def sample_header_def)
  then show ?thesis
    using load_plan_covers [OF inspect_encoded [OF good_sample]] unfolding sample_cooked by simp
qed

end
