(* ===== verification/Vfs.thy ===== *)
theory Vfs
  imports Devfs Fat Initrd Exec
begin

text \<open>
  The virtual file system (\<^verbatim>\<open>src/kernel/src/vfs.rs\<close>): one name space over the root directory,
  devfs, FAT, initrd, procfs and the HFS status nodes, and the preparation of executables.

  The mounts are the fields of the record \<open>vfs_env\<close>: the states of the modelled file systems,
  the device figures, the statistics texts and the three HFS figures.  Paths are normalised
  (\<open>normalize_path\<close>) and dispatched by prefix; anything else is looked up in the initrd.
\<close>

section \<open>State\<close>

definition ROOT_PATH :: string where "ROOT_PATH = ''/''"
definition DEV_ROOT_PATH :: string where "DEV_ROOT_PATH = ''/dev''"
definition FAT_ROOT_PATH :: string where "FAT_ROOT_PATH = ''/boot''"
definition PROC_ROOT_PATH :: string where "PROC_ROOT_PATH = ''/proc''"
definition INITRD_ROOT_PATH :: string where "INITRD_ROOT_PATH = ''/initrd''"
definition HFS_ROOT_PATH :: string where "HFS_ROOT_PATH = ''/hfs''"
definition INIT_PATH :: string where "INIT_PATH = ''/initrd/init''"

record vfs_env =
  ve_state :: "bool option"
  ve_initrd :: "initrd_state option"
  ve_fat :: "fat_state option"
  ve_block :: block_read
  ve_devfs :: "devfs_state option"
  ve_devices :: devices
  ve_procfs :: "unit option"
  ve_proc_text :: "string \<Rightarrow> string"
  ve_hfs_active :: nat
  ve_hfs_shadow :: nat
  ve_hfs_halted :: bool

datatype vfs_mount_kind = MountRoot | MountDevfs | MountFat | MountInitrd | MountProcfs | MountHfs
datatype vfs_node_kind = VfsDirectory | VfsFile | VfsDevice

record vfs_node =
  vn_path :: string
  vn_mount :: vfs_mount_kind
  vn_kind :: vfs_node_kind
  vn_size :: nat
  vn_executable :: bool

record vfs_summary =
  vs_mount_count :: nat
  vs_root_entry_count :: nat
  vs_directory_count :: nat

datatype vfs_error = VfsAlreadyInitialized
datatype executable_format = FormatElf | FormatShebangScript | FormatText | FormatUnknown

record executable_candidate =
  ec_path :: string
  ec_mount :: vfs_mount_kind
  ec_format :: executable_format
  ec_size :: nat
  ec_executable :: bool

datatype executable_discovery_error = VfsUnavailable | PathNotFound | NotAFile | BackendUnavailable
  | ParseFailed parse_error

datatype executable_load_prep_error = Discovery executable_discovery_error | PrepParse parse_error

record vm_map_plan_entry =
  vm_index :: nat
  vm_file_offset :: u64
  vm_virtual_start :: u64
  vm_virtual_end :: u64
  vm_map_start :: u64
  vm_map_end :: u64
  vm_page_offset :: u64
  vm_file_bytes :: u64
  vm_memory_bytes :: u64
  vm_zero_fill_bytes :: u64
  vm_alignment :: u64
  vm_readable :: bool
  vm_writable :: bool
  vm_executable :: bool

record load_totals =
  lt_load_segment_count :: nat
  lt_load_base :: "u64 option"
  lt_load_offset :: "u64 option"
  lt_load_file_bytes :: u64
  lt_load_memory_bytes :: u64
  lt_writable_load_segments :: nat
  lt_executable_load_segments :: nat
  lt_max_alignment :: u64
  lt_vm_map_entries :: "vm_map_plan_entry list"
  lt_vm_map_total_bytes :: u64
  lt_vm_map_zero_fill_bytes :: u64
  lt_vm_map_start :: "u64 option"
  lt_vm_map_end :: "u64 option"

record executable_load_prep = executable_candidate +
  lp_image_type :: "u16 option"
  lp_machine :: "u16 option"
  lp_entry_point :: "u64 option"
  lp_program_header_count :: nat
  lp_totals :: load_totals
  lp_interpreter :: "string option"
  lp_interpreter_source :: "string option"
  lp_interpreter_argument :: "string option"
  lp_interpreter_resolved :: bool

section \<open>Directory texts\<close>

definition render_hfs_root :: string where
  "render_hfs_root = line ''namespace'' @ line ''outage'' @ line ''status''"

definition show_bool :: "bool \<Rightarrow> string" where
  "show_bool b = (if b then ''true'' else ''false'')"

definition read_hfs :: "vfs_env \<Rightarrow> string \<Rightarrow> string option" where
  "read_hfs env path =
    (if path = HFS_ROOT_PATH then Some render_hfs_root
     else Some (line (''HFS Subsystem Node: '' @ path) @ line ''Status: Online''
       @ line (''Active LUT Entries: '' @ show_nat (ve_hfs_active env))
       @ line (''DMA Shadowed Entries: '' @ show_nat (ve_hfs_shadow env))
       @ line (''HPS Halted State: '' @ show_bool (ve_hfs_halted env))))"

definition render_root :: "vfs_env \<Rightarrow> string" where
  "render_root env = line ''dev'' @ (if fat_is_initialized (ve_fat env) then line ''fat'' else [])
    @ line ''hfs'' @ (if initrd_is_initialized (ve_initrd env) then line ''initrd'' else []) @ line ''proc''"

section \<open>Resolution\<close>

definition resolve_devfs_node :: "vfs_env \<Rightarrow> string \<Rightarrow> vfs_node option" where
  "resolve_devfs_node env path = (case devfs_node_kind path of None \<Rightarrow> None
    | Some k \<Rightarrow> Some \<lparr> vn_path = path, vn_mount = MountDevfs,
        vn_kind = (case k of DevDirectory \<Rightarrow> VfsDirectory | DevDevice \<Rightarrow> VfsDevice),
        vn_size = (case devfs_read (ve_devices env) (ve_devfs env) path of None \<Rightarrow> 0 | Some content \<Rightarrow> length content),
        vn_executable = False \<rparr>)"

definition resolve_procfs_node :: "vfs_env \<Rightarrow> string \<Rightarrow> vfs_node option" where
  "resolve_procfs_node env path = (case procfs_node_kind path of None \<Rightarrow> None
    | Some k \<Rightarrow> Some \<lparr> vn_path = path, vn_mount = MountProcfs,
        vn_kind = (case k of ProcDirectory \<Rightarrow> VfsDirectory | ProcFile \<Rightarrow> VfsFile),
        vn_size = (case procfs_read (ve_proc_text env) (ve_procfs env) path of None \<Rightarrow> 0 | Some content \<Rightarrow> length content),
        vn_executable = False \<rparr>)"

definition resolve_fat_node :: "vfs_env \<Rightarrow> string \<Rightarrow> vfs_node option" where
  "resolve_fat_node env path = (case fat_node_info (ve_fat env) path of None \<Rightarrow> None
    | Some (k, sz) \<Rightarrow> Some \<lparr> vn_path = path, vn_mount = MountFat,
        vn_kind = (case k of FatDirectory \<Rightarrow> VfsDirectory | FatFile \<Rightarrow> VfsFile), vn_size = sz,
        vn_executable = False \<rparr>)"

definition resolve_initrd_node :: "vfs_env \<Rightarrow> string \<Rightarrow> vfs_node option" where
  "resolve_initrd_node env path = (case initrd_node_info (ve_initrd env) path of None \<Rightarrow> None
    | Some info \<Rightarrow> Some \<lparr> vn_path = path, vn_mount = MountInitrd,
        vn_kind = (case in_kind info of InitrdDirectory \<Rightarrow> VfsDirectory | InitrdFile \<Rightarrow> VfsFile),
        vn_size = in_size info, vn_executable = in_executable info \<rparr>)"

definition resolve_hfs_node :: "vfs_env \<Rightarrow> string \<Rightarrow> vfs_node option" where
  "resolve_hfs_node env path =
    (if path = HFS_ROOT_PATH then
       Some \<lparr> vn_path = HFS_ROOT_PATH, vn_mount = MountHfs, vn_kind = VfsDirectory,
         vn_size = length render_hfs_root, vn_executable = False \<rparr>
     else Some \<lparr> vn_path = path, vn_mount = MountHfs, vn_kind = VfsFile,
       vn_size = (case read_hfs env path of None \<Rightarrow> 0 | Some c \<Rightarrow> length c), vn_executable = False \<rparr>)"

definition resolve_node :: "vfs_env \<Rightarrow> string \<Rightarrow> vfs_node option" where
  "resolve_node env path =
    (if path = ROOT_PATH then
       Some \<lparr> vn_path = ROOT_PATH, vn_mount = MountRoot, vn_kind = VfsDirectory,
         vn_size = length (render_root env), vn_executable = False \<rparr>
     else if path = DEV_ROOT_PATH \<or> starts_with ''/dev/'' path then resolve_devfs_node env path
     else if path = FAT_ROOT_PATH \<or> starts_with ''/boot/'' path then resolve_fat_node env path
     else if path = INITRD_ROOT_PATH \<or> starts_with ''/initrd/'' path then resolve_initrd_node env path
     else if path = PROC_ROOT_PATH \<or> starts_with ''/proc/'' path then resolve_procfs_node env path
     else if path = HFS_ROOT_PATH \<or> starts_with ''/hfs/'' path then resolve_hfs_node env path
     else resolve_initrd_node env (''/initrd'' @ (if \<not> starts_with ''/'' path then ''/'' else []) @ path))"

definition vfs_summary_of :: "vfs_env \<Rightarrow> vfs_summary" where
  "vfs_summary_of env =
    (if ve_state env \<noteq> Some True then \<lparr> vs_mount_count = 0, vs_root_entry_count = 0, vs_directory_count = 0 \<rparr>
     else let initrd_online = initrd_is_initialized (ve_initrd env);
              fat_online = fat_is_initialized (ve_fat env);
              mount_count = 3 + (if initrd_online then 1 else 0) + (if fat_online then 1 else 0);
              directory_count = 4
                + (if initrd_online then isum_directory_count (initrd_summary_of (ve_initrd env)) else 0)
                + (if fat_online then fs_directory_count (fat_summary_of (ve_fat env)) else 0)
          in \<lparr> vs_mount_count = mount_count, vs_root_entry_count = mount_count, vs_directory_count = directory_count \<rparr>)"

definition vfs_initialize :: "vfs_env \<Rightarrow> vfs_env \<times> (vfs_error + vfs_summary)" where
  "vfs_initialize env =
    (if ve_state env \<noteq> None then (env, Inl VfsAlreadyInitialized)
     else let env = env\<lparr> ve_state := Some True \<rparr> in (env, Inr (vfs_summary_of env)))"

definition vfs_lookup :: "vfs_env \<Rightarrow> string \<Rightarrow> vfs_node option" where
  "vfs_lookup env path = (case ve_state env of None \<Rightarrow> None
    | Some _ \<Rightarrow> (case normalize_path path of None \<Rightarrow> None | Some normalized \<Rightarrow> resolve_node env normalized))"

definition vfs_read :: "vfs_env \<Rightarrow> string \<Rightarrow> string option" where
  "vfs_read env path = (case vfs_lookup env path of None \<Rightarrow> None
    | Some node \<Rightarrow> (case vn_mount node of
        MountRoot \<Rightarrow> Some (render_root env)
      | MountDevfs \<Rightarrow> devfs_read (ve_devices env) (ve_devfs env) (vn_path node)
      | MountFat \<Rightarrow> fat_read (ve_fat env) (vn_path node)
      | MountInitrd \<Rightarrow> initrd_read (ve_initrd env) (vn_path node)
      | MountProcfs \<Rightarrow> procfs_read (ve_proc_text env) (ve_procfs env) (vn_path node)
      | MountHfs \<Rightarrow> read_hfs env (vn_path node)))"

definition mmap_device :: "vfs_env \<Rightarrow> string \<Rightarrow> (u64 \<times> nat) option" where
  "mmap_device env path = (case vfs_lookup env path of None \<Rightarrow> None
    | Some node \<Rightarrow> if vn_mount node = MountDevfs then devfs_mmap (ve_devices env) (vn_path node) else None)"

definition resolve_runtime_path :: "vfs_env \<Rightarrow> string \<Rightarrow> string option" where
  "resolve_runtime_path env path = (case normalize_path path of None \<Rightarrow> None
    | Some normalized \<Rightarrow> (case vfs_lookup env normalized of
        Some node \<Rightarrow> Some (vn_path node)
      | None \<Rightarrow>
          if normalized = ROOT_PATH \<or> starts_with INITRD_ROOT_PATH normalized then None
          else map_option vn_path (vfs_lookup env (INITRD_ROOT_PATH @ normalized))))"

section \<open>Executables\<close>

text \<open>
  \<^verbatim>\<open>fat::read_file_bytes\<close> always returns on a mounted volume; the outer \<open>None\<close> of the model, a
  loop that does not end, does not occur there.
\<close>

definition read_executable_bytes :: "vfs_env \<Rightarrow> vfs_mount_kind \<Rightarrow> string \<Rightarrow> bytes option" where
  "read_executable_bytes env mount path = (case mount of
      MountInitrd \<Rightarrow> initrd_read_bytes (ve_initrd env) path
    | MountFat \<Rightarrow> Option.bind (fat_read_file_bytes (ve_block env) (ve_fat env) path) id
    | _ \<Rightarrow> None)"

definition executable_format_from_kind :: "image_kind \<Rightarrow> executable_format" where
  "executable_format_from_kind k = (case k of KindElf64 \<Rightarrow> FormatElf | KindShebangScript \<Rightarrow> FormatShebangScript
    | KindText \<Rightarrow> FormatText | KindUnknown \<Rightarrow> FormatUnknown)"

definition map_err :: "('e \<Rightarrow> 'f) \<Rightarrow> ('e, 'a) outcome \<Rightarrow> ('f, 'a) outcome" where
  "map_err f r = (case r of Inl Panic \<Rightarrow> Abort | Inl (Err e) \<Rightarrow> Fail (f e) | Inr x \<Rightarrow> Ok x)"

lemma map_err_simps [simp]: "map_err f Abort = Abort" "map_err f (Fail e) = Fail (f e)" "map_err f (Inr x) = Ok x"
  by (simp_all add: map_err_def)

lemma yields_map_err [simp]: "yields (map_err f r) P = yields r P"
  by (cases r) (auto simp: map_err_def yields_def split: failure.splits)

definition discover_executable ::
  "vfs_env \<Rightarrow> string \<Rightarrow> (executable_discovery_error, executable_candidate) outcome" where
  "discover_executable env path =
    (if ve_state env \<noteq> Some True then Fail VfsUnavailable else
     and_then (ok_or (vfs_lookup env path) PathNotFound) (\<lambda>node.
     if vn_kind node \<noteq> VfsFile then Fail NotAFile else
     and_then (ok_or (read_executable_bytes env (vn_mount node) (vn_path node)) BackendUnavailable) (\<lambda>bs.
     and_then (map_err ParseFailed (detect_kind bs)) (\<lambda>k.
     Ok \<lparr> ec_path = vn_path node, ec_mount = vn_mount node, ec_format = executable_format_from_kind k,
       ec_size = vn_size node, ec_executable = vn_executable node \<rparr>))))"

definition discover_init_executable :: "vfs_env \<Rightarrow> (executable_discovery_error, executable_candidate) outcome" where
  "discover_init_executable env = discover_executable env INIT_PATH"

definition no_totals :: load_totals where
  "no_totals = \<lparr> lt_load_segment_count = 0, lt_load_base = None, lt_load_offset = None, lt_load_file_bytes = 0,
    lt_load_memory_bytes = 0, lt_writable_load_segments = 0, lt_executable_load_segments = 0,
    lt_max_alignment = 0, lt_vm_map_entries = [], lt_vm_map_total_bytes = 0, lt_vm_map_zero_fill_bytes = 0,
    lt_vm_map_start = None, lt_vm_map_end = None \<rparr>"

definition least_of :: "u64 option \<Rightarrow> u64 \<Rightarrow> u64 option" where
  "least_of so_far v = Some (case so_far of None \<Rightarrow> v | Some b \<Rightarrow> min b v)"

definition greatest_of :: "u64 option \<Rightarrow> u64 \<Rightarrow> u64 option" where
  "greatest_of so_far v = Some (case so_far of None \<Rightarrow> v | Some b \<Rightarrow> max b v)"

definition plan_entry :: "load_segment_plan \<Rightarrow> vm_map_plan_entry" where
  "plan_entry h = \<lparr> vm_index = ls_index h, vm_file_offset = ls_file_offset h,
    vm_virtual_start = ls_virtual_start h, vm_virtual_end = ls_virtual_end h, vm_map_start = ls_map_start h,
    vm_map_end = ls_map_end h, vm_page_offset = ls_page_offset h, vm_file_bytes = ls_file_bytes h,
    vm_memory_bytes = ls_memory_bytes h, vm_zero_fill_bytes = ls_zero_fill_bytes h, vm_alignment = ls_alignment h,
    vm_readable = sp_read (ls_permissions h), vm_writable = sp_write (ls_permissions h),
    vm_executable = sp_execute (ls_permissions h) \<rparr>"

definition add_segment :: "load_segment_plan \<Rightarrow> load_totals \<Rightarrow> load_totals" where
  "add_segment h t = \<lparr> lt_load_segment_count = lt_load_segment_count t + 1,
    lt_load_base = least_of (lt_load_base t) (ls_virtual_start h),
    lt_load_offset = least_of (lt_load_offset t) (ls_file_offset h),
    lt_load_file_bytes = sat_add (lt_load_file_bytes t) (ls_file_bytes h),
    lt_load_memory_bytes = sat_add (lt_load_memory_bytes t) (ls_memory_bytes h),
    lt_writable_load_segments = lt_writable_load_segments t + (if sp_write (ls_permissions h) then 1 else 0),
    lt_executable_load_segments = lt_executable_load_segments t + (if sp_execute (ls_permissions h) then 1 else 0),
    lt_max_alignment = max (lt_max_alignment t) (ls_alignment h),
    lt_vm_map_entries = lt_vm_map_entries t @ [plan_entry h],
    lt_vm_map_total_bytes = sat_add (lt_vm_map_total_bytes t) (sat_sub (ls_map_end h) (ls_map_start h)),
    lt_vm_map_zero_fill_bytes = sat_add (lt_vm_map_zero_fill_bytes t) (ls_zero_fill_bytes h),
    lt_vm_map_start = least_of (lt_vm_map_start t) (ls_map_start h),
    lt_vm_map_end = greatest_of (lt_vm_map_end t) (ls_map_end h) \<rparr>"

definition prepare_executable_load ::
  "vfs_env \<Rightarrow> string \<Rightarrow> (executable_load_prep_error, executable_load_prep) outcome" where
  "prepare_executable_load env path =
    and_then (map_err Discovery (discover_executable env path)) (\<lambda>candidate.
    and_then (ok_or (read_executable_bytes env (ec_mount candidate) (ec_path candidate))
      (Discovery BackendUnavailable)) (\<lambda>bs.
    and_then (map_err PrepParse (inspect bs)) (\<lambda>img.
    let prep = executable_candidate.extend candidate in
    case img of
      Elf64 elf \<Rightarrow>
        and_then (map_err PrepParse (build_load_plan elf)) (\<lambda>load_plan.
        let interpreter = ei_interpreter elf;
            interpreter_source = Option.bind interpreter (resolve_runtime_path env)
        in Ok (prep \<lparr> lp_image_type = Some (ei_image_type elf), lp_machine = Some (ei_machine elf),
          lp_entry_point = Some (ei_entry_point elf), lp_program_header_count = length (ei_program_headers elf),
          lp_totals = fold add_segment load_plan no_totals, lp_interpreter = interpreter,
          lp_interpreter_source = interpreter_source, lp_interpreter_argument = None,
          lp_interpreter_resolved = (interpreter_source \<noteq> None) \<rparr>))
    | Shebang script \<Rightarrow>
        let interpreter_source = resolve_runtime_path env (si_interpreter script)
        in Ok (prep \<lparr> lp_image_type = None, lp_machine = None, lp_entry_point = None,
          lp_program_header_count = 0, lp_totals = no_totals, lp_interpreter = Some (si_interpreter script),
          lp_interpreter_source = interpreter_source, lp_interpreter_argument = si_argument script,
          lp_interpreter_resolved = (interpreter_source \<noteq> None) \<rparr>)
    | _ \<Rightarrow> Ok (prep \<lparr> lp_image_type = None, lp_machine = None, lp_entry_point = None,
        lp_program_header_count = 0, lp_totals = no_totals, lp_interpreter = None,
        lp_interpreter_source = None, lp_interpreter_argument = None, lp_interpreter_resolved = False \<rparr>))))"

definition prepare_init_load :: "vfs_env \<Rightarrow> (executable_load_prep_error, executable_load_prep) outcome" where
  "prepare_init_load env = prepare_executable_load env INIT_PATH"

section \<open>Preparing an executable never panics\<close>

lemma detect_kind_ok: "yields (detect_kind bs) (\<lambda>_. True)"
  using inspect_ok [of bs] by (auto simp: detect_kind_def elim: yields_mono)

lemma discover_executable_ok: "yields (discover_executable env path) (\<lambda>_. True)"
  by (auto simp: discover_executable_def intro: yields_mono [OF detect_kind_ok])

lemma build_load_plan_ok:
  "\<forall>h \<in> set (ei_program_headers elf). header_in_image img h \<Longrightarrow> yields (build_load_plan elf) (\<lambda>_. True)"
  using load_plan_loop_eq [of "ei_program_headers elf" img 0 "[]"] by (simp add: build_load_plan_def)

lemma prepare_executable_load_ok: "yields (prepare_executable_load env path) (\<lambda>_. True)"
proof -
  have "yields (inspect bs) (\<lambda>img. yields (case img of
      Elf64 elf \<Rightarrow> and_then (map_err PrepParse (build_load_plan elf)) (\<lambda>load_plan. Ok (f elf load_plan))
    | Shebang script \<Rightarrow> Ok (g script) | _ \<Rightarrow> Ok h) (\<lambda>_. True))"
    for bs :: bytes and f and g :: "shebang_image \<Rightarrow> executable_load_prep" and h
    by (rule yields_mono [OF inspect_ok]) (auto split: executable_image.splits dest: build_load_plan_ok)
  then show ?thesis
    by (simp add: prepare_executable_load_def Let_def yields_mono [OF discover_executable_ok])
qed

section \<open>From the boot archive to the load plan\<close>

lemma add_segment_entries:
  "lt_vm_map_entries (fold add_segment plan t) = lt_vm_map_entries t @ map plan_entry plan"
  by (induction plan arbitrary: t) (simp_all add: add_segment_def)

definition elf_plan :: "elf_file \<Rightarrow> load_segment_plan list" where
  "elf_plan f = map planned (filter (\<lambda>(_, h). is_loadable h) (enumerate 0 (map cooked (ef_headers f))))"

lemma build_load_plan_encoded:
  assumes "good_elf f" and "\<forall>r \<in> set (ef_headers f). is_loadable (cooked r) \<longrightarrow> mappable (cooked r)"
    and "ei_program_headers elf = map cooked (ef_headers f)"
  shows "build_load_plan elf = Ok (elf_plan f)"
proof -
  have "\<forall>h \<in> set (ei_program_headers elf). header_in_image (elf_encode f) h"
    using assms(1, 3) by (simp add: good_elf_def)
  from load_plan_loop_eq [OF this, of 0 "[]"] show ?thesis
    using assms(2, 3) by (simp add: build_load_plan_def elf_plan_def)
qed

lemma resolve_initrd_path:
  assumes "ve_state env = Some True" and "normal_path p" and "starts_with ''/initrd/'' p"
    and "lookup_entry (ve_initrd env) p = Some (state, p, e)" and "ie_kind e = InitrdFile"
  shows "vfs_lookup env p = Some \<lparr> vn_path = p, vn_mount = MountInitrd, vn_kind = VfsFile,
    vn_size = length (ie_data e), vn_executable = (ie_mode e AND MODE_EXECUTABLE_MASK \<noteq> 0) \<rparr>"
proof -
  from assms(3) obtain t where p: "p = ''/initrd/'' @ t" unfolding starts_with_iff by blast
  have "resolve_node env p = resolve_initrd_node env p"
    by (simp add: resolve_node_def p ROOT_PATH_def DEV_ROOT_PATH_def FAT_ROOT_PATH_def starts_with_def)
  moreover have "initrd_node_info (ve_initrd env) p = Some \<lparr> in_kind = InitrdFile, in_size = length (ie_data e),
      in_executable = (ie_mode e AND MODE_EXECUTABLE_MASK \<noteq> 0) \<rparr>"
    using assms(4, 5) by (simp add: initrd_node_info_def)
  ultimately show ?thesis
    using assms(1) normalize_path_id [OF assms(2)] by (simp add: vfs_lookup_def resolve_initrd_node_def)
qed

lemma boot_program_bytes:
  assumes "ve_initrd env = boot_initrd path label (newc_encode (xs @ it # ys) @ rest)"
    and "\<forall>it \<in> set (xs @ it # ys). good_item it"
    and "item_path it \<noteq> INITRD_ROOT" and "item_path it \<notin> (\<Union>x \<in> set xs. unpacked_paths x)"
    and "ni_mode it AND FILE_TYPE_MASK \<noteq> FILE_TYPE_DIRECTORY"
  shows "read_executable_bytes env MountInitrd (item_path it) = Some (ni_data it)"
  using lookup_item [OF assms(2-5), of path label rest] assms(1)
  by (auto simp: read_executable_bytes_def initrd_read_bytes_def)

lemma prepare_boot_program:
  assumes "ve_state env = Some True"
    and "ve_initrd env = boot_initrd path label (newc_encode (xs @ it # ys) @ rest)"
    and "\<forall>it \<in> set (xs @ it # ys). good_item it"
    and "item_path it \<noteq> INITRD_ROOT" and "item_path it \<notin> (\<Union>x \<in> set xs. unpacked_paths x)"
    and "ni_mode it AND FILE_TYPE_MASK \<noteq> FILE_TYPE_DIRECTORY" and "normal_path (item_path it)"
    and "ni_data it = elf_encode f" and "good_elf f"
    and "\<forall>r \<in> set (ef_headers f). is_loadable (cooked r) \<longrightarrow> mappable (cooked r)"
  shows "returns (prepare_executable_load env (item_path it)) (\<lambda>prep.
    ec_path prep = item_path it \<and> ec_mount prep = MountInitrd \<and> ec_format prep = FormatElf
    \<and> ec_size prep = length (elf_encode f) \<and> lp_entry_point prep = Some (ef_entry f)
    \<and> lp_image_type prep = Some (ef_type f) \<and> lp_machine prep = Some (ef_machine f)
    \<and> lp_program_header_count prep = length (ef_headers f)
    \<and> lt_vm_map_entries (lp_totals prep) = map plan_entry (elf_plan f))"
proof -
  let ?p = "item_path it"
  obtain state e where e: "lookup_entry (ve_initrd env) ?p = Some (state, ?p, e)"
    and k: "ie_kind e = InitrdFile" and d: "ie_data e = elf_encode f"
    using lookup_item [OF assms(3-6), of path label rest] assms(2, 8) by auto
  have "good_item it" using assms(3) by simp
  then have "archive_path ?p" using normalize_archive_path_shape [of "ni_name it"] by (simp add: good_item_def)
  then have p: "starts_with ''/initrd/'' ?p" using assms(4) by (simp add: archive_path_def)
  note look = resolve_initrd_path [OF assms(1, 7) p e k]
  have bytes: "read_executable_bytes env MountInitrd ?p = Some (elf_encode f)"
    using boot_program_bytes [OF assms(2-6)] assms(8) by simp
  note img = inspect_encoded [OF assms(9)]
  show ?thesis
    using assms(1) d
    by (simp add: prepare_executable_load_def discover_executable_def look bytes detect_kind_def img Let_def
        executable_format_from_kind_def executable_candidate.defs build_load_plan_encoded [OF assms(9, 10)]
        add_segment_entries no_totals_def)
qed

section \<open>Properties\<close>


text \<open>
  C9. From the boot archive to the load plan: when the boot module is a \<^verbatim>\<open>newc\<close> archive that
  holds an ELF program under a normal path, preparing that path succeeds, through the archive
  parser, the name space and the ELF parser, with the program's entry point and one mapping per
  loadable segment, each as computed from the program header the linker wrote.
\<close>

theorem boot_program_prepared:
  assumes "ve_state env = Some True"
    and "ve_initrd env = boot_initrd path label (newc_encode (xs @ it # ys) @ rest)"
    and "\<forall>it \<in> set (xs @ it # ys). good_item it"
    and "item_path it \<noteq> INITRD_ROOT" and "item_path it \<notin> (\<Union>x \<in> set xs. unpacked_paths x)"
    and "ni_mode it AND FILE_TYPE_MASK \<noteq> FILE_TYPE_DIRECTORY" and "normal_path (item_path it)"
    and "ni_data it = elf_encode f" and "good_elf f"
    and "\<forall>r \<in> set (ef_headers f). is_loadable (cooked r) \<longrightarrow> mappable (cooked r)"
  shows "returns (prepare_executable_load env (item_path it)) (\<lambda>prep.
    ec_path prep = item_path it \<and> ec_mount prep = MountInitrd \<and> ec_format prep = FormatElf
    \<and> ec_size prep = length (elf_encode f) \<and> lp_entry_point prep = Some (ef_entry f)
    \<and> lp_program_header_count prep = length (ef_headers f)
    \<and> lt_vm_map_entries (lp_totals prep) = map plan_entry (elf_plan f))"
  by (rule returns_mono [OF prepare_boot_program [OF assms]]) simp

definition boot_item :: newc_item where
  "boot_item = \<lparr> ni_name = ''init'', ni_mode = 0x81ED, ni_data = elf_encode sample_file, ni_meta = (\<lambda>_. 0) \<rparr>"

definition boot_env :: vfs_env where
  "boot_env = \<lparr> ve_state = Some True,
    ve_initrd = boot_initrd None None (newc_encode ([] @ boot_item # []) @ []), ve_fat = None, ve_block = (\<lambda>_ _. None),
    ve_devfs = None, ve_devices = \<lparr> dv_tty = \<lparr> ty_console_id = 0, ty_output_count = 1, ty_bytes_written = 0,
      ty_lines_written = 0 \<rparr>, dv_fb = None, dv_fb_address = None \<rparr>,
    ve_procfs = None, ve_proc_text = (\<lambda>_. []), ve_hfs_active = 0, ve_hfs_shadow = 0, ve_hfs_halted = False \<rparr>"

theorem boot_program_prepared_witness:
  "returns (prepare_executable_load boot_env ''/initrd/init'') (\<lambda>prep.
    lp_entry_point prep = Some 0x401000
    \<and> lt_vm_map_entries (lp_totals prep) = map plan_entry (elf_plan sample_file))"
proof -
  have n: "normalize_archive_path ''init'' = Ok ''/initrd/init''" by code_simp
  have "utf8_valid (bytes_of ''init'')" by code_simp
  then have good: "\<forall>it \<in> set ([] @ boot_item # []). good_item it" and p: "item_path boot_item = ''/initrd/init''"
    using n by (simp_all add: good_item_def sized_item_def item_path_def boot_item_def length_sample)
  have norm: "normal_path ''/initrd/init''" by code_simp
  have maps: "\<forall>r \<in> set (ef_headers sample_file). is_loadable (cooked r) \<longrightarrow> mappable (cooked r)"
    by (simp add: sample_file_def mappable_def cooked_def)
  have r: "returns (prepare_executable_load boot_env (item_path boot_item)) (\<lambda>prep.
      ec_path prep = item_path boot_item \<and> ec_mount prep = MountInitrd \<and> ec_format prep = FormatElf
      \<and> ec_size prep = length (elf_encode sample_file) \<and> lp_entry_point prep = Some (ef_entry sample_file)
      \<and> lp_program_header_count prep = length (ef_headers sample_file)
      \<and> lt_vm_map_entries (lp_totals prep) = map plan_entry (elf_plan sample_file))"
    by (rule boot_program_prepared [where xs = "[]" and ys = "[]" and rest = "[]" and path = None and label = None])
      (use good p norm maps good_sample in \<open>simp_all add: boot_env_def boot_item_def INITRD_ROOT_def FILE_TYPE_MASK_def FILE_TYPE_DIRECTORY_def\<close>)
  have "ef_entry sample_file = 0x401000" by (simp add: sample_file_def)
  with r show ?thesis unfolding p by (auto elim: returns_mono)
qed

end
