(* ===== verification/Paging.thy ===== *)
theory Paging
  imports Frame
begin

text \<open>
  Page tables (\<^verbatim>\<open>src/kernel/src/arch/x86_64/early_map.rs\<close>).

  Physical memory is a function from kernel pointers to bytes: the kernel reaches every frame
  through the direct map, at \<^verbatim>\<open>hhdm_offset\<close> plus its physical address.  Table entries are eight
  bytes, little endian.  The state of the functions that map pages is the memory and the frame
  allocator, \<open>page_state\<close>; translation look-aside buffers are not modelled.  A table pointer is the
  pointer the source computes.

  The definitions are here; what they do to an address space is in \<open>PageMap\<close>.
\<close>

section \<open>Memory\<close>

type_synonym kernel_memory = "u64 \<Rightarrow> u8"

definition write_bytes :: "kernel_memory \<Rightarrow> u64 \<Rightarrow> u8 \<Rightarrow> nat \<Rightarrow> kernel_memory" where
  "write_bytes m p v n = (\<lambda>a. if unat (a - p) < n then v else m a)"

definition copy_bytes :: "kernel_memory \<Rightarrow> u64 \<Rightarrow> bytes \<Rightarrow> kernel_memory" where
  "copy_bytes m p bs = (\<lambda>a. if unat (a - p) < length bs then bs ! unat (a - p) else m a)"

definition read_bytes :: "kernel_memory \<Rightarrow> u64 \<Rightarrow> nat \<Rightarrow> bytes" where
  "read_bytes m p n = map (\<lambda>i. m (p + of_nat i)) [0 ..< n]"

definition read_u64 :: "kernel_memory \<Rightarrow> u64 \<Rightarrow> u64" where
  "read_u64 m p = of_le (read_bytes m p 8)"

definition write_u64 :: "kernel_memory \<Rightarrow> u64 \<Rightarrow> u64 \<Rightarrow> kernel_memory" where
  "write_u64 m p v = copy_bytes m p (to_le 8 v)"

section \<open>Flags and state\<close>

definition FLAG_WRITE_THROUGH :: u64 where "FLAG_WRITE_THROUGH = push_bit 3 1"
definition FLAG_CACHE_DISABLE :: u64 where "FLAG_CACHE_DISABLE = push_bit 4 1"
definition FLAG_USER_ACCESSIBLE :: u64 where "FLAG_USER_ACCESSIBLE = push_bit 2 1"
definition FLAG_WRITABLE :: u64 where "FLAG_WRITABLE = push_bit 1 1"
definition FLAG_GLOBAL :: u64 where "FLAG_GLOBAL = push_bit 8 1"
definition PAGE_PRESENT :: u64 where "PAGE_PRESENT = push_bit 0 1"
definition PAGE_WRITABLE :: u64 where "PAGE_WRITABLE = push_bit 1 1"
definition PAGE_USER :: u64 where "PAGE_USER = push_bit 2 1"
definition PAGE_HUGE :: u64 where "PAGE_HUGE = push_bit 7 1"
definition PAGE_ADDRESS_MASK :: u64 where "PAGE_ADDRESS_MASK = 0x000ffffffffff000"
definition ENTRIES_PER_TABLE :: nat where "ENTRIES_PER_TABLE = 512"
definition KERNEL_HIGHER_HALF_START :: nat where "KERNEL_HIGHER_HALF_START = 256"

datatype map_error = MapAddressOverflow | MapTableAllocationFailed

datatype table_step = NextTable u64 | NextHugePage

record page_state =
  ps_mem :: kernel_memory
  ps_frames :: frame_allocator

type_synonym 'a mapping_step = "page_state \<times> (map_error, 'a) outcome"

definition page_table_index :: "u64 \<Rightarrow> nat \<Rightarrow> nat" where
  "page_table_index address shift = unat (drop_bit shift address AND 0x1ff)"

fun zero_entries :: "kernel_memory \<Rightarrow> u64 \<Rightarrow> nat list \<Rightarrow> kernel_memory" where
  "zero_entries m table [] = m"
| "zero_entries m table (i # is) = zero_entries (write_u64 m (table + 8 * of_nat i) 0) table is"

definition zero_table :: "kernel_memory \<Rightarrow> u64 \<Rightarrow> kernel_memory" where
  "zero_table m table = zero_entries m table [0 ..< ENTRIES_PER_TABLE]"

text \<open>\<^verbatim>\<open>hhdm_offset.checked_add(physical).ok_or(AddressOverflow)\<close>\<close>

definition direct_map :: "u64 \<Rightarrow> u64 \<Rightarrow> (map_error, u64) outcome" where
  "direct_map hhdm_offset physical = ok_or (checked_add hhdm_offset physical) MapAddressOverflow"

definition alloc_frame :: "page_state \<Rightarrow> u64 mapping_step" where
  "alloc_frame s =
     (case frame_allocate (ps_frames s) of
        (fa, None) \<Rightarrow> (s\<lparr>ps_frames := fa\<rparr>, Fail MapTableAllocationFailed)
      | (fa, Some frame) \<Rightarrow> (s\<lparr>ps_frames := fa\<rparr>, Ok frame))"

section \<open>Walking and mapping\<close>

text \<open>\<^verbatim>\<open>next_table\<close> and \<^verbatim>\<open>next_table_user\<close> differ in the flags of a new table only.\<close>

definition next_table_with :: "u64 \<Rightarrow> page_state \<Rightarrow> u64 \<Rightarrow> nat \<Rightarrow> u64 \<Rightarrow> table_step mapping_step" where
  "next_table_with flags s table index hhdm_offset =
     (let entry_ptr = table + 8 * of_nat index;
          entry = read_u64 (ps_mem s) entry_ptr
      in if entry AND PAGE_PRESENT = 0 then
           st_then (alloc_frame s) (\<lambda>s frame.
           st_then (s, direct_map hhdm_offset frame) (\<lambda>s table_virtual.
           let m = zero_table (ps_mem s) table_virtual
           in (s\<lparr>ps_mem := write_u64 m entry_ptr (frame OR flags)\<rparr>, Ok (NextTable table_virtual))))
         else if entry AND PAGE_HUGE \<noteq> 0 then (s, Ok NextHugePage)
         else (s, and_then (direct_map hhdm_offset (entry AND PAGE_ADDRESS_MASK)) (\<lambda>t. Ok (NextTable t))))"

definition next_table :: "page_state \<Rightarrow> u64 \<Rightarrow> nat \<Rightarrow> u64 \<Rightarrow> table_step mapping_step" where
  "next_table = next_table_with (PAGE_PRESENT OR PAGE_WRITABLE)"

definition next_table_user :: "page_state \<Rightarrow> u64 \<Rightarrow> nat \<Rightarrow> u64 \<Rightarrow> table_step mapping_step" where
  "next_table_user = next_table_with (PAGE_PRESENT OR PAGE_WRITABLE OR PAGE_USER)"

text \<open>The three descents of every mapping function; \<open>None\<close> is the early return at a huge page.\<close>

fun descend ::
  "(page_state \<Rightarrow> u64 \<Rightarrow> nat \<Rightarrow> u64 \<Rightarrow> table_step mapping_step) \<Rightarrow>
   page_state \<Rightarrow> u64 \<Rightarrow> u64 \<Rightarrow> nat list \<Rightarrow> u64 option mapping_step" where
  "descend step s hhdm_offset table [] = (s, Ok (Some table))"
| "descend step s hhdm_offset table (i # is) =
     st_then (step s table i hhdm_offset) (\<lambda>s nxt.
       case nxt of NextHugePage \<Rightarrow> (s, Ok None)
       | NextTable t \<Rightarrow> descend step s hhdm_offset t is)"

definition table_indices :: "u64 \<Rightarrow> nat list" where
  "table_indices v = [page_table_index v 39, page_table_index v 30, page_table_index v 21]"

definition map_kernel_page :: "page_state \<Rightarrow> u64 \<Rightarrow> u64 \<Rightarrow> u64 \<Rightarrow> u64 \<Rightarrow> u64 \<Rightarrow> unit mapping_step" where
  "map_kernel_page s hhdm_offset pml4_phys virtual_address physical_address flags =
     st_then (s, direct_map hhdm_offset pml4_phys) (\<lambda>s pml4.
     st_then (descend next_table s hhdm_offset pml4 (table_indices virtual_address)) (\<lambda>s pt.
       case pt of None \<Rightarrow> (s, Ok ())
       | Some pt \<Rightarrow>
           let pte = pt + 8 * of_nat (page_table_index virtual_address 12)
           in if read_u64 (ps_mem s) pte AND PAGE_PRESENT = 0 then
                (s\<lparr>ps_mem := write_u64 (ps_mem s) pte ((physical_address AND PAGE_ADDRESS_MASK)
                    OR PAGE_PRESENT OR PAGE_WRITABLE OR flags OR FLAG_GLOBAL)\<rparr>, Ok ())
              else (s, Ok ())))"

definition ensure_page_mapping :: "u64 \<Rightarrow> page_state \<Rightarrow> u64 \<Rightarrow> u64 \<Rightarrow> u64 \<Rightarrow> unit mapping_step" where
  "ensure_page_mapping cr3 s hhdm_offset physical_address extra_flags =
     st_then (s, direct_map hhdm_offset physical_address) (\<lambda>s virtual_address.
     map_kernel_page s hhdm_offset (cr3 AND PAGE_ADDRESS_MASK) virtual_address physical_address extra_flags)"

definition map_user_page :: "page_state \<Rightarrow> u64 \<Rightarrow> u64 \<Rightarrow> u64 \<Rightarrow> u64 \<Rightarrow> u64 \<Rightarrow> unit mapping_step" where
  "map_user_page s pml4_phys hhdm_offset virtual_address physical_address flags =
     st_then (s, direct_map hhdm_offset pml4_phys) (\<lambda>s pml4.
     st_then (descend next_table_user s hhdm_offset pml4 (table_indices virtual_address)) (\<lambda>s pt.
       case pt of None \<Rightarrow> (s, Ok ())
       | Some pt \<Rightarrow>
           let pte = pt + 8 * of_nat (page_table_index virtual_address 12);
               entry = read_u64 (ps_mem s) pte
           in if entry AND PAGE_PRESENT = 0 then
                (s\<lparr>ps_mem := write_u64 (ps_mem s) pte ((physical_address AND PAGE_ADDRESS_MASK)
                    OR PAGE_PRESENT OR PAGE_USER OR flags)\<rparr>, Ok ())
              else (s\<lparr>ps_mem := write_u64 (ps_mem s) pte (entry OR flags)\<rparr>, Ok ())))"

text \<open>
  The loop of the region functions: one page, and the next one unless it was the last.  The page
  address grows until it is the last page or the addition overflows.
\<close>

function map_pages ::
  "(page_state \<Rightarrow> u64 \<Rightarrow> u64 \<Rightarrow> unit mapping_step) \<Rightarrow> page_state \<Rightarrow> u64 \<Rightarrow> u64 \<Rightarrow> u64 \<Rightarrow> unit mapping_step" where
  "map_pages page s vpage ppage end_page =
     st_then (page s vpage ppage) (\<lambda>s _.
     if vpage = end_page then (s, Ok ())
     else st_then (s, ok_or (checked_add vpage PAGE_SIZE) MapAddressOverflow) (\<lambda>s vnext.
       st_then (s, ok_or (checked_add ppage PAGE_SIZE) MapAddressOverflow) (\<lambda>s pnext.
       map_pages page s vnext pnext end_page)))"
  by pat_completeness auto
termination
  by (relation "measure (\<lambda>(page, s, vpage, ppage, end_page). 2 ^ 64 - unat vpage)")
    (auto simp: ok_or_Inr checked_add_Some unat_word_ariths intro!: diff_less_mono2)

declare map_pages.simps [simp del]

text \<open>\<^verbatim>\<open>address.checked_add(length.max(1) as u64 - 1)\<close>\<close>

definition last_address :: "u64 \<Rightarrow> nat \<Rightarrow> (map_error, u64) outcome" where
  "last_address address len = ok_or (checked_add address (of_nat (max len 1) - 1)) MapAddressOverflow"

definition map_user_region ::
  "page_state \<Rightarrow> u64 \<Rightarrow> u64 \<Rightarrow> u64 \<Rightarrow> u64 \<Rightarrow> nat \<Rightarrow> u64 \<Rightarrow> unit mapping_step" where
  "map_user_region s pml4_phys hhdm_offset virtual_address physical_address len flags =
     st_then (s, last_address virtual_address len) (\<lambda>s last.
     map_pages (\<lambda>s v p. map_user_page s pml4_phys hhdm_offset v p flags) s
       (virtual_address AND NOT 0xfff) (physical_address AND NOT 0xfff) (last AND NOT 0xfff))"

text \<open>\<^verbatim>\<open>map_kernel_region\<close> unwraps the direct map offset: without one it panics.\<close>

definition map_kernel_region ::
  "u64 \<Rightarrow> u64 option \<Rightarrow> page_state \<Rightarrow> u64 \<Rightarrow> u64 \<Rightarrow> nat \<Rightarrow> u64 \<Rightarrow> unit mapping_step" where
  "map_kernel_region cr3 hhdm s virtual_address physical_address len flags =
     st_then (s, last_address virtual_address len) (\<lambda>s last.
     case hhdm of None \<Rightarrow> (s, Abort)
     | Some hhdm_offset \<Rightarrow>
         map_pages (\<lambda>s v p. map_kernel_page s hhdm_offset (cr3 AND PAGE_ADDRESS_MASK) v p flags) s
           (virtual_address AND NOT 0xfff) (physical_address AND NOT 0xfff) (last AND NOT 0xfff))"

definition ensure_region_mapped ::
  "u64 \<Rightarrow> page_state \<Rightarrow> u64 \<Rightarrow> u64 \<Rightarrow> nat \<Rightarrow> u64 \<Rightarrow> u64 mapping_step" where
  "ensure_region_mapped cr3 s hhdm_offset physical_address len extra_flags =
     st_then (s, direct_map hhdm_offset physical_address) (\<lambda>s virtual_address.
     st_then (s, last_address physical_address len) (\<lambda>s last.
     st_then (map_pages (\<lambda>s page _. ensure_page_mapping cr3 s hhdm_offset page extra_flags) s
       (physical_address AND NOT 0xfff) 0 (last AND NOT 0xfff)) (\<lambda>s _.
     (s, Ok virtual_address))))"

definition allocate_page_table_frame :: "u64 option \<Rightarrow> page_state \<Rightarrow> u64 mapping_step" where
  "allocate_page_table_frame hhdm s =
     st_then (alloc_frame s) (\<lambda>s frame.
     case hhdm of None \<Rightarrow> (s, Abort)
     | Some hhdm_offset \<Rightarrow>
         st_then (s, direct_map hhdm_offset frame) (\<lambda>s table_virtual.
         (s\<lparr>ps_mem := zero_table (ps_mem s) table_virtual\<rparr>, Ok frame)))"

fun copy_entries :: "kernel_memory \<Rightarrow> u64 \<Rightarrow> u64 \<Rightarrow> nat list \<Rightarrow> kernel_memory" where
  "copy_entries m src dst [] = m"
| "copy_entries m src dst (i # is) =
     copy_entries (write_u64 m (dst + 8 * of_nat i) (read_u64 m (src + 8 * of_nat i))) src dst is"

definition create_user_page_table :: "u64 \<Rightarrow> u64 option \<Rightarrow> page_state \<Rightarrow> u64 \<Rightarrow> u64 mapping_step" where
  "create_user_page_table cr3 hhdm s hhdm_offset =
     st_then (allocate_page_table_frame hhdm s) (\<lambda>s user_pml4_phys.
     st_then (s, direct_map hhdm_offset user_pml4_phys) (\<lambda>s user_pml4_virt.
     st_then (s, direct_map hhdm_offset (cr3 AND PAGE_ADDRESS_MASK)) (\<lambda>s kernel_pml4_virt.
     (s\<lparr>ps_mem := copy_entries (ps_mem s) kernel_pml4_virt user_pml4_virt
          [KERNEL_HIGHER_HALF_START ..< ENTRIES_PER_TABLE]\<rparr>, Ok user_pml4_phys))))"

end
