(* ===== verification/PageMap.thy ===== *)
theory PageMap
  imports Paging
begin

text \<open>
  What the mapping functions of \<open>Paging\<close> do to an address space.

  An address space is well formed (\<open>space_ok\<close>) when the tables of its user half form a tree, no
  table and no mapped frame is still free in the allocator, and everything lies below a bound that
  the direct map and the entry format can express.
\<close>

section \<open>Aligned addresses\<close>

abbreviation page_aligned :: "u64 \<Rightarrow> bool" where
  "page_aligned a \<equiv> 4096 dvd unat a"

lemma aligned_add_iff: "n \<le> 64 \<Longrightarrow> 2 ^ n dvd unat (a + b) \<longleftrightarrow> 2 ^ n dvd unat a + unat b" for a b :: u64
proof -
  assume "n \<le> 64"
  then have "(2 :: nat) ^ n dvd 2 ^ 64"
    by (rule le_imp_power_dvd)
  from dvd_mod_iff [OF this, of "unat a + unat b"] show ?thesis
    by (simp add: unat_word_ariths)
qed

lemma aligned_add: "n \<le> 64 \<Longrightarrow> 2 ^ n dvd unat a \<Longrightarrow> 2 ^ n dvd unat b \<Longrightarrow> 2 ^ n dvd unat (a + b)" for a b :: u64
  by (simp add: aligned_add_iff)

lemma aligned_diff:
  assumes "n \<le> 64" "2 ^ n dvd unat a" "2 ^ n dvd unat b"
  shows "2 ^ n dvd unat (a - b :: u64)"
proof -
  have "2 ^ n dvd unat (a - b) + unat b"
    using assms aligned_add_iff [of n "a - b" b] by simp
  with assms(3) show ?thesis
    by (simp add: dvd_add_left_iff)
qed

lemma aligned_room: "n < 64 \<Longrightarrow> 2 ^ n dvd unat a \<Longrightarrow> i < 2 ^ n \<Longrightarrow> unat a + i < 2 ^ 64" for a :: u64
proof -
  assume n: "n < 64" and a: "2 ^ n dvd unat a" and i: "i < 2 ^ n"
  have "(2 :: nat) ^ 64 = 2 ^ n * 2 ^ (64 - n)"
    using n by (simp flip: power_add)
  moreover obtain k where k: "unat a = 2 ^ n * k"
    using a by (rule dvdE)
  moreover have "unat a < 2 ^ 64"
    using unat_u64_less [of a] by simp
  ultimately have "k < 2 ^ (64 - n)"
    by (metis mult_less_cancel1)
  then have "2 ^ n * (k + 1) \<le> (2 :: nat) ^ n * 2 ^ (64 - n)"
    by (intro mult_le_mono2) simp
  then have "2 ^ n * k + 2 ^ n \<le> (2 :: nat) ^ 64"
    using n by (simp flip: power_add)
  with i k show ?thesis
    by linarith
qed

lemma unat_aligned_plus:
  "n < 64 \<Longrightarrow> 2 ^ n dvd unat a \<Longrightarrow> i < 2 ^ n \<Longrightarrow> unat (a + of_nat i) = unat a + i" for a :: u64
  using aligned_room [of n a i] by (simp add: unat_word_ariths unat_of_nat)

lemma aligned_far:
  assumes "n < 64" "2 ^ n dvd unat p" "2 ^ n dvd unat q" "p \<noteq> (q :: u64)" "i < 2 ^ n"
  shows "2 ^ n \<le> unat (q + of_nat i - p)"
proof -
  have d: "2 ^ n dvd unat (q - p)"
    using assms by (intro aligned_diff) simp_all
  have "unat (q - p) \<noteq> 0"
    using assms(4) by (metis eq_iff_diff_eq_0 unat_eq_zero)
  then have "2 ^ n \<le> unat (q - p)"
    using d by (simp add: dvd_imp_le)
  moreover have "unat (q - p + of_nat i) = unat (q - p) + i"
    using assms(1,5) d by (intro unat_aligned_plus)
  ultimately show ?thesis
    by (simp add: algebra_simps)
qed

section \<open>Memory\<close>

definition same_page :: "kernel_memory \<Rightarrow> kernel_memory \<Rightarrow> u64 \<Rightarrow> bool" where
  "same_page m m' p = (\<forall>i < 4096. m' (p + of_nat i) = m (p + of_nat i))"

lemma same_page_refl [simp]: "same_page m m p"
  by (simp add: same_page_def)

lemma same_page_trans: "same_page m m' p \<Longrightarrow> same_page m' m'' p \<Longrightarrow> same_page m m'' p"
  by (simp add: same_page_def)

lemma copy_bytes_within:
  assumes "page_aligned p" "page_aligned q" "p \<noteq> q" "off + length bs \<le> 4096"
  shows "same_page m (copy_bytes m (p + of_nat off) bs) q"
  unfolding same_page_def copy_bytes_def
proof (intro allI impI)
  fix i :: nat assume i: "i < 4096"
  have far: "4096 \<le> unat (q - p + of_nat i)"
    using aligned_far [of 12 p q i] assms i by (simp add: algebra_simps)
  have "unat (q + of_nat i - (p + of_nat off)) \<ge> length bs"
  proof (rule ccontr)
    assume "\<not> ?thesis"
    then have lt: "unat (q + of_nat i - (p + of_nat off)) < length bs" by simp
    have "unat ((q + of_nat i - (p + of_nat off)) + of_nat off) = unat (q + of_nat i - (p + of_nat off)) + off"
      using lt assms(4) by (subst unat_add_less) (auto simp: unat_of_nat)
    moreover have "(q + of_nat i - (p + of_nat off)) + of_nat off = q - p + of_nat i"
      by simp
    ultimately show False
      using far lt assms(4) by simp
  qed
  then show "(if unat (q + of_nat i - (p + of_nat off)) < length bs
      then bs ! unat (q + of_nat i - (p + of_nat off)) else m (q + of_nat i)) = m (q + of_nat i)"
    by simp
qed

lemma write_bytes_copy: "write_bytes m p v n = copy_bytes m p (replicate n v)"
  by (auto simp: write_bytes_def copy_bytes_def)

lemma copy_bytes_nth:
  assumes "page_aligned p" "off + length bs \<le> 4096" "i < 4096"
  shows "copy_bytes m (p + of_nat off) bs (p + of_nat i) =
    (if off \<le> i \<and> i < off + length bs then bs ! (i - off) else m (p + of_nat i))"
proof (cases "off \<le> i")
  case True
  then have "p + of_nat i - (p + of_nat off) = (of_nat (i - off) :: u64)"
    by simp
  moreover have "unat (of_nat (i - off) :: u64) = i - off"
    using assms(3) by (simp add: unat_of_nat)
  ultimately show ?thesis
    using True by (auto simp: copy_bytes_def)
next
  case False
  then have e: "p + of_nat i - (p + of_nat off) = - (of_nat (off - i) :: u64)"
    by simp
  have u: "unat (of_nat (off - i) :: u64) = off - i"
    using assms(2) False by (simp add: unat_of_nat del: of_nat_diff)
  have "length bs \<le> unat (- (of_nat (off - i) :: u64))"
  proof (rule ccontr)
    assume "\<not> ?thesis"
    then have "unat (- (of_nat (off - i) :: u64) + of_nat (off - i)) = unat (- (of_nat (off - i) :: u64)) + (off - i)"
      using assms(2) u by (subst unat_add_less) simp_all
    with False show False by simp
  qed
  then have "length bs \<le> unat (p + of_nat i - (p + of_nat off))"
    by (simp only: e)
  with False show ?thesis
    by (simp add: copy_bytes_def)
qed

section \<open>Table entries\<close>

abbreviation entry_at :: "kernel_memory \<Rightarrow> u64 \<Rightarrow> nat \<Rightarrow> u64" where
  "entry_at m table i \<equiv> read_u64 m (table + 8 * of_nat i)"

lemma read_u64_cong: "(\<And>k. k < 8 \<Longrightarrow> m' (p + of_nat k) = m (p + of_nat k)) \<Longrightarrow> read_u64 m' p = read_u64 m p"
  unfolding read_u64_def read_bytes_def by (intro arg_cong [where f = of_le] map_cong) auto

lemma entry_byte: "t + 8 * of_nat i + of_nat k = (t + of_nat (8 * i + k) :: u64)"
  by simp

lemma same_page_entry: "same_page m m' t \<Longrightarrow> i < 512 \<Longrightarrow> entry_at m' t i = entry_at m t i"
  by (rule read_u64_cong) (simp add: entry_byte same_page_def del: of_nat_add of_nat_mult)

lemma write_u64_off: "write_u64 m (t + 8 * of_nat i) v = copy_bytes m (t + of_nat (8 * i)) (to_le 8 v)"
  by (simp add: write_u64_def)

lemma write_u64_entry:
  assumes "page_aligned t" "i < 512" "j < 512"
  shows "entry_at (write_u64 m (t + 8 * of_nat i) v) t j = (if i = j then v else entry_at m t j)"
proof -
  have at: "write_u64 m (t + 8 * of_nat i) v (t + 8 * of_nat j + of_nat k) =
      (if i = j then to_le 8 v ! k else m (t + 8 * of_nat j + of_nat k))" if "k < 8" for k
    using copy_bytes_nth [of t "8 * i" "to_le 8 v" "8 * j + k" m] assms that
    unfolding write_u64_off entry_byte by auto
  show ?thesis
  proof (cases "i = j")
    case True
    have "read_bytes (write_u64 m (t + 8 * of_nat i) v) (t + 8 * of_nat j) 8 = to_le 8 v"
      unfolding read_bytes_def using at True by (intro nth_equalityI) simp_all
    with True show ?thesis
      by (simp add: read_u64_def)
  next
    case False
    then show ?thesis
      using at by (simp only: if_False) (rule read_u64_cong, simp)
  qed
qed

lemma write_u64_page:
  "page_aligned t \<Longrightarrow> page_aligned q \<Longrightarrow> t \<noteq> q \<Longrightarrow> i < 512 \<Longrightarrow> same_page m (write_u64 m (t + 8 * of_nat i) v) q"
  unfolding write_u64_off by (rule copy_bytes_within) simp_all

lemma zero_entries_entry:
  assumes "page_aligned t" "set js \<subseteq> {..<512}" "j < 512"
  shows "entry_at (zero_entries m t js) t j = (if j \<in> set js then 0 else entry_at m t j)"
  using assms(2) by (induction js arbitrary: m) (auto simp: write_u64_entry assms)

lemma zero_entries_page:
  "page_aligned t \<Longrightarrow> page_aligned q \<Longrightarrow> t \<noteq> q \<Longrightarrow> set js \<subseteq> {..<512} \<Longrightarrow> same_page m (zero_entries m t js) q"
proof (induction js arbitrary: m)
  case (Cons i js)
  then have "same_page m (write_u64 m (t + 8 * of_nat i) 0) q"
    by (intro write_u64_page) auto
  moreover have "same_page (write_u64 m (t + 8 * of_nat i) 0) (zero_entries m t (i # js)) q"
    using Cons by simp
  ultimately show ?case
    by (rule same_page_trans)
qed simp

lemma zero_table_entry: "page_aligned t \<Longrightarrow> j < 512 \<Longrightarrow> entry_at (zero_table m t) t j = 0"
  unfolding zero_table_def ENTRIES_PER_TABLE_def by (subst zero_entries_entry) auto

lemma zero_table_page: "page_aligned t \<Longrightarrow> page_aligned q \<Longrightarrow> t \<noteq> q \<Longrightarrow> same_page m (zero_table m t) q"
  unfolding zero_table_def ENTRIES_PER_TABLE_def by (rule zero_entries_page) auto

section \<open>The walk of the processor\<close>

fun tab :: "kernel_memory \<Rightarrow> u64 \<Rightarrow> u64 \<Rightarrow> nat list \<Rightarrow> u64 option" where
  "tab m h t [] = Some t"
| "tab m h t (i # is) =
     (let e = entry_at m (h + t) i
      in if e AND PAGE_PRESENT = 0 \<or> e AND PAGE_HUGE \<noteq> 0 then None else tab m h (e AND PAGE_ADDRESS_MASK) is)"

definition entry :: "kernel_memory \<Rightarrow> u64 \<Rightarrow> u64 \<Rightarrow> nat list \<Rightarrow> nat \<Rightarrow> u64" where
  "entry m h r p i = (case tab m h r p of None \<Rightarrow> 0 | Some t \<Rightarrow> entry_at m (h + t) i)"

lemma tab_snoc:
  "tab m h r (p @ [i]) =
     (let e = entry m h r p i
      in if e AND PAGE_PRESENT = 0 \<or> e AND PAGE_HUGE \<noteq> 0 then None else Some (e AND PAGE_ADDRESS_MASK))"
  by (induction p arbitrary: r) (auto simp: entry_def Let_def)

lemma tab_append: "tab m h r (p @ q) = (case tab m h r p of None \<Rightarrow> None | Some t \<Rightarrow> tab m h t q)"
  by (induction p arbitrary: r) (auto simp: Let_def)

text \<open>A walk is unchanged when none of the entries it reads is.\<close>

lemma tab_cong:
  assumes "\<And>q j rest f. p = q @ j # rest \<Longrightarrow> tab m h r q = Some f \<Longrightarrow> entry_at m' (h + f) j = entry_at m (h + f) j"
  shows "tab m' h r p = tab m h r p"
  using assms
proof (induction p arbitrary: r)
  case (Cons i p)
  have e: "entry_at m' (h + r) i = entry_at m (h + r) i"
    using Cons.prems [of "[]" i p r] by simp
  let ?e = "entry_at m (h + r) i"
  show ?case
  proof (cases "?e AND PAGE_PRESENT = 0 \<or> ?e AND PAGE_HUGE \<noteq> 0")
    case False
    have "tab m' h (?e AND PAGE_ADDRESS_MASK) p = tab m h (?e AND PAGE_ADDRESS_MASK) p"
    proof (rule Cons.IH)
      fix q j rest f
      assume "p = q @ j # rest" "tab m h (?e AND PAGE_ADDRESS_MASK) q = Some f"
      with False show "entry_at m' (h + f) j = entry_at m (h + f) j"
        using Cons.prems [of "i # q" j rest f] by (simp add: Let_def)
    qed
    with e False show ?thesis
      by (simp add: Let_def)
  qed (simp add: e Let_def)
qed simp

section \<open>Bits of an entry\<close>

lemma flag_clear: "x AND push_bit n 1 = 0 \<longleftrightarrow> \<not> bit x n" for x :: u64
  by (metis and_exp_eq_0_iff_not_bit push_bit_of_1)

lemma present_iff [simp]: "e AND PAGE_PRESENT = 0 \<longleftrightarrow> \<not> bit e 0"
  unfolding PAGE_PRESENT_def by (rule flag_clear)

lemma huge_iff [simp]: "e AND PAGE_HUGE = 0 \<longleftrightarrow> \<not> bit e 7"
  unfolding PAGE_HUGE_def by (rule flag_clear)

lemma bit_address_mask: "bit PAGE_ADDRESS_MASK n \<longleftrightarrow> 12 \<le> n \<and> n < 52"
proof -
  have "PAGE_ADDRESS_MASK = push_bit 12 (mask 40)"
    by (simp add: PAGE_ADDRESS_MASK_def mask_eq_exp_minus_1 push_bit_eq_mult)
  then show ?thesis
    unfolding \<open>PAGE_ADDRESS_MASK = push_bit 12 (mask 40)\<close> bit_push_bit_iff bit_mask_iff by auto
qed

definition in_bound :: "nat \<Rightarrow> u64 \<Rightarrow> bool" where
  "in_bound P f = (page_aligned f \<and> unat f + 4096 \<le> P)"

lemma in_bound_bits:
  assumes "in_bound P f" "P \<le> 2 ^ 52" "bit f n"
  shows "12 \<le> n \<and> n < 52"
proof
  have "take_bit 12 f = 0"
    using assms(1) unat_take_bit [of 12 f] by (simp add: in_bound_def dvd_eq_mod_eq_0 flip: unat_eq_zero)
  then have "\<not> bit (take_bit 12 f) n"
    by simp
  with assms(3) show "12 \<le> n"
    by (simp add: bit_take_bit_iff)
  have "unat (take_bit 52 f) = unat f"
    using assms(1,2) by (simp add: unat_take_bit in_bound_def)
  then have "take_bit 52 f = f"
    by (simp only: word_unat_eq_iff)
  with assms(3) show "n < 52"
    by (metis bit_take_bit_iff)
qed

lemma frame_of_entry:
  assumes "in_bound P f" "P \<le> 2 ^ 52" "flags AND PAGE_ADDRESS_MASK = 0"
  shows "(f OR flags) AND PAGE_ADDRESS_MASK = f"
proof -
  have "f AND PAGE_ADDRESS_MASK = f"
    by (rule bit_word_eqI) (use in_bound_bits [OF assms(1,2)] in \<open>auto simp: bit_and_iff bit_address_mask\<close>)
  with assms(3) show ?thesis
    by (simp add: bit.conj_disj_distrib2)
qed

lemma frame_low_bits: "in_bound P f \<Longrightarrow> P \<le> 2 ^ 52 \<Longrightarrow> n < 12 \<Longrightarrow> \<not> bit f n"
  using in_bound_bits by fastforce

definition user_flags :: u64 where
  "user_flags = PAGE_PRESENT OR PAGE_WRITABLE OR PAGE_USER"

lemma bit_user_flags: "bit user_flags n \<longleftrightarrow> n \<in> {0, 1, 2}"
  unfolding user_flags_def PAGE_PRESENT_def PAGE_WRITABLE_def PAGE_USER_def bit_or_iff bit_push_bit_iff bit_1_iff
  by auto

lemma user_flags_mask: "user_flags AND PAGE_ADDRESS_MASK = 0"
  by (rule bit_word_eqI) (auto simp: bit_and_iff bit_user_flags bit_address_mask)

section \<open>Well-formed address spaces\<close>

definition free_frames :: "frame_allocator \<Rightarrow> nat set" where
  "free_frames fa = frame_pool fa - frame_owned fa"

definition direct_ok :: "nat \<Rightarrow> u64 \<Rightarrow> bool" where
  "direct_ok P h = (page_aligned h \<and> unat h + P \<le> 2 ^ 64 \<and> P \<le> 2 ^ 52)"

definition frames_ok :: "nat \<Rightarrow> frame_allocator \<Rightarrow> bool" where
  "frames_ok P fa = (frame_wf fa \<and> frame_pool fa \<subseteq> {..<P})"

lemma frame_fresh:
  assumes "frames_ok P fa" "frame_allocate fa = (fa', Some f)"
  shows "frames_ok P fa'" "in_bound P f" "unat f \<in> free_frames fa" "unat f \<notin> free_frames fa'"
    "free_frames fa' \<subseteq> free_frames fa"
proof -
  have wf: "frame_wf fa" and pool: "frame_pool fa \<subseteq> {..<P}"
      and call: "frame_allocate_contiguous fa 1 = (fa', Some f)"
    using assms by (auto simp: frames_ok_def frame_allocate_is_contiguous)
  note g = frame_contiguous_grant [OF wf call]
  have in_g: "unat f \<in> grant f 1" "unat f + 4095 \<in> grant f 1"
    by (auto simp: grant_def)
  show "frames_ok P fa'"
    using frame_contiguous_wf(1) [OF wf call] g(4) pool by (simp add: frames_ok_def)
  show "in_bound P f"
    using g(1,5) in_g(2) pool by (fastforce simp: in_bound_def)
  show "unat f \<in> free_frames fa" "unat f \<notin> free_frames fa'" "free_frames fa' \<subseteq> free_frames fa"
    using g in_g by (auto simp: free_frames_def)
qed

lemma direct_map_ok: "direct_ok P h \<Longrightarrow> in_bound P f \<Longrightarrow> direct_map h f = Ok (h + f)"
  by (simp add: direct_map_def checked_add_def direct_ok_def in_bound_def)

lemma direct_aligned: "direct_ok P h \<Longrightarrow> in_bound P f \<Longrightarrow> page_aligned (h + f)"
  using aligned_add [of 12 h f] by (simp add: direct_ok_def in_bound_def)

definition path_ok :: "nat list \<Rightarrow> bool" where
  "path_ok p = (length p \<le> 3 \<and> (\<forall>i \<in> set p. i < 512))"

definition user_path :: "nat list \<Rightarrow> bool" where
  "user_path p = (p = [] \<or> hd p < 256)"

lemma path_ok_snoc [simp]: "path_ok (p @ [i]) \<longleftrightarrow> path_ok p \<and> length p < 3 \<and> i < 512"
  by (auto simp: path_ok_def)

lemma user_path_prefix: "user_path (p @ q) \<Longrightarrow> user_path p"
  by (cases p) (auto simp: user_path_def)

lemma path_ok_prefix: "path_ok (p @ j # q) \<Longrightarrow> path_ok p \<and> j < 512 \<and> length p < 3"
  by (auto simp: path_ok_def)

text \<open>A frame that holds neither a table nor free memory: what a page may be mapped to.\<close>

definition data_frame :: "nat \<Rightarrow> u64 \<Rightarrow> frame_allocator \<Rightarrow> kernel_memory \<Rightarrow> u64 \<Rightarrow> u64 \<Rightarrow> bool" where
  "data_frame P h fa m r d =
     (in_bound P d \<and> unat d \<notin> free_frames fa \<and> (\<forall>q. path_ok q \<longrightarrow> tab m h r q \<noteq> Some d))"

definition space_ok :: "nat \<Rightarrow> u64 \<Rightarrow> frame_allocator \<Rightarrow> kernel_memory \<Rightarrow> u64 \<Rightarrow> bool" where
  "space_ok P h fa m r =
     (direct_ok P h \<and> frames_ok P fa
      \<and> (\<forall>p t. path_ok p \<longrightarrow> tab m h r p = Some t \<longrightarrow> in_bound P t \<and> unat t \<notin> free_frames fa)
      \<and> (\<forall>p q t. path_ok p \<longrightarrow> user_path p \<longrightarrow> path_ok q \<longrightarrow> tab m h r p = Some t \<longrightarrow> tab m h r q = Some t \<longrightarrow> p = q)
      \<and> (\<forall>p i. path_ok (p @ [i]) \<longrightarrow> user_path (p @ [i]) \<longrightarrow> \<not> bit (entry m h r p i) 7)
      \<and> (\<forall>p i. path_ok p \<longrightarrow> length p = 3 \<longrightarrow> user_path p \<longrightarrow> i < 512 \<longrightarrow> bit (entry m h r p i) 0 \<longrightarrow>
           data_frame P h fa m r (entry m h r p i AND PAGE_ADDRESS_MASK)))"

lemma space_direct: "space_ok P h fa m r \<Longrightarrow> direct_ok P h \<and> P \<le> 2 ^ 52"
  by (simp add: space_ok_def direct_ok_def)

lemma space_frames: "space_ok P h fa m r \<Longrightarrow> frames_ok P fa"
  by (simp add: space_ok_def)

lemma space_table:
  "space_ok P h fa m r \<Longrightarrow> path_ok p \<Longrightarrow> tab m h r p = Some t \<Longrightarrow> in_bound P t \<and> unat t \<notin> free_frames fa"
  by (simp add: space_ok_def)

lemma space_unique:
  "space_ok P h fa m r \<Longrightarrow> path_ok p \<Longrightarrow> user_path p \<Longrightarrow> path_ok q \<Longrightarrow>
    tab m h r p = Some t \<Longrightarrow> tab m h r q = Some t \<Longrightarrow> p = q"
  unfolding space_ok_def by blast

lemma space_not_huge:
  "space_ok P h fa m r \<Longrightarrow> path_ok (p @ [i]) \<Longrightarrow> user_path (p @ [i]) \<Longrightarrow> \<not> bit (entry m h r p i) 7"
  unfolding space_ok_def by blast

lemma space_data:
  "space_ok P h fa m r \<Longrightarrow> path_ok p \<Longrightarrow> length p = 3 \<Longrightarrow> user_path p \<Longrightarrow> i < 512 \<Longrightarrow> bit (entry m h r p i) 0 \<Longrightarrow>
    data_frame P h fa m r (entry m h r p i AND PAGE_ADDRESS_MASK)"
  unfolding space_ok_def by blast

text \<open>Writing one entry of a table of the user half, and changing a free frame.\<close>

lemma tab_write:
  assumes s: "space_ok P h fa m0 r" and m: "\<And>q. path_ok q \<Longrightarrow> tab m h r q = tab m0 h r q"
    and p: "path_ok p" "user_path p" "tab m h r p = Some t" and i: "i < 512"
    and q: "path_ok q" "\<And>rest. q \<noteq> p @ i # rest"
  shows "tab (write_u64 m (h + t + 8 * of_nat i) v) h r q = tab m h r q"
proof (rule tab_cong)
  fix q1 j rest f
  assume split: "q = q1 @ j # rest" and "tab m h r q1 = Some f"
  then have q1: "path_ok q1" "j < 512" and f: "tab m0 h r q1 = Some f" and t: "tab m0 h r p = Some t"
    using q(1) path_ok_prefix [of q1 j rest] m p by auto
  have al: "page_aligned (h + t)" "page_aligned (h + f)"
    using direct_aligned space_direct [OF s] space_table [OF s] p(1) t q1(1) f by blast+
  show "entry_at (write_u64 m (h + t + 8 * of_nat i) v) (h + f) j = entry_at m (h + f) j"
  proof (cases "f = t")
    case True
    then have "q1 = p"
      using space_unique [OF s p(1,2) q1(1) t] f by simp
    with q(2) split have "j \<noteq> i" by auto
    with True al(1) i q1(2) show ?thesis
      by (simp add: write_u64_entry)
  next
    case False
    then have "same_page m (write_u64 m (h + t + 8 * of_nat i) v) (h + f)"
      using al i by (intro write_u64_page) simp_all
    with q1(2) show ?thesis
      by (rule same_page_entry [rotated])
  qed
qed

lemma tab_free:
  assumes s: "space_ok P h fa m r" and f: "unat f \<in> free_frames fa"
    and same: "\<And>t. in_bound P t \<Longrightarrow> t \<noteq> f \<Longrightarrow> same_page m m' (h + t)" and q: "path_ok q"
  shows "tab m' h r q = tab m h r q"
proof (rule tab_cong)
  fix q1 j rest t
  assume "q = q1 @ j # rest" and t: "tab m h r q1 = Some t"
  with q have "path_ok q1" "j < 512"
    using path_ok_prefix [of q1 j rest] by auto
  with space_table [OF s _ t] f show "entry_at m' (h + t) j = entry_at m (h + t) j"
    by (intro same_page_entry same) auto
qed

subsection \<open>Adding a table\<close>

lemma new_table:
  fixes f t :: u64
  assumes s: "space_ok P h fa m r" and alloc: "frame_allocate fa = (fa', Some f)"
    and pi: "path_ok (p @ [i])" "user_path (p @ [i])" "tab m h r p = Some t"
    and absent: "\<not> bit (entry m h r p i) 0"
  defines "m' \<equiv> write_u64 (zero_table m (h + f)) (h + t + 8 * of_nat i) (f OR user_flags)"
  shows "path_ok q \<Longrightarrow> tab m' h r q = (if q = p @ [i] then Some f else tab m h r q)"
    and "path_ok q \<Longrightarrow> j < 512 \<Longrightarrow>
      entry m' h r q j = (if q = p \<and> j = i then f OR user_flags else entry m h r q j)"
    and "in_bound P d \<Longrightarrow> d \<noteq> f \<Longrightarrow> d \<noteq> t \<Longrightarrow> same_page m m' (h + d)"
proof -
  note d = space_direct [OF s]
  note fr = frame_fresh [OF space_frames [OF s] alloc]
  have p: "path_ok p" "user_path p" "i < 512" "length p < 3"
    using pi user_path_prefix [of p "[i]"] by auto
  have t: "in_bound P t" "unat t \<notin> free_frames fa"
    using space_table [OF s p(1) pi(3)] by auto
  have ft: "f \<noteq> t" using fr(3) t(2) by auto
  have al: "page_aligned (h + x)" if "in_bound P x" for x
    using direct_aligned d that by blast
  let ?m1 = "zero_table m (h + f)"
  have m1: "same_page m ?m1 (h + x)" if "in_bound P x" "x \<noteq> f" for x
    using that fr(2) al by (intro zero_table_page) auto
  have tab1: "tab ?m1 h r x = tab m h r x" if "path_ok x" for x
    by (rule tab_free [OF s fr(3) _ that]) (rule m1)
  have pg: "same_page ?m1 m' (h + x)" if "in_bound P x" "x \<noteq> t" for x
    unfolding m'_def using that t(1) al p(3) by (intro write_u64_page) auto
  show other: "same_page m m' (h + d)" if "in_bound P d" "d \<noteq> f" "d \<noteq> t" for d
    using same_page_trans m1 pg that by blast
  have tabw: "tab m' h r x = tab m h r x" if "path_ok x" "\<And>rest. x \<noteq> p @ i # rest" for x
    unfolding m'_def using tab_write [OF s tab1 p(1,2) _ p(3) that] tab1 [OF that(1)] tab1 [OF p(1)] pi(3) by simp
  have tabp: "tab m' h r p = Some t"
    using tabw [OF p(1)] pi(3) by simp
  have et: "entry_at m' (h + t) k = (if k = i then f OR user_flags else entry_at m (h + t) k)" if "k < 512" for k
    using write_u64_entry [OF al [OF t(1)] p(3) that] same_page_entry [OF m1 [OF t(1)] that] ft by (auto simp: m'_def)
  have ef: "entry_at m' (h + f) k = 0" if "k < 512" for k
    using same_page_entry [OF pg [OF fr(2) ft] that] zero_table_entry [OF al [OF fr(2)] that] by simp
  have new: "entry m' h r p i = f OR user_flags"
    using tabp et p(3) by (simp add: entry_def)
  have bits: "bit (f OR user_flags) 0" "\<not> bit (f OR user_flags) 7"
    using frame_low_bits [OF fr(2), of 7] d by (auto simp: bit_or_iff bit_user_flags)
  have tabf: "tab m' h r (p @ [i]) = Some f"
    using bits frame_of_entry [OF fr(2) _ user_flags_mask] d by (simp add: tab_snoc new)
  have none: "tab m h r (p @ i # rest) = None" for rest
    using absent pi(3) by (simp add: tab_append entry_def)
  show tabq: "tab m' h r q = (if q = p @ [i] then Some f else tab m h r q)" if q: "path_ok q" for q
  proof (cases "\<exists>rest. q = p @ i # rest")
    case True
    then obtain rest where rest: "q = p @ i # rest" by blast
    show ?thesis
    proof (cases rest)
      case Nil
      with rest tabf show ?thesis by simp
    next
      case (Cons j rest')
      with rest q have "j < 512" by (auto simp: path_ok_def)
      with ef have "tab m' h f (j # rest') = None" by simp
      then have "tab m' h r q = None"
        using tabf tab_append [of m' h r "p @ [i]" "j # rest'"] rest Cons by simp
      with none rest Cons show ?thesis by simp
    qed
  next
    case False
    with tabw [OF q] show ?thesis by auto
  qed
  show "entry m' h r q j = (if q = p \<and> j = i then f OR user_flags else entry m h r q j)" if q: "path_ok q" and j: "j < 512" for q j
  proof (cases "q = p @ [i]")
    case True
    then have "entry m' h r q j = 0" "entry m h r q j = 0"
      using tabf ef [OF j] none [of "[]"] by (simp_all add: entry_def)
    with True show ?thesis by simp
  next
    case False
    then have same: "tab m' h r q = tab m h r q"
      using tabq [OF q] by simp
    show ?thesis
    proof (cases "tab m h r q")
      case None
      with same pi(3) show ?thesis by (auto simp: entry_def)
    next
      case (Some u)
      have u: "in_bound P u" "u \<noteq> f"
        using space_table [OF s q Some] fr(3) by auto
      show ?thesis
      proof (cases "u = t")
        case True
        then have "q = p"
          using space_unique [OF s p(1,2) q pi(3)] Some by simp
        with tabp pi(3) et [OF j] show ?thesis by (simp add: entry_def)
      next
        case False
        then have "q \<noteq> p" using Some pi(3) by auto
        with same Some same_page_entry [OF other [OF u False] j] show ?thesis
          by (simp add: entry_def)
      qed
    qed
  qed
qed

lemma space_new_table:
  fixes f t :: u64
  assumes s: "space_ok P h fa m r" and alloc: "frame_allocate fa = (fa', Some f)"
    and pi: "path_ok (p @ [i])" "user_path (p @ [i])" "tab m h r p = Some t"
    and absent: "\<not> bit (entry m h r p i) 0"
  defines "m' \<equiv> write_u64 (zero_table m (h + f)) (h + t + 8 * of_nat i) (f OR user_flags)"
  shows "space_ok P h fa' m' r"
    and "data_frame P h fa m r d \<Longrightarrow> data_frame P h fa' m' r d \<and> same_page m m' (h + d)"
proof -
  note new = new_table [OF s alloc pi absent, folded m'_def]
  note fr = frame_fresh [OF space_frames [OF s] alloc]
  have data: "data_frame P h fa' m' r d" if "data_frame P h fa m r d" for d
    using that fr(3,5) new(1) by (auto simp: data_frame_def)
  have uniq: "p1 = q1" if "path_ok p1" "user_path p1" "path_ok q1" "tab m' h r p1 = Some u" "tab m' h r q1 = Some u" for p1 q1 u
    using that new(1) space_unique [OF s, of p1 q1 u] space_table [OF s, of p1 u] space_table [OF s, of q1 u] fr(3)
    by (auto split: if_splits)
  have huge: "\<not> bit (entry m' h r q j) 7" if "path_ok (q @ [j])" "user_path (q @ [j])" for q j
    using that new(2) [of q j] space_not_huge [OF s that] frame_low_bits [OF fr(2), of 7] space_direct [OF s]
    by (auto simp: bit_or_iff bit_user_flags)
  have leaf: "entry m' h r q j = entry m h r q j" if "path_ok q" "length q = 3" "j < 512" for q j
    using that new(2) [of q j] pi(1) by auto
  show "space_ok P h fa' m' r"
    unfolding space_ok_def
  proof (intro conjI allI impI)
    show "direct_ok P h" "frames_ok P fa'"
      using space_direct [OF s] fr(1) by simp_all
  next
    fix q u assume "path_ok q" "tab m' h r q = Some u"
    then show "in_bound P u" "unat u \<notin> free_frames fa'"
      using new(1) [of q] fr(2,4,5) space_table [OF s, of q u] by (auto split: if_splits)
  next
    fix q j assume "path_ok q" "length q = 3" "user_path q" "j < 512" "bit (entry m' h r q j) 0"
    then show "data_frame P h fa' m' r (entry m' h r q j AND PAGE_ADDRESS_MASK)"
      using leaf space_data [OF s] data by simp
  qed (use uniq huge in blast)+
  show "data_frame P h fa m r d \<Longrightarrow> data_frame P h fa' m' r d \<and> same_page m m' (h + d)"
    using data new(3) fr(3) pi(1,3) by (auto simp: data_frame_def)
qed

subsection \<open>The descent\<close>

abbreviation space :: "nat \<Rightarrow> u64 \<Rightarrow> u64 \<Rightarrow> page_state \<Rightarrow> bool" where
  "space P h r s \<equiv> space_ok P h (ps_frames s) (ps_mem s) r"

abbreviation data_at :: "nat \<Rightarrow> u64 \<Rightarrow> u64 \<Rightarrow> page_state \<Rightarrow> u64 \<Rightarrow> bool" where
  "data_at P h r s d \<equiv> data_frame P h (ps_frames s) (ps_mem s) r d"

abbreviation no_frame :: "page_state \<Rightarrow> bool" where
  "no_frame s \<equiv> snd (frame_allocate (ps_frames s)) = None"

text \<open>Data frames stay data frames, with their contents; and the last entries are the same.\<close>

definition keeps :: "nat \<Rightarrow> u64 \<Rightarrow> u64 \<Rightarrow> page_state \<Rightarrow> page_state \<Rightarrow> bool" where
  "keeps P h r s s' =
     (\<forall>d. data_at P h r s d \<longrightarrow> data_at P h r s' d \<and> same_page (ps_mem s) (ps_mem s') (h + d))"

definition same_leaves :: "u64 \<Rightarrow> u64 \<Rightarrow> page_state \<Rightarrow> page_state \<Rightarrow> bool" where
  "same_leaves h r s s' =
     (\<forall>q j. path_ok q \<longrightarrow> length q = 3 \<longrightarrow> j < 512 \<longrightarrow> entry (ps_mem s') h r q j = entry (ps_mem s) h r q j)"

lemma keeps_refl [simp]: "keeps P h r s s"
  by (simp add: keeps_def)

lemma keeps_trans: "keeps P h r s s' \<Longrightarrow> keeps P h r s' s'' \<Longrightarrow> keeps P h r s s''"
  unfolding keeps_def using same_page_trans by blast

lemma same_leaves_refl [simp]: "same_leaves h r s s"
  by (simp add: same_leaves_def)

lemma same_leaves_trans: "same_leaves h r s s' \<Longrightarrow> same_leaves h r s' s'' \<Longrightarrow> same_leaves h r s s''"
  by (simp add: same_leaves_def)

lemma next_table_user_ok:
  assumes s: "space P h r s" and pi: "path_ok (p @ [i])" "user_path (p @ [i])" "tab (ps_mem s) h r p = Some t"
    and call: "next_table_user s (h + t) i h = (s', res)"
  shows "space P h r s'" "keeps P h r s s'" "same_leaves h r s s'"
    "(\<exists>t'. res = Ok (NextTable (h + t')) \<and> tab (ps_mem s') h r (p @ [i]) = Some t')
      \<or> res = Fail MapTableAllocationFailed \<and> no_frame s'"
proof -
  let ?m = "ps_mem s" and ?fa = "ps_frames s"
  have e: "entry ?m h r p i = entry_at ?m (h + t) i"
    using pi(3) by (simp add: entry_def)
  have nh: "\<not> bit (entry ?m h r p i) 7"
    by (rule space_not_huge [OF s pi(1,2)])
  note d = space_direct [OF s]
  consider (present) "bit (entry ?m h r p i) 0"
    | (full) fa where "\<not> bit (entry ?m h r p i) 0" "frame_allocate ?fa = (fa, None)"
    | (new) fa f where "\<not> bit (entry ?m h r p i) 0" "frame_allocate ?fa = (fa, Some f)"
    by (cases "frame_allocate ?fa"; cases "snd (frame_allocate ?fa)") auto
  then have "space P h r s' \<and> keeps P h r s s' \<and> same_leaves h r s s' \<and>
    ((\<exists>t'. res = Ok (NextTable (h + t')) \<and> tab (ps_mem s') h r (p @ [i]) = Some t') \<or> res = Fail MapTableAllocationFailed \<and> no_frame s')"
  proof cases
    case present
    then have tab: "tab ?m h r (p @ [i]) = Some (entry ?m h r p i AND PAGE_ADDRESS_MASK)"
      using nh by (simp add: tab_snoc)
    then have "in_bound P (entry ?m h r p i AND PAGE_ADDRESS_MASK)"
      using space_table [OF s pi(1)] by blast
    with present nh call e d have "s' = s" "res = Ok (NextTable (h + (entry ?m h r p i AND PAGE_ADDRESS_MASK)))"
      by (auto simp: next_table_user_def next_table_with_def Let_def direct_map_ok)
    with tab s show ?thesis by simp
  next
    case full
    then have "fa = ?fa"
      by (auto simp: frame_allocate_is_contiguous frame_contiguous_None)
    with full call e have "s' = s" "res = Fail MapTableAllocationFailed"
      by (auto simp: next_table_user_def next_table_with_def Let_def alloc_frame_def)
    with s full show ?thesis by simp
  next
    case new
    note fr = frame_fresh [OF space_frames [OF s] new(2)]
    note st = space_new_table [OF s new(2) pi new(1)] and nt = new_table [OF s new(2) pi new(1)]
    have "s' = \<lparr>ps_mem = write_u64 (zero_table ?m (h + f)) (h + t + 8 * of_nat i) (f OR user_flags), ps_frames = fa\<rparr>"
        "res = Ok (NextTable (h + f))"
      using call e new direct_map_ok [of P h f] fr(2) d
      by (auto simp: next_table_user_def next_table_with_def Let_def alloc_frame_def user_flags_def)
    then show ?thesis
      using st nt(1) [OF pi(1)] nt(2) pi(1) by (auto simp: keeps_def same_leaves_def)
  qed
  then show "space P h r s'" "keeps P h r s s'" "same_leaves h r s s'"
    "(\<exists>t'. res = Ok (NextTable (h + t')) \<and> tab (ps_mem s') h r (p @ [i]) = Some t')
      \<or> res = Fail MapTableAllocationFailed \<and> no_frame s'"
    by simp_all
qed

lemma descend_user_ok:
  assumes "space P h r s" "path_ok (p @ js)" "user_path (p @ js)" "tab (ps_mem s) h r p = Some t"
    and "descend next_table_user s h (h + t) js = (s', res)"
  shows "space P h r s' \<and> keeps P h r s s' \<and> same_leaves h r s s' \<and>
    ((\<exists>t'. res = Ok (Some (h + t')) \<and> tab (ps_mem s') h r (p @ js) = Some t') \<or> res = Fail MapTableAllocationFailed \<and> no_frame s')"
  using assms
proof (induction js arbitrary: s t p)
  case (Cons i js)
  obtain s1 r1 where call: "next_table_user s (h + t) i h = (s1, r1)"
    by (cases "next_table_user s (h + t) i h")
  have pi: "path_ok (p @ [i])" "user_path (p @ [i])"
    using Cons.prems(2,3) user_path_prefix [of "p @ [i]" js] by (auto simp: path_ok_def)
  note n = next_table_user_ok [OF Cons.prems(1) pi Cons.prems(4) call]
  from n(4) show ?case
  proof
    assume "\<exists>t'. r1 = Ok (NextTable (h + t')) \<and> tab (ps_mem s1) h r (p @ [i]) = Some t'"
    then obtain t' where r1: "r1 = Ok (NextTable (h + t'))" and t': "tab (ps_mem s1) h r (p @ [i]) = Some t'"
      by blast
    have "descend next_table_user s1 h (h + t') js = (s', res)"
      using Cons.prems(5) call r1 by simp
    from Cons.IH [OF n(1) _ _ t' this] Cons.prems(2,3) n(2,3) show ?thesis
      using keeps_trans same_leaves_trans by (auto; blast)
  next
    assume "r1 = Fail MapTableAllocationFailed \<and> no_frame s1"
    with Cons.prems(5) call n show ?thesis by auto
  qed
qed simp

subsection \<open>The last entry\<close>

lemma write_leaf:
  assumes s: "space_ok P h fa m r" and p: "path_ok p" "length p = 3" "user_path p" "tab m h r p = Some t"
    and i: "i < 512" and v: "bit v 0 \<Longrightarrow> data_frame P h fa m r (v AND PAGE_ADDRESS_MASK)"
  defines "m' \<equiv> write_u64 m (h + t + 8 * of_nat i) v"
  shows "space_ok P h fa m' r"
    and "data_frame P h fa m r d \<Longrightarrow> data_frame P h fa m' r d \<and> same_page m m' (h + d)"
    and "path_ok q \<Longrightarrow> j < 512 \<Longrightarrow> entry m' h r q j = (if q = p \<and> j = i then v else entry m h r q j)"
proof -
  note dir = space_direct [OF s]
  have t: "in_bound P t" "unat t \<notin> free_frames fa"
    using space_table [OF s p(1,4)] by auto
  have al: "page_aligned (h + x)" if "in_bound P x" for x
    using direct_aligned dir that by blast
  have tab: "tab m' h r q = tab m h r q" if "path_ok q" for q
    unfolding m'_def using p that i by (intro tab_write [OF s]) (auto simp: path_ok_def)
  have pg: "same_page m m' (h + x)" if "in_bound P x" "x \<noteq> t" for x
    unfolding m'_def using that t(1) al i by (intro write_u64_page) auto
  have data: "data_frame P h fa m' r d" if "data_frame P h fa m r d" for d
    using that tab by (simp add: data_frame_def)
  show "data_frame P h fa m r d \<Longrightarrow> data_frame P h fa m' r d \<and> same_page m m' (h + d)"
    using data pg p(1,4) by (auto simp: data_frame_def)
  show ent: "entry m' h r q j = (if q = p \<and> j = i then v else entry m h r q j)" if q: "path_ok q" and j: "j < 512" for q j
  proof (cases "tab m h r q")
    case None
    with tab [OF q] p(4) show ?thesis by (auto simp: entry_def)
  next
    case (Some u)
    have u: "in_bound P u"
      using space_table [OF s q Some] by simp
    show ?thesis
    proof (cases "u = t")
      case True
      then have "q = p"
        using space_unique [OF s p(1,3) q p(4)] Some by simp
      with Some tab [OF q] True write_u64_entry [OF al [OF t(1)] i j] show ?thesis
        by (auto simp: entry_def m'_def)
    next
      case False
      then have "q \<noteq> p" using Some p(4) by auto
      with tab [OF q] Some same_page_entry [OF pg [OF u False] j] show ?thesis
        by (simp add: entry_def)
    qed
  qed
  show "space_ok P h fa m' r"
    unfolding space_ok_def
  proof (intro conjI allI impI)
    fix q j assume "path_ok (q @ [j])" "user_path (q @ [j])"
    then show "\<not> bit (entry m' h r q j) 7"
      using ent [of q j] space_not_huge [OF s, of q j] p(2) by auto
  next
    fix q j assume "path_ok q" "length q = 3" "user_path q" "j < 512" "bit (entry m' h r q j) 0"
    then show "data_frame P h fa m' r (entry m' h r q j AND PAGE_ADDRESS_MASK)"
      using ent [of q j] space_data [OF s, of q j] v data by (auto split: if_splits)
  qed (use s tab space_table [OF s] space_unique [OF s] in \<open>auto simp: space_ok_def\<close>)
qed

section \<open>Mapping a page\<close>

lemma page_table_index_eq: "page_table_index v s = unat v div 2 ^ s mod 512"
proof -
  have "(0x1ff :: u64) = mask 9"
    by (simp add: mask_eq_exp_minus_1)
  then have "page_table_index v s = unat (take_bit 9 (drop_bit s v))"
    unfolding page_table_index_def by (simp only: take_bit_eq_mask)
  also have "\<dots> = drop_bit s (unat v) mod 512"
    by (simp add: unat_take_bit unat_drop_bit_eq)
  finally show ?thesis
    by (simp add: drop_bit_eq_div)
qed

lemma index_less [simp]: "page_table_index v s < 512"
  by (simp add: page_table_index_eq)

lemma indices_page:
  assumes "unat v < 2 ^ 48" "unat w < 2 ^ 48" "table_indices v = table_indices w"
    "page_table_index v 12 = page_table_index w 12"
  shows "unat v div 4096 = unat w div 4096"
proof -
  have split: "n = ((n div 2 ^ 27 mod 512 * 512 + n div 2 ^ 18 mod 512) * 512 + n div 2 ^ 9 mod 512) * 512 + n mod 512"
    if "n < 2 ^ 36" for n :: nat
  proof -
    have "n = n div 512 * 512 + n mod 512" by simp
    moreover have "n div 512 = n div 512 div 512 * 512 + n div 512 mod 512" by simp
    moreover have "n div 512 div 512 = n div 512 div 512 div 512 * 512 + n div 512 div 512 mod 512" by simp
    moreover have "n div 512 div 512 div 512 < 512"
      using that by (simp add: div_mult2_eq [symmetric] less_mult_imp_div_less)
    ultimately show ?thesis
      by (simp add: div_mult2_eq [symmetric])
  qed
  have sh: "unat x div 2 ^ 39 = unat x div 4096 div 2 ^ 27" "unat x div 2 ^ 30 = unat x div 4096 div 2 ^ 18"
    "unat x div 2 ^ 21 = unat x div 4096 div 2 ^ 9" for x :: u64
    by (simp_all add: div_mult2_eq [symmetric])
  have "unat v div 4096 < 2 ^ 36" "unat w div 4096 < 2 ^ 36"
    using assms(1,2) by (simp_all add: less_mult_imp_div_less)
  note vw = split [OF this(1)] split [OF this(2)]
  have "unat v div 4096 div 2 ^ 27 mod 512 = unat w div 4096 div 2 ^ 27 mod 512"
    "unat v div 4096 div 2 ^ 18 mod 512 = unat w div 4096 div 2 ^ 18 mod 512"
    "unat v div 4096 div 2 ^ 9 mod 512 = unat w div 4096 div 2 ^ 9 mod 512"
    "unat v div 4096 mod 512 = unat w div 4096 mod 512"
    unfolding sh [symmetric] using assms(3,4) by (simp_all add: table_indices_def page_table_index_eq)
  then show ?thesis
    by (subst vw(1), subst vw(2)) (simp only:)
qed

lemma table_indices_ok [simp]: "path_ok (table_indices v)" "length (table_indices v) = 3"
  by (simp_all add: path_ok_def table_indices_def)

lemma table_indices_user: "unat v < 2 ^ 47 \<Longrightarrow> user_path (table_indices v)"
  by (simp add: user_path_def table_indices_def page_table_index_eq less_mult_imp_div_less)

text \<open>The entry of a page, and what mapping a page writes there.\<close>

definition page_entry :: "kernel_memory \<Rightarrow> u64 \<Rightarrow> u64 \<Rightarrow> u64 \<Rightarrow> u64" where
  "page_entry m h r v = entry m h r (table_indices v) (page_table_index v 12)"

definition mapped_entry :: "u64 \<Rightarrow> u64 \<Rightarrow> u64 \<Rightarrow> u64" where
  "mapped_entry old d flags = (if bit old 0 then old OR flags else d OR PAGE_PRESENT OR PAGE_USER OR flags)"

definition same_page_as :: "u64 \<Rightarrow> u64 \<Rightarrow> bool" where
  "same_page_as v w \<longleftrightarrow> unat v div 4096 = unat w div 4096"

lemma page_entry_cong: "same_page_as v w \<Longrightarrow> page_entry m h r v = page_entry m h r w"
proof -
  have "unat x div 2 ^ (12 + k) = unat x div 4096 div 2 ^ k" for x :: u64 and k
    by (simp add: power_add div_mult2_eq)
  from this [of _ 27] this [of _ 18] this [of _ 9] this [of _ 0]
  show "same_page_as v w \<Longrightarrow> page_entry m h r v = page_entry m h r w"
    by (simp add: page_entry_def table_indices_def page_table_index_eq same_page_as_def)
qed

lemma mapped_entry_frame:
  assumes "in_bound P d" "P \<le> 2 ^ 52" "flags AND PAGE_ADDRESS_MASK = 0"
  shows "mapped_entry old d flags AND PAGE_ADDRESS_MASK = (if bit old 0 then old AND PAGE_ADDRESS_MASK else d)"
    and "bit (mapped_entry old d flags) 0"
proof -
  have "(PAGE_PRESENT OR PAGE_USER OR flags) AND PAGE_ADDRESS_MASK = 0"
    using assms(3) by (simp add: bit.conj_disj_distrib2 PAGE_PRESENT_def PAGE_USER_def PAGE_ADDRESS_MASK_def)
  from frame_of_entry [OF assms(1,2) this] show "mapped_entry old d flags AND PAGE_ADDRESS_MASK = (if bit old 0 then old AND PAGE_ADDRESS_MASK else d)"
    using assms(3) by (simp add: mapped_entry_def bit.conj_disj_distrib2)
  show "bit (mapped_entry old d flags) 0"
    by (simp add: mapped_entry_def bit_or_iff PAGE_PRESENT_def)
qed

lemma map_user_page_ok:
  assumes s: "space P h r s" and v: "unat v < 2 ^ 47" and d: "data_at P h r s d"
    and flags: "flags AND PAGE_ADDRESS_MASK = 0" and call: "map_user_page s r h v d flags = (s', res)"
  shows "space P h r s'" "keeps P h r s s'"
    "res = Fail MapTableAllocationFailed \<and> no_frame s' \<and> same_leaves h r s s' \<or>
     res = Ok () \<and> (\<forall>w. unat w < 2 ^ 48 \<longrightarrow> page_entry (ps_mem s') h r w =
       (if same_page_as w v then mapped_entry (page_entry (ps_mem s) h r v) d flags else page_entry (ps_mem s) h r w))"
proof -
  note dir = space_direct [OF s]
  have root: "in_bound P r"
    using space_table [OF s, of "[]" r] by (simp add: path_ok_def)
  have db: "in_bound P d" using d by (simp add: data_frame_def)
  have dm: "d AND PAGE_ADDRESS_MASK = d"
    using frame_of_entry [OF db, of 0] dir by simp
  let ?js = "table_indices v" and ?i = "page_table_index v 12"
  obtain s1 r1 where walk: "descend next_table_user s h (h + r) ?js = (s1, r1)"
    by (cases "descend next_table_user s h (h + r) ?js")
  have w: "space P h r s1" "keeps P h r s s1" "same_leaves h r s s1"
    "(\<exists>t. r1 = Ok (Some (h + t)) \<and> tab (ps_mem s1) h r ?js = Some t) \<or> r1 = Fail MapTableAllocationFailed \<and> no_frame s1"
    using descend_user_ok [OF s, of "[]" ?js r s1 r1] table_indices_user [OF v] walk by auto
  have old: "page_entry (ps_mem s1) h r x = page_entry (ps_mem s) h r x" for x
    using w(3) by (simp add: same_leaves_def page_entry_def)
  from w(4) have "space P h r s' \<and> keeps P h r s s' \<and> (res = Fail MapTableAllocationFailed \<and> no_frame s' \<and> same_leaves h r s s' \<or>
     res = Ok () \<and> (\<forall>x. unat x < 2 ^ 48 \<longrightarrow> page_entry (ps_mem s') h r x =
       (if same_page_as x v then mapped_entry (page_entry (ps_mem s) h r v) d flags else page_entry (ps_mem s) h r x)))"
  proof
    assume "\<exists>t. r1 = Ok (Some (h + t)) \<and> tab (ps_mem s1) h r ?js = Some t"
    then obtain t where r1: "r1 = Ok (Some (h + t))" and t: "tab (ps_mem s1) h r ?js = Some t" by blast
    let ?new = "mapped_entry (page_entry (ps_mem s) h r v) d flags"
    have e: "entry_at (ps_mem s1) (h + t) ?i = page_entry (ps_mem s) h r v"
      using old [of v] t by (simp add: page_entry_def entry_def)
    have res: "res = Ok ()" "s' = s1\<lparr>ps_mem := write_u64 (ps_mem s1) (h + t + 8 * of_nat ?i) ?new\<rparr>"
      using call walk r1 e dm direct_map_ok [OF _ root] dir by (auto simp: map_user_page_def mapped_entry_def Let_def split: if_splits)
    have data: "data_at P h r s1 (?new AND PAGE_ADDRESS_MASK)"
      using mapped_entry_frame(1) [OF db _ flags] dir w(2) d space_data [OF w(1), of ?js ?i] table_indices_user [OF v] old [of v]
      by (auto simp: keeps_def page_entry_def)
    note leaf = write_leaf [OF w(1) _ _ table_indices_user [OF v] t, of ?i ?new]
    have "page_entry (ps_mem s') h r x = (if same_page_as x v then ?new else page_entry (ps_mem s) h r x)" if "unat x < 2 ^ 48" for x
    proof -
      have "table_indices x = ?js \<and> page_table_index x 12 = ?i \<Longrightarrow> same_page_as x v"
        unfolding same_page_as_def using that v by (intro indices_page) auto
      then have "page_entry (ps_mem s') h r x = (if table_indices x = ?js \<and> page_table_index x 12 = ?i then ?new else page_entry (ps_mem s) h r x)"
        using leaf(3) [of "table_indices x" "page_table_index x 12"] data old [of x] res(2) by (simp add: page_entry_def)
      moreover have "page_entry (ps_mem s') h r v = ?new"
        using leaf(3) [of ?js ?i] data res(2) by (simp add: page_entry_def)
      ultimately show ?thesis
        using page_entry_cong [of x v] \<open>_ \<Longrightarrow> same_page_as x v\<close> by auto
    qed
    moreover have "space P h r s'" "keeps P h r s1 s'"
      using leaf(1,2) data res(2) by (auto simp: keeps_def)
    ultimately show ?thesis
      using res(1) keeps_trans [OF w(2)] by blast
  next
    assume "r1 = Fail MapTableAllocationFailed \<and> no_frame s1"
    then have "s' = s1" "no_frame s1" "res = Fail MapTableAllocationFailed"
      using call walk direct_map_ok [OF _ root] dir by (auto simp: map_user_page_def)
    with w show ?thesis by simp
  qed
  then show "space P h r s'" "keeps P h r s s'"
    "res = Fail MapTableAllocationFailed \<and> no_frame s' \<and> same_leaves h r s s' \<or>
     res = Ok () \<and> (\<forall>w. unat w < 2 ^ 48 \<longrightarrow> page_entry (ps_mem s') h r w =
       (if same_page_as w v then mapped_entry (page_entry (ps_mem s) h r v) d flags else page_entry (ps_mem s) h r w))"
    by blast+
qed

lemma and_not_fff: "x AND NOT 0xfff = x - of_nat (unat x mod 4096)" for x :: u64
proof -
  have m: "(0xfff :: u64) = mask 12"
    by (simp add: mask_eq_exp_minus_1)
  have "take_bit 12 x = of_nat (unat x mod 4096)"
    using unat_take_bit [of 12 x] by (simp add: word_unat_eq_iff unat_of_nat)
  then show ?thesis
    unfolding m and_not_mask_eq by simp
qed

lemma page_of_aligned:
  assumes "page_aligned v" "i < 4096"
  shows "(v + of_nat i) AND NOT 0xfff = v"
proof -
  have "unat (v + of_nat i) = unat v + i"
    using assms unat_aligned_plus [of 12 v i] by simp
  then have "unat (v + of_nat i) mod 4096 = i"
    using assms by (auto elim!: dvdE)
  then show ?thesis
    unfolding and_not_fff by simp
qed

lemma map_user_region_page:
  assumes "page_aligned v" "page_aligned d"
  shows "map_user_region s r h v d 4096 flags = map_user_page s r h v d flags"
proof -
  have "unat v + 4095 < 2 ^ 64"
    using assms(1) aligned_room [of 12 v 4095] by simp
  then have "last_address v 4096 = Ok (v + 4095)"
    by (simp add: last_address_def checked_add_def)
  moreover have "v AND NOT 0xfff = v" "d AND NOT 0xfff = d" "(v + 4095) AND NOT 0xfff = v"
    using page_of_aligned [OF assms(1), of 0] page_of_aligned [OF assms(2), of 0] page_of_aligned [OF assms(1), of 4095] by simp_all
  ultimately have "map_user_region s r h v d 4096 flags = st_then (map_user_page s r h v d flags) (\<lambda>s _. (s, Ok ()))"
    by (simp add: map_user_region_def map_pages.simps [of _ s v d])
  also have "\<dots> = map_user_page s r h v d flags"
    by (cases "map_user_page s r h v d flags"; cases "snd (map_user_page s r h v d flags)") simp_all
  finally show ?thesis .
qed

section \<open>The bytes of a process\<close>

definition page_offset :: "u64 \<Rightarrow> nat" where
  "page_offset v = unat v mod 4096"

definition user_byte :: "kernel_memory \<Rightarrow> u64 \<Rightarrow> u64 \<Rightarrow> u64 \<Rightarrow> u8 option" where
  "user_byte m h r v =
     (let e = page_entry m h r v
      in if bit e 0 then Some (m (h + (e AND PAGE_ADDRESS_MASK) + of_nat (page_offset v))) else None)"

abbreviation user_view :: "u64 \<Rightarrow> u64 \<Rightarrow> page_state \<Rightarrow> u64 \<Rightarrow> u8 option" where
  "user_view h r s \<equiv> user_byte (ps_mem s) h r"

lemma page_data:
  assumes "space_ok P h fa m r" "unat v < 2 ^ 47" "bit (page_entry m h r v) 0"
  shows "data_frame P h fa m r (page_entry m h r v AND PAGE_ADDRESS_MASK)"
  using assms space_data [of P h fa m r "table_indices v"] table_indices_user [of v] by (simp add: page_entry_def)

lemma keeps_view:
  assumes s: "space P h r s" and k: "keeps P h r s s'" and v: "unat v < 2 ^ 47"
    and e: "page_entry (ps_mem s') h r v = page_entry (ps_mem s) h r v"
  shows "user_view h r s' v = user_view h r s v"
proof (cases "bit (page_entry (ps_mem s) h r v) 0")
  case True
  then have "same_page (ps_mem s) (ps_mem s') (h + (page_entry (ps_mem s) h r v AND PAGE_ADDRESS_MASK))"
    using page_data [OF s v] k by (simp add: keeps_def)
  with e True show ?thesis
    by (simp add: user_byte_def Let_def same_page_def page_offset_def)
qed (simp add: user_byte_def Let_def e)

text \<open>
  C13.  Mapping a frame at an unmapped page of a process, which may allocate up to three page tables,
  adds exactly that page to what the process sees: its bytes are those of the frame, and every
  other address of the user half reads as before.  The only failure is that no frame is left for a
  table; then nothing the process sees has changed.
\<close>

theorem map_user_page_view:
  assumes "space P h r s" and "unat v < 2 ^ 47" and "\<not> bit (page_entry (ps_mem s) h r v) 0" and "data_at P h r s d"
    and "flags AND PAGE_ADDRESS_MASK = 0" and "map_user_page s r h v d flags = (s', res)" and "unat w < 2 ^ 47"
  shows "space P h r s' \<and> (res = Ok () \<or> res = Fail MapTableAllocationFailed \<and> no_frame s')
    \<and> user_view h r s' w = (if res = Ok () \<and> same_page_as w v then Some (ps_mem s (h + d + of_nat (page_offset w)))
        else user_view h r s w)"
proof -
  note ok = map_user_page_ok [OF assms(1,2,4,5,6)]
  have in_page: "ps_mem s' (h + d + of_nat (page_offset w)) = ps_mem s (h + d + of_nat (page_offset w))"
    using ok(2) assms(4) by (simp add: keeps_def same_page_def page_offset_def)
  have db: "in_bound P d" using assms(4) by (simp add: data_frame_def)
  from ok(3) show ?thesis
  proof
    assume "res = Fail MapTableAllocationFailed \<and> no_frame s' \<and> same_leaves h r s s'"
    then show ?thesis
      using ok(1) keeps_view [OF assms(1) ok(2) assms(7)] by (simp add: same_leaves_def page_entry_def)
  next
    assume r: "res = Ok () \<and> (\<forall>w. unat w < 2 ^ 48 \<longrightarrow> page_entry (ps_mem s') h r w =
       (if same_page_as w v then mapped_entry (page_entry (ps_mem s) h r v) d flags else page_entry (ps_mem s) h r w))"
    then have e: "page_entry (ps_mem s') h r w =
       (if same_page_as w v then mapped_entry (page_entry (ps_mem s) h r v) d flags else page_entry (ps_mem s) h r w)"
      using assms(7) by simp
    show ?thesis
    proof (cases "same_page_as w v")
      case True
      then have "user_view h r s' w = Some (ps_mem s' (h + d + of_nat (page_offset w)))"
        using e mapped_entry_frame [OF db _ assms(5)] space_direct [OF assms(1)] assms(3) by (simp add: user_byte_def Let_def)
      with True r ok(1) in_page show ?thesis by simp
    next
      case False
      with e keeps_view [OF assms(1) ok(2) assms(7)] r ok(1) show ?thesis by simp
    qed
  qed
qed

section \<open>Taking and filling frames\<close>

lemma take_frame:
  assumes s: "space P h r s" and a: "frame_allocate (ps_frames s) = (fa', Some f)"
  shows "space P h r (s\<lparr>ps_frames := fa'\<rparr>)" "data_at P h r (s\<lparr>ps_frames := fa'\<rparr>) f"
    "keeps P h r s (s\<lparr>ps_frames := fa'\<rparr>)" "\<not> data_at P h r s f"
proof -
  note fr = frame_fresh [OF space_frames [OF s] a]
  have data: "data_frame P h fa' (ps_mem s) r d" if "data_at P h r s d" for d
    using that fr(5) by (auto simp: data_frame_def)
  show "space P h r (s\<lparr>ps_frames := fa'\<rparr>)"
    using s fr(1,5) data unfolding space_ok_def by (auto 0 4)
  show "data_at P h r (s\<lparr>ps_frames := fa'\<rparr>) f"
    using fr(2,3,4) space_table [OF s] by (auto simp: data_frame_def)
  show "keeps P h r s (s\<lparr>ps_frames := fa'\<rparr>)"
    using data by (simp add: keeps_def)
  show "\<not> data_at P h r s f"
    using fr(3) by (simp add: data_frame_def)
qed

lemma fill_frame:
  assumes s: "space P h r s" and f: "data_at P h r s f"
    and same: "\<And>x. in_bound P x \<Longrightarrow> x \<noteq> f \<Longrightarrow> same_page (ps_mem s) m' (h + x)"
  shows "space P h r (s\<lparr>ps_mem := m'\<rparr>)" "page_entry m' h r v = page_entry (ps_mem s) h r v"
    "data_at P h r (s\<lparr>ps_mem := m'\<rparr>) d = data_at P h r s d"
proof -
  let ?m = "ps_mem s"
  have tab: "tab m' h r q = tab ?m h r q" if q: "path_ok q" for q
  proof (rule tab_cong)
    fix q1 j rest t
    assume "q = q1 @ j # rest" and t: "tab ?m h r q1 = Some t"
    with q have q1: "path_ok q1" "j < 512"
      using path_ok_prefix [of q1 j rest] by auto
    then have "t \<noteq> f"
      using f t by (auto simp: data_frame_def)
    with q1 space_table [OF s _ t] show "entry_at m' (h + t) j = entry_at ?m (h + t) j"
      by (intro same_page_entry same) auto
  qed
  have ent: "entry m' h r q j = entry ?m h r q j" if q: "path_ok q" "j < 512" for q j
  proof (cases "tab ?m h r q")
    case (Some t)
    then have "t \<noteq> f" "in_bound P t"
      using f q(1) space_table [OF s q(1)] by (auto simp: data_frame_def)
    with same_page_entry [OF same q(2)] Some tab [OF q(1)] show ?thesis
      by (simp add: entry_def)
  qed (simp add: entry_def tab [OF q(1)])
  have data: "data_frame P h (ps_frames s) m' r d = data_at P h r s d" for d
    using tab by (simp add: data_frame_def)
  then show "data_at P h r (s\<lparr>ps_mem := m'\<rparr>) d = data_at P h r s d"
    by simp
  show "page_entry m' h r v = page_entry ?m h r v"
    by (simp add: page_entry_def ent)
  show "space P h r (s\<lparr>ps_mem := m'\<rparr>)"
    using s tab ent data unfolding space_ok_def by (auto 0 4)
qed

section \<open>A new address space\<close>

lemma copy_entries_page:
  "page_aligned dst \<Longrightarrow> page_aligned q \<Longrightarrow> dst \<noteq> q \<Longrightarrow> set js \<subseteq> {..<512} \<Longrightarrow> same_page m (copy_entries m src dst js) q"
proof (induction js arbitrary: m)
  case (Cons i js)
  let ?m = "write_u64 m (dst + 8 * of_nat i) (entry_at m src i)"
  have "same_page m ?m q"
    using Cons.prems by (intro write_u64_page) auto
  moreover have "same_page ?m (copy_entries m src dst (i # js)) q"
    using Cons by simp
  ultimately show ?case
    by (rule same_page_trans)
qed simp

lemma copy_entries_entry:
  assumes "page_aligned src" "page_aligned dst" "src \<noteq> dst" "set js \<subseteq> {..<512}" "j < 512"
  shows "entry_at (copy_entries m src dst js) dst j = (if j \<in> set js then entry_at m src j else entry_at m dst j)"
  using assms(4)
proof (induction js arbitrary: m)
  case (Cons i js)
  let ?m = "write_u64 m (dst + 8 * of_nat i) (entry_at m src i)"
  have "entry_at ?m src j = entry_at m src j"
    using Cons.prems assms by (intro same_page_entry write_u64_page) auto
  with Cons assms show ?case
    by (auto simp: write_u64_entry)
qed simp

text \<open>The tables that a new address space shares: those of the kernel half.\<close>

definition kernel_half :: "nat \<Rightarrow> u64 \<Rightarrow> u64 \<Rightarrow> page_state \<Rightarrow> bool" where
  "kernel_half P h k s =
     (direct_ok P h \<and> frames_ok P (ps_frames s) \<and>
      (\<forall>p t. path_ok p \<longrightarrow> p = [] \<or> 256 \<le> hd p \<longrightarrow> tab (ps_mem s) h k p = Some t \<longrightarrow>
        in_bound P t \<and> unat t \<notin> free_frames (ps_frames s)))"

abbreviation kernel_slots :: "nat list" where
  "kernel_slots \<equiv> [KERNEL_HIGHER_HALF_START ..< ENTRIES_PER_TABLE]"

lemma set_kernel_slots: "set kernel_slots = {256 ..< 512}"
  by (simp add: set_upt KERNEL_HIGHER_HALF_START_def ENTRIES_PER_TABLE_def del: upt_rec_numeral)

lemma root_entries:
  fixes m :: kernel_memory
  assumes "direct_ok P h" "in_bound P f" "in_bound P k" "f \<noteq> k" "j < 512"
  defines "m' \<equiv> copy_entries (zero_table m (h + f)) (h + k) (h + f) kernel_slots"
  shows "entry_at m' (h + f) j = (if j < 256 then 0 else entry_at m (h + k) j)"
    and "in_bound P x \<Longrightarrow> x \<noteq> f \<Longrightarrow> same_page m m' (h + x)"
proof -
  have al: "page_aligned (h + x)" if "in_bound P x" for x
    using direct_aligned assms(1) that by blast
  have z: "same_page m (zero_table m (h + f)) (h + x)" if "in_bound P x" "x \<noteq> f" for x
    using al that assms(2) by (intro zero_table_page) auto
  have "entry_at m' (h + f) j = (if 256 \<le> j then entry_at (zero_table m (h + f)) (h + k) j else 0)"
    unfolding m'_def using assms(1-5) al [of f] al [of k] set_kernel_slots
    by (subst copy_entries_entry) (auto simp: zero_table_entry simp del: set_upt)
  then show "entry_at m' (h + f) j = (if j < 256 then 0 else entry_at m (h + k) j)"
    using same_page_entry [OF z [of k]] assms(3-5) by auto
  show "same_page m m' (h + x)" if "in_bound P x" "x \<noteq> f"
    unfolding m'_def using that assms(2) al set_kernel_slots by (intro same_page_trans [OF z [OF that]] copy_entries_page) auto
qed

lemma new_root:
  fixes s :: page_state
  assumes k: "kernel_half P h k s" and a: "frame_allocate (ps_frames s) = (fa, Some f)"
  defines "m' \<equiv> copy_entries (zero_table (ps_mem s) (h + f)) (h + k) (h + f) kernel_slots"
  shows "path_ok q \<Longrightarrow> tab m' h f q = (if q = [] then Some f else if hd q < 256 then None else tab (ps_mem s) h k q)"
proof -
  assume q: "path_ok q"
  have dir: "direct_ok P h" and fr: "frames_ok P (ps_frames s)"
    and half: "\<And>p t. path_ok p \<Longrightarrow> p = [] \<or> 256 \<le> hd p \<Longrightarrow> tab (ps_mem s) h k p = Some t \<Longrightarrow>
        in_bound P t \<and> unat t \<notin> free_frames (ps_frames s)"
    using k by (auto simp: kernel_half_def)
  note fresh = frame_fresh [OF fr a]
  have root: "in_bound P k" "f \<noteq> k"
    using half [of "[]" k] fresh(3) by (auto simp: path_ok_def)
  note ent = root_entries [OF dir fresh(2) root, where m = "ps_mem s", folded m'_def]
  show ?thesis
  proof (cases q)
    case (Cons i rest)
    then have i: "i < 512"
      using q by (simp add: path_ok_def)
    show ?thesis
    proof (cases "i < 256")
      case False
      let ?e = "entry_at (ps_mem s) (h + k) i"
      have "tab m' h (?e AND PAGE_ADDRESS_MASK) rest = tab (ps_mem s) h (?e AND PAGE_ADDRESS_MASK) rest"
        if e: "bit ?e 0" "\<not> bit ?e 7"
      proof (rule tab_cong)
        fix p j rest' t
        assume split: "rest = p @ j # rest'" and t: "tab (ps_mem s) h (?e AND PAGE_ADDRESS_MASK) p = Some t"
        have "path_ok (i # p)" "j < 512"
          using q Cons split by (auto simp: path_ok_def)
        with half [of "i # p" t] t e False fresh(3) have "in_bound P t" "t \<noteq> f"
          by (auto simp: Let_def)
        then show "entry_at m' (h + t) j = entry_at (ps_mem s) (h + t) j"
          using ent(2) [of 0] \<open>j < 512\<close> by (intro same_page_entry) simp_all
      qed
      with Cons ent(1) [OF i] False show ?thesis
        by (auto simp: Let_def)
    qed (simp add: Cons ent(1) [OF i])
  qed simp
qed

lemma create_user_page_table_ok:
  assumes k: "kernel_half P h (cr3 AND PAGE_ADDRESS_MASK) s"
    and call: "create_user_page_table cr3 (Some h) s h = (s', res)"
  shows "res = Fail MapTableAllocationFailed \<and> s' = s \<and> no_frame s
    \<or> (\<exists>f. res = Ok f \<and> space P h f s' \<and> (\<forall>v. unat v < 2 ^ 47 \<longrightarrow> page_entry (ps_mem s') h f v = 0))"
proof (cases "frame_allocate (ps_frames s)")
  case (Pair fa o1)
  let ?k = "cr3 AND PAGE_ADDRESS_MASK"
  have dir: "direct_ok P h" and fr: "frames_ok P (ps_frames s)"
    and half: "\<And>p t. path_ok p \<Longrightarrow> p = [] \<or> 256 \<le> hd p \<Longrightarrow> tab (ps_mem s) h ?k p = Some t \<Longrightarrow>
        in_bound P t \<and> unat t \<notin> free_frames (ps_frames s)"
    using k by (auto simp: kernel_half_def)
  show ?thesis
  proof (cases o1)
    case None
    then have "fa = ps_frames s"
      using Pair by (auto simp: frame_allocate_is_contiguous frame_contiguous_None)
    with Pair None call show ?thesis
      by (auto simp: create_user_page_table_def allocate_page_table_frame_def alloc_frame_def)
  next
    case (Some f)
    with Pair have a: "frame_allocate (ps_frames s) = (fa, Some f)" by simp
    note fresh = frame_fresh [OF fr a]
    have root: "in_bound P ?k" "f \<noteq> ?k"
      using half [of "[]" ?k] fresh(3) by (auto simp: path_ok_def)
    let ?m = "copy_entries (zero_table (ps_mem s) (h + f)) (h + ?k) (h + f) kernel_slots"
    have res: "res = Ok f" "s' = \<lparr>ps_mem = ?m, ps_frames = fa\<rparr>"
      using call a direct_map_ok [OF dir fresh(2)] direct_map_ok [OF dir root(1)]
      by (auto simp: create_user_page_table_def allocate_page_table_frame_def alloc_frame_def)
    note tabs = new_root [OF k a]
    have ent: "entry ?m h f p i = 0" if "path_ok p" "i < 512" "user_path (p @ [i])" for p i
      using that tabs [of p] root_entries(1) [OF dir fresh(2) root that(2), where m = "ps_mem s"]
      by (cases p) (auto simp: entry_def user_path_def)
    have "space_ok P h fa ?m f"
      unfolding space_ok_def
    proof (intro conjI allI impI)
      fix p t assume "path_ok p" "tab ?m h f p = Some t"
      then show "in_bound P t" "unat t \<notin> free_frames fa"
        using tabs [of p] half [of p t] fresh by (auto split: if_splits)
    next
      fix p q t assume "path_ok p" "user_path p" "path_ok q" "tab ?m h f p = Some t" "tab ?m h f q = Some t"
      then show "p = q"
        using tabs [of p] tabs [of q] half [of q t] fresh(3) by (auto simp: user_path_def split: if_splits)
    next
      fix p i assume "path_ok (p @ [i])" "user_path (p @ [i])"
      then show "\<not> bit (entry ?m h f p i) 7"
        using ent [of p i] by simp
    next
      fix p i assume "path_ok p" "length p = 3" "user_path p" "i < 512" "bit (entry ?m h f p i) 0"
      then show "data_frame P h fa ?m f (entry ?m h f p i AND PAGE_ADDRESS_MASK)"
        using ent [of p i] by (cases p) (auto simp: user_path_def)
    qed (use dir fresh(1) in auto)
    moreover have "page_entry ?m h f v = 0" if "unat v < 2 ^ 47" for v
      using table_indices_user [OF that] table_indices_ok [of v] unfolding page_entry_def
      by (intro ent) (auto simp: user_path_def table_indices_def)
    ultimately show ?thesis
      using res by simp
  qed
qed

section \<open>An example\<close>

definition demo_pool :: "u64 \<Rightarrow> frame_allocator" where
  "demo_pool n =
     \<lparr>fa_initialized = True, fa_region_count = 1, fa_total_bytes = 0x100000,
      fa_allocatable_bytes = 0x100000, fa_allocated_frames = n,
      fa_regions = \<lparr>fr_start = 0x100000, fr_end = 0x200000, fr_next = 0x100000 + 4096 * n\<rparr>
        # replicate 63 frame_region_empty\<rparr>"

definition demo_state :: "u64 \<Rightarrow> page_state" where
  "demo_state n = \<lparr>ps_mem = (\<lambda>_. 0), ps_frames = demo_pool n\<rparr>"

abbreviation demo_hhdm :: u64 where "demo_hhdm \<equiv> 0xffff800000000000"

lemma demo_pool_frames:
  "frames_ok 0x200000 (demo_pool 0)" "frames_ok 0x200000 (demo_pool 2)"
  "free_frames (demo_pool 0) = {0x100000 ..< 0x200000}" "free_frames (demo_pool 2) = {0x102000 ..< 0x200000}"
  by (auto simp: frames_ok_def demo_pool_def frame_wf_def active_def MAX_USABLE_REGIONS_def region_ok_def
      frame_pool_def frame_owned_def region_span_def region_used_def free_frames_def word_le_nat_alt)

lemma demo_direct: "direct_ok 0x200000 demo_hhdm"
  by (simp add: direct_ok_def)

lemma zero_entry: "entry_at (\<lambda>_. 0) t i = 0"
proof -
  have "of_le (replicate n 0) = (0 :: u64)" for n
    by (induction n) (simp_all add: of_le.simps)
  then show ?thesis
    by (simp add: read_u64_def read_bytes_def map_replicate_const del: upt_rec_numeral)
qed

lemma zero_tab: "tab (\<lambda>_. 0) h r p = (if p = [] then Some r else None)"
  by (cases p) (simp_all add: zero_entry)

lemma zero_page_entry: "page_entry (\<lambda>_. 0) h r v = 0"
  by (simp add: page_entry_def entry_def zero_tab zero_entry table_indices_def)

lemma demo_space: "space 0x200000 demo_hhdm 0x100000 (demo_state 2)"
  unfolding space_ok_def using demo_pool_frames demo_direct
  by (auto simp: demo_state_def zero_tab zero_entry entry_def in_bound_def split: if_splits)

lemma demo_kernel_half: "kernel_half 0x200000 demo_hhdm 0x1000 (demo_state 0)"
  unfolding kernel_half_def using demo_pool_frames demo_direct
  by (auto simp: demo_state_def zero_tab in_bound_def split: if_splits)

lemma demo_data: "data_at 0x200000 demo_hhdm 0x100000 (demo_state 2) 0x101000"
  using demo_pool_frames by (auto simp: data_frame_def demo_state_def zero_tab in_bound_def split: if_splits)

theorem map_user_page_view_witness:
  "\<exists>s' res. map_user_page (demo_state 2) 0x100000 demo_hhdm 0x400000 0x101000 6 = (s', res) \<and>
     space 0x200000 demo_hhdm 0x100000 s' \<and> user_view demo_hhdm 0x100000 s' 0x600000 = None \<and>
     user_view demo_hhdm 0x100000 s' 0x400123 = (if res = Ok () then Some 0 else None)"
proof -
  obtain s' res where call: "map_user_page (demo_state 2) 0x100000 demo_hhdm 0x400000 0x101000 6 = (s', res)"
    by (cases "map_user_page (demo_state 2) 0x100000 demo_hhdm 0x400000 0x101000 6")
  have "\<not> bit (page_entry (ps_mem (demo_state 2)) demo_hhdm 0x100000 0x400000) 0"
    by (simp add: demo_state_def zero_page_entry)
  note view = map_user_page_view [OF demo_space _ this demo_data _ call]
  show ?thesis
    using view [where w = "0x600000"] view [where w = "0x400123"] call
    by (auto simp: PAGE_ADDRESS_MASK_def same_page_as_def user_byte_def demo_state_def zero_page_entry)
qed

end
