(* ===== verification/UserPages.thy ===== *)
theory UserPages
  imports PageMap
begin

text \<open>
  Building up an address space page by page: taking a frame, clearing it, mapping it, and writing
  to it through the direct map.  Each lemma says what the step does to \<open>user_view\<close>, the bytes the
  process sees; \<open>sole_page\<close> is the bookkeeping that makes writes to one page leave the others alone.
\<close>

definition unmapped_frame :: "u64 \<Rightarrow> u64 \<Rightarrow> page_state \<Rightarrow> u64 \<Rightarrow> bool" where
  "unmapped_frame h r s f =
     (\<forall>w. unat w < 2 ^ 47 \<longrightarrow> bit (page_entry (ps_mem s) h r w) 0 \<longrightarrow> page_entry (ps_mem s) h r w AND PAGE_ADDRESS_MASK \<noteq> f)"

definition sole_page :: "u64 \<Rightarrow> u64 \<Rightarrow> page_state \<Rightarrow> u64 \<Rightarrow> u64 \<Rightarrow> bool" where
  "sole_page h r s page f =
     (bit (page_entry (ps_mem s) h r page) 0 \<and> page_entry (ps_mem s) h r page AND PAGE_ADDRESS_MASK = f \<and>
      (\<forall>w. unat w < 2 ^ 47 \<longrightarrow> bit (page_entry (ps_mem s) h r w) 0 \<longrightarrow>
        page_entry (ps_mem s) h r w AND PAGE_ADDRESS_MASK = f \<longrightarrow> same_page_as w page))"

lemma page_offset_less [simp]: "page_offset v < 4096"
  by (simp add: page_offset_def)

lemma user_view_None: "user_view h r s v = None \<longleftrightarrow> \<not> bit (page_entry (ps_mem s) h r v) 0"
  by (simp add: user_byte_def Let_def)

lemma sole_page_view:
  assumes "sole_page h r s page f" "same_page_as v page"
  shows "user_view h r s v = Some (ps_mem s (h + f + of_nat (page_offset v)))"
  using assms page_entry_cong [OF assms(2), of "ps_mem s" h r] by (simp add: user_byte_def sole_page_def Let_def)

lemma same_page_as_refl [simp]: "same_page_as v v"
  by (simp add: same_page_as_def)

lemma same_page_as_sym: "same_page_as v w \<Longrightarrow> same_page_as w v"
  by (simp add: same_page_as_def)

section \<open>Writing to a frame\<close>

lemma fill_view:
  assumes s: "space P h r s" and f: "data_at P h r s f" and v: "unat v < 2 ^ 47"
    and same: "\<And>x. in_bound P x \<Longrightarrow> x \<noteq> f \<Longrightarrow> same_page (ps_mem s) m' (h + x)"
    and other: "bit (page_entry (ps_mem s) h r v) 0 \<Longrightarrow> page_entry (ps_mem s) h r v AND PAGE_ADDRESS_MASK \<noteq> f"
  shows "user_view h r (s\<lparr>ps_mem := m'\<rparr>) v = user_view h r s v"
proof (cases "bit (page_entry (ps_mem s) h r v) 0")
  case True
  then have "in_bound P (page_entry (ps_mem s) h r v AND PAGE_ADDRESS_MASK)"
    using page_data [OF s v] by (simp add: data_frame_def)
  from same [OF this other [OF True]] show ?thesis
    using fill_frame(2) [OF s f same, of v] by (simp add: user_byte_def Let_def same_page_def page_offset_def)
next
  case False
  with fill_frame(2) [OF s f same, of v] show ?thesis
    by (simp add: user_byte_def)
qed

lemma frame_copy_same:
  assumes "space P h r s" "in_bound P f" "off + length bs \<le> 4096" "in_bound P x" "x \<noteq> f"
  shows "same_page (ps_mem s) (copy_bytes (ps_mem s) (h + f + of_nat off) bs) (h + x)"
  using assms space_direct [OF assms(1)] direct_aligned by (intro copy_bytes_within) auto

lemma write_frame:
  assumes s: "space P h r s" and f: "data_at P h r s f" and off: "off + length bs \<le> 4096"
  defines "s' \<equiv> s\<lparr>ps_mem := copy_bytes (ps_mem s) (h + f + of_nat off) bs\<rparr>"
  shows "space P h r s'" "page_entry (ps_mem s') h r v = page_entry (ps_mem s) h r v" "data_at P h r s' d = data_at P h r s d"
proof -
  have "in_bound P f" using f by (simp add: data_frame_def)
  note same = frame_copy_same [OF s this off]
  show "space P h r s'" "page_entry (ps_mem s') h r v = page_entry (ps_mem s) h r v" "data_at P h r s' d = data_at P h r s d"
    using fill_frame(1) [OF s f same] fill_frame(2) [OF s f same, of v] fill_frame(3) [OF s f same, of d]
    by (simp_all add: s'_def)
qed

lemma write_unmapped:
  assumes s: "space P h r s" and f: "data_at P h r s f" and off: "off + length bs \<le> 4096"
    and u: "unmapped_frame h r s f" and v: "unat v < 2 ^ 47"
  shows "user_view h r (s\<lparr>ps_mem := copy_bytes (ps_mem s) (h + f + of_nat off) bs\<rparr>) v = user_view h r s v"
proof (rule fill_view [OF s f v])
  show "same_page (ps_mem s) (copy_bytes (ps_mem s) (h + f + of_nat off) bs) (h + x)" if "in_bound P x" "x \<noteq> f" for x
    using f that by (intro frame_copy_same [OF s _ off]) (auto simp: data_frame_def)
qed (use u v in \<open>auto simp: unmapped_frame_def\<close>)

lemma sole_page_data:
  "space P h r s \<Longrightarrow> unat page < 2 ^ 47 \<Longrightarrow> sole_page h r s page f \<Longrightarrow> data_at P h r s f"
  using page_data by (fastforce simp: sole_page_def)

lemma write_page:
  assumes s: "space P h r s" and page: "unat page < 2 ^ 47" and sole: "sole_page h r s page f"
    and off: "off + length bs \<le> 4096"
  defines "s' \<equiv> s\<lparr>ps_mem := copy_bytes (ps_mem s) (h + f + of_nat off) bs\<rparr>"
  shows "space P h r s'" "sole_page h r s' p d = sole_page h r s p d"
    "unat v < 2 ^ 47 \<Longrightarrow> user_view h r s' v =
      (if same_page_as v page \<and> off \<le> page_offset v \<and> page_offset v < off + length bs
       then Some (bs ! (page_offset v - off)) else user_view h r s v)"
proof -
  note f = sole_page_data [OF s page sole]
  note w = write_frame [OF s f off, folded s'_def]
  show "space P h r s'" "sole_page h r s' p d = sole_page h r s p d"
    using w(1,2) by (simp_all add: sole_page_def)
  assume v: "unat v < 2 ^ 47"
  have fb: "in_bound P f" using f by (simp add: data_frame_def)
  show "user_view h r s' v = (if same_page_as v page \<and> off \<le> page_offset v \<and> page_offset v < off + length bs
       then Some (bs ! (page_offset v - off)) else user_view h r s v)"
  proof (cases "same_page_as v page")
    case True
    have "sole_page h r s' page f" using sole w(2) by (simp add: sole_page_def)
    from sole_page_view [OF this True] sole_page_view [OF sole True] show ?thesis
      using copy_bytes_nth [OF direct_aligned [OF _ fb], of h off bs "page_offset v" "ps_mem s"] space_direct [OF s] off True
      by (simp add: s'_def)
  next
    case False
    then have "user_view h r s' v = user_view h r s v"
      unfolding s'_def using sole v frame_copy_same [OF s fb off] by (intro fill_view [OF s f v]) (auto simp: sole_page_def)
    with False show ?thesis by simp
  qed
qed

section \<open>Mapping a new page\<close>

lemma fresh_frame:
  assumes s: "space P h r s" and a: "frame_allocate (ps_frames s) = (fa, Some f)"
  shows "unmapped_frame h r (s\<lparr>ps_frames := fa\<rparr>) f"
  using take_frame(4) [OF s a] page_data [OF s] by (auto simp: unmapped_frame_def)

lemma zero_frame:
  assumes s: "space P h r s" and f: "data_at P h r s f" "unmapped_frame h r s f"
  defines "s' \<equiv> s\<lparr>ps_mem := write_bytes (ps_mem s) (h + f) 0 4096\<rparr>"
  shows "space P h r s'" "data_at P h r s' d = data_at P h r s d" "page_entry (ps_mem s') h r x = page_entry (ps_mem s) h r x"
    "unat v < 2 ^ 47 \<Longrightarrow> user_view h r s' v = user_view h r s v" "i < 4096 \<Longrightarrow> ps_mem s' (h + f + of_nat i) = 0"
proof -
  have z: "s' = s\<lparr>ps_mem := copy_bytes (ps_mem s) (h + f + of_nat 0) (replicate 4096 0)\<rparr>"
    by (simp add: s'_def write_bytes_copy)
  have len: "0 + length (replicate 4096 (0 :: u8)) \<le> 4096" by simp
  note w = write_frame [OF s f(1) len, folded z]
  show "space P h r s'" "data_at P h r s' d = data_at P h r s d" "page_entry (ps_mem s') h r x = page_entry (ps_mem s) h r x"
    using w by simp_all
  show "unat v < 2 ^ 47 \<Longrightarrow> user_view h r s' v = user_view h r s v"
    using write_unmapped [OF s f(1) len f(2), of v] by (simp only: z)
  show "ps_mem s' (h + f + of_nat i) = 0" if "i < 4096"
    using that by (simp add: s'_def write_bytes_def unat_of_nat)
qed

lemma add_page:
  assumes s: "space P h r s" and page: "unat page < 2 ^ 47" "\<not> bit (page_entry (ps_mem s) h r page) 0"
    and f: "data_at P h r s f" "unmapped_frame h r s f" "\<And>i. i < 4096 \<Longrightarrow> ps_mem s (h + f + of_nat i) = 0"
    and flags: "flags AND PAGE_ADDRESS_MASK = 0" and call: "map_user_page s r h page f flags = (s', res)"
  shows "space P h r s'" "keeps P h r s s'"
    "res = Fail MapTableAllocationFailed \<and> no_frame s' \<or>
     res = Ok () \<and> sole_page h r s' page f
       \<and> (\<forall>v. unat v < 2 ^ 47 \<longrightarrow> user_view h r s' v = (if same_page_as v page then Some 0 else user_view h r s v))
       \<and> (\<forall>p d. unat p < 2 ^ 47 \<longrightarrow> sole_page h r s p d \<longrightarrow> sole_page h r s' p d)
       \<and> (\<forall>d. d \<noteq> f \<longrightarrow> unmapped_frame h r s d \<longrightarrow> unmapped_frame h r s' d)"
proof -
  note ok = map_user_page_ok [OF s page(1) f(1) flags call]
  show "space P h r s'" "keeps P h r s s'" by (fact ok)+
  have fb: "in_bound P f" "P \<le> 2 ^ 52"
    using f(1) space_direct [OF s] by (simp_all add: data_frame_def)
  let ?new = "mapped_entry (page_entry (ps_mem s) h r page) f flags"
  have new: "?new AND PAGE_ADDRESS_MASK = f" "bit ?new 0"
    using mapped_entry_frame [OF fb flags] page(2) by auto
  show "res = Fail MapTableAllocationFailed \<and> no_frame s' \<or>
     res = Ok () \<and> sole_page h r s' page f
       \<and> (\<forall>v. unat v < 2 ^ 47 \<longrightarrow> user_view h r s' v = (if same_page_as v page then Some 0 else user_view h r s v))
       \<and> (\<forall>p d. unat p < 2 ^ 47 \<longrightarrow> sole_page h r s p d \<longrightarrow> sole_page h r s' p d)
       \<and> (\<forall>d. d \<noteq> f \<longrightarrow> unmapped_frame h r s d \<longrightarrow> unmapped_frame h r s' d)"
  proof (cases "res = Ok ()")
    case True
    then have e: "page_entry (ps_mem s') h r w = (if same_page_as w page then ?new else page_entry (ps_mem s) h r w)"
      if "unat w < 2 ^ 47" for w
      using ok(3) that by auto
    have sole: "sole_page h r s' page f"
      unfolding sole_page_def using e new f(2) page(1) by (auto simp: unmapped_frame_def)
    have view: "user_view h r s' v = (if same_page_as v page then Some 0 else user_view h r s v)" if v: "unat v < 2 ^ 47" for v
    proof (cases "same_page_as v page")
      case True
      have "same_page (ps_mem s) (ps_mem s') (h + f)"
        using ok(2) f(1) by (simp add: keeps_def)
      with sole_page_view [OF sole True] f(3) True show ?thesis
        by (simp add: same_page_def)
    next
      case False
      with keeps_view [OF s ok(2) v] e [OF v] show ?thesis by simp
    qed
    have "sole_page h r s' p d" if p: "unat p < 2 ^ 47" "sole_page h r s p d" for p d
    proof -
      have "\<not> same_page_as p page"
        using p(2) page(2) page_entry_cong [of p page "ps_mem s" h r] by (auto simp: sole_page_def)
      moreover have "d \<noteq> f"
        using p f(2) by (auto simp: sole_page_def unmapped_frame_def)
      ultimately show ?thesis
        using p e new(1) unfolding sole_page_def by auto
    qed
    moreover have "unmapped_frame h r s' d" if "d \<noteq> f" "unmapped_frame h r s d" for d
      using that e new unfolding unmapped_frame_def by auto
    ultimately show ?thesis
      using True sole view by blast
  qed (use ok(3) in auto)
qed

text \<open>Mapping the page again only adds flags.\<close>

lemma remap_page:
  assumes s: "space P h r s" and page: "unat page < 2 ^ 47" and sole: "sole_page h r s page f"
    and flags: "flags AND PAGE_ADDRESS_MASK = 0" and call: "map_user_page s r h page f flags = (s', res)"
  shows "space P h r s' \<and> (res = Fail MapTableAllocationFailed \<and> no_frame s' \<or>
     res = Ok () \<and> sole_page h r s' page f \<and> (\<forall>v. unat v < 2 ^ 47 \<longrightarrow> user_view h r s' v = user_view h r s v))"
proof -
  note f = sole_page_data [OF s page sole]
  note ok = map_user_page_ok [OF s page f flags call]
  have fb: "in_bound P f" "P \<le> 2 ^ 52"
    using f space_direct [OF s] by (simp_all add: data_frame_def)
  let ?old = "page_entry (ps_mem s) h r page"
  let ?new = "mapped_entry ?old f flags"
  have new: "?new AND PAGE_ADDRESS_MASK = f" "bit ?new 0"
    using mapped_entry_frame [OF fb flags] sole by (auto simp: sole_page_def)
  show ?thesis
  proof (cases "res = Ok ()")
    case True
    then have e: "page_entry (ps_mem s') h r w = (if same_page_as w page then ?new else page_entry (ps_mem s) h r w)"
      if "unat w < 2 ^ 47" for w
      using ok(3) that by auto
    have sole': "sole_page h r s' page f"
      using e new sole page unfolding sole_page_def by auto
    have "user_view h r s' v = user_view h r s v" if v: "unat v < 2 ^ 47" for v
    proof (cases "same_page_as v page")
      case True
      have "same_page (ps_mem s) (ps_mem s') (h + f)"
        using ok(2) f by (simp add: keeps_def)
      with sole_page_view [OF sole' True] sole_page_view [OF sole True] show ?thesis
        by (simp add: same_page_def)
    next
      case False
      with keeps_view [OF s ok(2) v] e [OF v] show ?thesis by simp
    qed
    with True sole' ok(1) show ?thesis by blast
  qed (use ok in auto)
qed

end
