(* ===== verification/Loader.thy ===== *)
theory Loader
  imports Vfs UserPages
begin

text \<open>
  The program loader: the part of \<^verbatim>\<open>src/kernel/src/init_exec.rs\<close> that turns a prepared executable
  into an address space.

  \<open>build_activation\<close> moves the load plan of \<open>Vfs\<close> to the user half and cuts the file into
  segments.  \<open>map_segment_pages\<close> allocates, clears and maps the pages of a segment and copies the
  bytes of the file into them; the loop state is \<open>load_state\<close>: memory and frames, and the page that
  was mapped last, which the next segment may share.  \<open>user_view\<close> of \<open>PageMap\<close>, the byte the
  processor finds at a user address, is what the lemmas are about.
\<close>

section \<open>Errors and images\<close>

datatype init_exec_error = Load executable_load_prep_error | BytesUnavailable | UnsupportedFormat
  | MissingEntryPoint | MissingImageType | MissingMachine | NoLoadSegments | NoExecutableSegments
  | EntryOutsideExecutableSegments | InvalidSegmentMap

record activated_segment =
  as_index :: nat
  as_virtual_start :: u64
  as_virtual_end :: u64
  as_map_start :: u64
  as_map_end :: u64
  as_file_bytes :: u64
  as_memory_bytes :: u64
  as_readable :: bool
  as_writable :: bool
  as_executable :: bool
  as_bytes :: bytes

record activated_init_image =
  ai_path :: string
  ai_format :: executable_format
  ai_image_type :: u16
  ai_machine :: u16
  ai_entry_point :: u64
  ai_vm_start :: u64
  ai_vm_end :: u64
  ai_total_bytes :: u64
  ai_zero_fill_bytes :: u64
  ai_entry_segment_index :: nat
  ai_entry_segment_map_offset :: u64
  ai_ph_addr :: u64
  ai_ph_num :: u64
  ai_segments :: "activated_segment list"

section \<open>Building an activation\<close>

definition USER_SPACE_BASE :: u64 where "USER_SPACE_BASE = 0x0000000000400000"
definition USER_SPACE_LIMIT :: u64 where "USER_SPACE_LIMIT = 0x0000800000000000"

text \<open>\<^verbatim>\<open>user_load_base.checked_add(address.checked_sub(orig_vm_start)?)?\<close>\<close>

definition relocate :: "u64 \<Rightarrow> u64 \<Rightarrow> u64 \<Rightarrow> (init_exec_error, u64) outcome" where
  "relocate user_load_base orig_vm_start address =
     and_then (ok_or (checked_sub address orig_vm_start) InvalidSegmentMap) (\<lambda>offset.
     ok_or (checked_add user_load_base offset) InvalidSegmentMap)"

text \<open>The bytes of a segment in the file; the sum of offset and length is a machine addition.\<close>

definition segment_file_bytes :: "bytes \<Rightarrow> vm_map_plan_entry \<Rightarrow> (init_exec_error, bytes) outcome" where
  "segment_file_bytes file segment =
     (let file_end = unat (vm_file_offset segment + vm_file_bytes segment)
      in if file_end \<le> length file then
           and_then (slice_at file (unat (vm_file_offset segment)) file_end) (\<lambda>bs.
           if vm_file_bytes segment \<noteq> of_nat (length bs) then Fail InvalidSegmentMap else Ok bs)
         else Fail InvalidSegmentMap)"

record entry_search =
  es_has_executable :: bool
  es_index :: "nat option"
  es_map_offset :: u64

definition activate_segment ::
  "bytes \<Rightarrow> u64 \<Rightarrow> u64 \<Rightarrow> u64 \<Rightarrow> vm_map_plan_entry \<Rightarrow> entry_search \<Rightarrow>
   (init_exec_error, activated_segment \<times> entry_search) outcome" where
  "activate_segment file orig_vm_start user_load_base entry_point segment es =
     and_then (segment_file_bytes file segment) (\<lambda>segment_bytes.
     and_then (relocate user_load_base orig_vm_start (vm_map_start segment)) (\<lambda>user_map_start.
     and_then (ok_or (checked_add user_map_start (vm_map_end segment - vm_map_start segment)) InvalidSegmentMap) (\<lambda>user_map_end.
     and_then (relocate user_load_base orig_vm_start (vm_virtual_start segment)) (\<lambda>user_virtual_start.
     and_then (relocate user_load_base orig_vm_start (vm_virtual_end segment)) (\<lambda>user_virtual_end.
     and_then (if \<not> vm_executable segment then Ok es
       else if vm_virtual_start segment \<le> entry_point \<and> entry_point < vm_virtual_end segment then
         and_then (ok_or (checked_sub entry_point (vm_map_start segment)) InvalidSegmentMap) (\<lambda>offset.
         Ok \<lparr>es_has_executable = True, es_index = Some (vm_index segment), es_map_offset = offset\<rparr>)
       else Ok (es\<lparr>es_has_executable := True\<rparr>)) (\<lambda>es.
     Ok (\<lparr>as_index = vm_index segment, as_virtual_start = user_virtual_start, as_virtual_end = user_virtual_end,
          as_map_start = user_map_start, as_map_end = user_map_end, as_file_bytes = vm_file_bytes segment,
          as_memory_bytes = vm_memory_bytes segment, as_readable = vm_readable segment,
          as_writable = vm_writable segment, as_executable = vm_executable segment,
          as_bytes = segment_bytes\<rparr>, es)))))))"

fun activate_segments ::
  "bytes \<Rightarrow> u64 \<Rightarrow> u64 \<Rightarrow> u64 \<Rightarrow> vm_map_plan_entry list \<Rightarrow> entry_search \<Rightarrow>
   (init_exec_error, activated_segment list \<times> entry_search) outcome" where
  "activate_segments file orig base entry_point [] es = Ok ([], es)"
| "activate_segments file orig base entry_point (segment # rest) es =
     and_then (activate_segment file orig base entry_point segment es) (\<lambda>(g, es).
     and_then (activate_segments file orig base entry_point rest es) (\<lambda>(gs, es).
     Ok (g # gs, es)))"

definition build_activation ::
  "executable_load_prep \<Rightarrow> bytes \<Rightarrow> (init_exec_error, activated_init_image) outcome" where
  "build_activation img file =
     (if ec_format img \<noteq> FormatElf then Fail UnsupportedFormat else
      and_then (ok_or (lp_entry_point img) MissingEntryPoint) (\<lambda>entry_point.
      and_then (ok_or (lp_image_type img) MissingImageType) (\<lambda>image_type.
      and_then (ok_or (lp_machine img) MissingMachine) (\<lambda>machine.
      let entries = lt_vm_map_entries (lp_totals img)
      in if entries = [] then Fail NoLoadSegments else
      let orig_vm_start = fold (\<lambda>segment least. min least (vm_map_start segment)) entries (- 1);
          orig_vm_end = fold (\<lambda>segment greatest. max greatest (vm_map_end segment)) entries 0;
          user_load_base = (if orig_vm_start < USER_SPACE_LIMIT then orig_vm_start else USER_SPACE_BASE)
      in and_then (activate_segments file orig_vm_start user_load_base entry_point entries
            \<lparr>es_has_executable = False, es_index = None, es_map_offset = 0\<rparr>) (\<lambda>(segments, es).
      if \<not> es_has_executable es then Fail NoExecutableSegments else
      and_then (ok_or (es_index es) EntryOutsideExecutableSegments) (\<lambda>entry_segment_index.
      and_then (relocate user_load_base orig_vm_start entry_point) (\<lambda>user_entry.
      and_then (ok_or (checked_sub orig_vm_end orig_vm_start) InvalidSegmentMap) (\<lambda>vm_size.
      and_then (ok_or (checked_add user_load_base vm_size) InvalidSegmentMap) (\<lambda>user_vm_end.
      Ok \<lparr>ai_path = ec_path img, ai_format = ec_format img, ai_image_type = image_type, ai_machine = machine,
          ai_entry_point = user_entry, ai_vm_start = user_load_base, ai_vm_end = user_vm_end,
          ai_total_bytes = lt_vm_map_total_bytes (lp_totals img),
          ai_zero_fill_bytes = lt_vm_map_zero_fill_bytes (lp_totals img),
          ai_entry_segment_index = entry_segment_index, ai_entry_segment_map_offset = es_map_offset es,
          ai_ph_addr = user_load_base + 64, ai_ph_num = of_nat (lp_program_header_count img),
          ai_segments = segments\<rparr>))))))))) "

section \<open>Loading the segments\<close>

record load_state =
  ls_pages :: page_state
  ls_last_page :: "u64 option"
  ls_last_phys :: "u64 option"

text \<open>Calls of the frame allocator and the page tables, with \<^verbatim>\<open>map_err(|_| InvalidSegmentMap)\<close>.\<close>

definition on_pages :: "load_state \<Rightarrow> 'a mapping_step \<Rightarrow> load_state \<times> (init_exec_error, 'a) outcome" where
  "on_pages s r = (s\<lparr>ls_pages := fst r\<rparr>, map_err (\<lambda>_. InvalidSegmentMap) (snd r))"

definition segment_frame :: "load_state \<Rightarrow> u64 \<Rightarrow> u64 \<Rightarrow> load_state \<times> (init_exec_error, u64) outcome" where
  "segment_frame s hhdm_offset page =
     (if Some page = ls_last_page s then
        (s, case ls_last_phys s of None \<Rightarrow> Abort | Some phys \<Rightarrow> Ok phys)
      else
        st_then (on_pages s (alloc_frame (ls_pages s))) (\<lambda>s new_phys.
        st_then (on_pages s (ls_pages s, direct_map hhdm_offset new_phys)) (\<lambda>s virt.
        let m = write_bytes (ps_mem (ls_pages s)) virt 0 (unat PAGE_SIZE)
        in (s\<lparr>ls_pages := (ls_pages s)\<lparr>ps_mem := m\<rparr>, ls_last_page := Some page, ls_last_phys := Some new_phys\<rparr>,
            Ok new_phys))))"

definition copy_file_part ::
  "load_state \<Rightarrow> activated_segment \<Rightarrow> u64 \<Rightarrow> u64 \<Rightarrow> u64 \<Rightarrow> u64 \<Rightarrow> load_state" where
  "copy_file_part s segment virt page page_end file_end =
     (let file_start = as_virtual_start segment;
          copy_start = max page file_start;
          copy_end = min page_end file_end
      in if copy_start < copy_end then
           let part = slice (as_bytes segment) (unat (copy_start - file_start)) (unat (copy_end - file_start))
           in s\<lparr>ls_pages := (ls_pages s)\<lparr>ps_mem := copy_bytes (ps_mem (ls_pages s)) (virt + (copy_start - page)) part\<rparr>\<rparr>
         else s)"

definition map_segment_page ::
  "activated_segment \<Rightarrow> u64 \<Rightarrow> u64 \<Rightarrow> u64 \<Rightarrow> u64 \<Rightarrow> load_state \<Rightarrow> u64 \<Rightarrow> load_state \<times> (init_exec_error, u64) outcome" where
  "map_segment_page segment user_pml4 hhdm_offset flags file_end s page =
     st_then (segment_frame s hhdm_offset page) (\<lambda>s phys.
     st_then (on_pages s (map_user_region (ls_pages s) user_pml4 hhdm_offset page phys (unat PAGE_SIZE) flags)) (\<lambda>s _.
     st_then (on_pages s (ls_pages s, direct_map hhdm_offset phys)) (\<lambda>s virt.
     st_then (s, ok_or (checked_add page PAGE_SIZE) InvalidSegmentMap) (\<lambda>s page_end.
     (copy_file_part s segment virt page page_end file_end, Ok page_end)))))"

lemma map_segment_page_next:
  "map_segment_page segment r h flags fe s page = (s', Ok page_end) \<Longrightarrow>
    page_end = page + 4096 \<and> unat page_end = unat page + 4096"
  by (auto simp: map_segment_page_def st_then_Inr ok_or_Inr checked_add_Some PAGE_SIZE_def unat_word_ariths)

function map_segment_loop ::
  "activated_segment \<Rightarrow> u64 \<Rightarrow> u64 \<Rightarrow> u64 \<Rightarrow> u64 \<Rightarrow> load_state \<Rightarrow> u64 \<Rightarrow> load_state \<times> (init_exec_error, unit) outcome" where
  "map_segment_loop segment user_pml4 hhdm_offset flags file_end s page =
     (if page < as_map_end segment then
        st_then (map_segment_page segment user_pml4 hhdm_offset flags file_end s page) (\<lambda>s page_end.
        map_segment_loop segment user_pml4 hhdm_offset flags file_end s page_end)
      else (s, Ok ()))"
  by pat_completeness auto
termination
  by (relation "measure (\<lambda>(segment, _, _, _, _, _, page). 2 ^ 64 - unat page)")
    (use unat_u64_less in \<open>auto dest!: map_segment_page_next intro!: diff_less_mono2\<close>)

declare map_segment_loop.simps [simp del]

definition map_segment_pages ::
  "load_state \<Rightarrow> activated_segment \<Rightarrow> u64 \<Rightarrow> u64 \<Rightarrow> u64 \<Rightarrow> load_state \<times> (init_exec_error, unit) outcome" where
  "map_segment_pages s segment user_pml4 hhdm_offset flags =
     st_then (s, ok_or (checked_add (as_virtual_start segment) (of_nat (length (as_bytes segment)))) InvalidSegmentMap) (\<lambda>s file_end.
     map_segment_loop segment user_pml4 hhdm_offset flags file_end s (as_map_start segment))"

text \<open>The loop over the segments, in \<^verbatim>\<open>spawn_executable\<close> and \<^verbatim>\<open>spawn_init_process\<close>.\<close>

definition segment_flags :: "activated_segment \<Rightarrow> u64" where
  "segment_flags segment =
     (if as_writable segment then FLAG_USER_ACCESSIBLE OR FLAG_WRITABLE else FLAG_USER_ACCESSIBLE)"

fun load_segments ::
  "load_state \<Rightarrow> u64 \<Rightarrow> u64 \<Rightarrow> activated_segment list \<Rightarrow> load_state \<times> (init_exec_error, unit) outcome" where
  "load_segments s user_pml4 hhdm_offset [] = (s, Ok ())"
| "load_segments s user_pml4 hhdm_offset (segment # rest) =
     st_then (map_segment_pages s segment user_pml4 hhdm_offset (segment_flags segment)) (\<lambda>s _.
     load_segments s user_pml4 hhdm_offset rest)"

section \<open>What a segment leaves in memory\<close>

definition in_segment :: "activated_segment \<Rightarrow> u64 \<Rightarrow> bool" where
  "in_segment g v = (as_map_start g \<le> v \<and> v < as_map_end g)"

definition file_byte :: "activated_segment \<Rightarrow> u64 \<Rightarrow> u8 option" where
  "file_byte g v =
     (if unat (as_virtual_start g) \<le> unat v \<and> unat v < unat (as_virtual_start g) + length (as_bytes g)
      then Some (as_bytes g ! (unat v - unat (as_virtual_start g))) else None)"

text \<open>
  Over what was there before: the bytes of the file, elsewhere in the pages of the segment the
  bytes of a shared page or zero, outside them no change.
\<close>

definition overlay :: "(u64 \<Rightarrow> bool) \<Rightarrow> activated_segment \<Rightarrow> (u64 \<Rightarrow> u8 option) \<Rightarrow> u64 \<Rightarrow> u8 option" where
  "overlay pages g w v =
     (if pages v then
        (case file_byte g v of Some b \<Rightarrow> Some b | None \<Rightarrow> (case w v of Some b \<Rightarrow> Some b | None \<Rightarrow> Some 0))
      else w v)"

definition last_ok :: "u64 \<Rightarrow> u64 \<Rightarrow> load_state \<Rightarrow> bool" where
  "last_ok h r s =
     (\<forall>page. ls_last_page s = Some page \<longrightarrow> page_aligned page \<and> unat page < 2 ^ 47 \<and>
       (\<exists>f. ls_last_phys s = Some f \<and> sole_page h r (ls_pages s) page f))"

abbreviation loaded_view :: "u64 \<Rightarrow> u64 \<Rightarrow> load_state \<Rightarrow> u64 \<Rightarrow> u8 option" where
  "loaded_view h r s \<equiv> user_view h r (ls_pages s)"

lemma on_pages_simps [simp]:
  "on_pages s (p, Ok x) = (s\<lparr>ls_pages := p\<rparr>, Ok x)" "on_pages s (p, Fail e) = (s\<lparr>ls_pages := p\<rparr>, Fail InvalidSegmentMap)"
  by (simp_all add: on_pages_def)

text \<open>A page of a segment, before its bytes are copied: mapped, and cleared unless it is shared.\<close>

definition page_ready :: "nat \<Rightarrow> u64 \<Rightarrow> u64 \<Rightarrow> load_state \<Rightarrow> u64 \<Rightarrow> load_state \<Rightarrow> u64 \<Rightarrow> bool" where
  "page_ready P h r s page s' f =
     (space P h r (ls_pages s') \<and> ls_last_page s' = Some page \<and> ls_last_phys s' = Some f \<and> sole_page h r (ls_pages s') page f \<and>
      (\<forall>v. unat v < 2 ^ 47 \<longrightarrow> loaded_view h r s' v =
        (if same_page_as v page then Some (case loaded_view h r s v of None \<Rightarrow> 0 | Some b \<Rightarrow> b) else loaded_view h r s v)))"

lemma shared_page_ready:
  assumes s: "space P h r (ls_pages s)" and last: "last_ok h r s" "ls_last_page s = Some page"
    and flags: "flags AND PAGE_ADDRESS_MASK = 0" and f: "segment_frame s h page = (s1, Ok f)"
    and call: "map_user_page (ls_pages s1) r h page f flags = (s2, res)"
  shows "space P h r s2 \<and> (res = Fail MapTableAllocationFailed \<and> no_frame s2 \<or> res = Ok () \<and> page_ready P h r s page (s1\<lparr>ls_pages := s2\<rparr>) f)"
proof -
  have s1: "s1 = s" and phys: "ls_last_phys s = Some f" and sole: "sole_page h r (ls_pages s) page f" and page: "unat page < 2 ^ 47"
    using last f by (auto simp: segment_frame_def last_ok_def)
  have present: "Some (case loaded_view h r s v of None \<Rightarrow> 0 | Some b \<Rightarrow> b) = loaded_view h r s v" if "same_page_as v page" for v
    using sole_page_view [OF sole that] by simp
  from remap_page [OF s page sole flags call [unfolded s1]] show ?thesis
    using s1 phys last(2) present by (auto simp: page_ready_def)
qed

lemma segment_frame_new:
  assumes s: "space P h r (ls_pages s)" and new: "ls_last_page s \<noteq> Some page" and call: "segment_frame s h page = (s1, res)"
  shows "space P h r (ls_pages s1) \<and>
    (res = Fail InvalidSegmentMap \<and> no_frame (ls_pages s1) \<or>
     (\<exists>f. res = Ok f \<and> data_at P h r (ls_pages s1) f \<and> unmapped_frame h r (ls_pages s1) f
        \<and> ls_last_page s1 = Some page \<and> ls_last_phys s1 = Some f
        \<and> (\<forall>i < 4096. ps_mem (ls_pages s1) (h + f + of_nat i) = 0)
        \<and> (\<forall>v. page_entry (ps_mem (ls_pages s1)) h r v = page_entry (ps_mem (ls_pages s)) h r v)
        \<and> (\<forall>v. unat v < 2 ^ 47 \<longrightarrow> loaded_view h r s1 v = loaded_view h r s v)))"
proof (cases "frame_allocate (ps_frames (ls_pages s))")
  case (Pair fa f)
  show ?thesis
  proof (cases f)
    case None
    then have "fa = ps_frames (ls_pages s)"
      using Pair by (auto simp: frame_allocate_is_contiguous frame_contiguous_None)
    with Pair None call new s show ?thesis
      by (auto simp: segment_frame_def alloc_frame_def)
  next
    case (Some d)
    let ?s = "(ls_pages s)\<lparr>ps_frames := fa\<rparr>"
    have a: "frame_allocate (ps_frames (ls_pages s)) = (fa, Some d)" using Pair Some by simp
    note t = take_frame [OF s a] and u = fresh_frame [OF s a]
    note z = zero_frame [OF t(1,2) u]
    have "in_bound P d" using t(2) by (simp add: data_frame_def)
    then have "direct_map h d = Ok (h + d)"
      using direct_map_ok space_direct [OF s] by blast
    then have "res = Ok d" "s1 = s\<lparr>ls_pages := ?s\<lparr>ps_mem := write_bytes (ps_mem ?s) (h + d) 0 4096\<rparr>,
        ls_last_page := Some page, ls_last_phys := Some d\<rparr>"
      using call new a by (auto simp: segment_frame_def alloc_frame_def PAGE_SIZE_def)
    then show ?thesis
      using z t(2) u by (auto simp: unmapped_frame_def user_byte_def)
  qed
qed

lemma new_page_ready:
  assumes s: "space P h r (ls_pages s)" and new: "ls_last_page s \<noteq> Some page" and page: "unat page < 2 ^ 47"
    and absent: "loaded_view h r s page = None"
    and flags: "flags AND PAGE_ADDRESS_MASK = 0" and f: "segment_frame s h page = (s1, Ok f)"
    and call: "map_user_page (ls_pages s1) r h page f flags = (s2, res)"
  shows "space P h r s2 \<and> (res = Fail MapTableAllocationFailed \<and> no_frame s2 \<or> res = Ok () \<and> page_ready P h r s page (s1\<lparr>ls_pages := s2\<rparr>) f)"
proof -
  from segment_frame_new [OF s new f] have s1: "space P h r (ls_pages s1)" and d: "data_at P h r (ls_pages s1) f" "unmapped_frame h r (ls_pages s1) f"
    and last: "ls_last_page s1 = Some page" "ls_last_phys s1 = Some f"
    and zero: "\<And>i. i < 4096 \<Longrightarrow> ps_mem (ls_pages s1) (h + f + of_nat i) = 0"
    and same: "\<And>v. page_entry (ps_mem (ls_pages s1)) h r v = page_entry (ps_mem (ls_pages s)) h r v"
    and view: "\<And>v. unat v < 2 ^ 47 \<Longrightarrow> loaded_view h r s1 v = loaded_view h r s v"
    by auto
  have e: "\<not> bit (page_entry (ps_mem (ls_pages s1)) h r page) 0"
    using absent same by (simp add: user_view_None)
  note add = add_page [OF s1 page e d zero flags call]
  have none: "loaded_view h r s v = None" if "same_page_as v page" for v
    using absent page_entry_cong [OF that] by (simp add: user_view_None)
  from add(1,3) show ?thesis
    using last view none by (auto simp: page_ready_def)
qed

lemma page_as_offset:
  assumes "page_aligned page" "same_page_as v page"
  shows "unat v = unat page + page_offset v"
  using assms by (auto simp: same_page_as_def page_offset_def elim!: dvdE)

lemma copy_file_part_ok:
  assumes s: "space P h r (ls_pages s)" and page: "page_aligned page" "unat page + 4096 \<le> 2 ^ 47"
    and sole: "sole_page h r (ls_pages s) page f"
    and room: "unat (as_virtual_start g) + length (as_bytes g) < 2 ^ 64"
  defines "s' \<equiv> copy_file_part s g (h + f) page (page + 4096) (as_virtual_start g + of_nat (length (as_bytes g)))"
  shows "space P h r (ls_pages s')" "sole_page h r (ls_pages s') p d = sole_page h r (ls_pages s) p d"
    "ls_last_page s' = ls_last_page s" "ls_last_phys s' = ls_last_phys s"
    "unat v < 2 ^ 47 \<Longrightarrow> loaded_view h r s' v =
      (if same_page_as v page \<and> file_byte g v \<noteq> None then file_byte g v else loaded_view h r s v)"
proof -
  let ?fs = "as_virtual_start g" and ?n = "length (as_bytes g)"
  let ?cs = "max page ?fs" and ?ce = "min (page + 4096) (?fs + of_nat ?n)"
  have pe: "unat (page + 4096) = unat page + 4096" and fe: "unat (?fs + of_nat ?n) = unat ?fs + ?n"
    using page room by (simp_all add: unat_word_ariths unat_of_nat)
  have cs: "unat ?cs = max (unat page) (unat ?fs)" and ce: "unat ?ce = min (unat page + 4096) (unat ?fs + ?n)"
    using pe fe by (simp_all add: max_def min_def word_le_nat_alt)
  have lt: "?cs < ?ce \<longleftrightarrow> max (unat page) (unat ?fs) < min (unat page + 4096) (unat ?fs + ?n)"
    unfolding word_less_nat_alt cs ce by simp
  have "space P h r (ls_pages s') \<and> sole_page h r (ls_pages s') p d = sole_page h r (ls_pages s) p d \<and>
        ls_last_page s' = ls_last_page s \<and> ls_last_phys s' = ls_last_phys s \<and> (unat v < 2 ^ 47 \<longrightarrow> loaded_view h r s' v =
        (if same_page_as v page \<and> file_byte g v \<noteq> None then file_byte g v else loaded_view h r s v))"
  proof (cases "?cs < ?ce")
    case False
    have "file_byte g v = None" if "same_page_as v page"
      using False page_as_offset [OF page(1) that] page_offset_less [of v] unfolding lt
      by (auto simp: file_byte_def simp del: page_offset_less)
    with False s show ?thesis
      by (auto simp: s'_def copy_file_part_def Let_def)
  next
    case True
    let ?part = "slice (as_bytes g) (unat (?cs - ?fs)) (unat (?ce - ?fs))" and ?off = "unat (?cs - page)"
    from True have m: "max (unat page) (unat ?fs) < min (unat page + 4096) (unat ?fs + ?n)" by (simp only: lt)
    have le: "page \<le> ?cs" "?fs \<le> ?cs" "?fs \<le> ?ce"
      using m unfolding word_le_nat_alt cs ce by auto
    have u: "?off = max (unat page) (unat ?fs) - unat page" "unat (?cs - ?fs) = max (unat page) (unat ?fs) - unat ?fs"
        "unat (?ce - ?fs) = min (unat page + 4096) (unat ?fs + ?n) - unat ?fs"
      using le by (simp_all only: unat_sub cs ce)
    have len: "length ?part = min (unat page + 4096) (unat ?fs + ?n) - max (unat page) (unat ?fs)"
      using m unfolding u by (subst length_slice) auto
    have fit: "?off + length ?part \<le> 4096"
      using m unfolding len u(1) by auto
    have page47: "unat page < 2 ^ 47" using page(2) by simp
    note w = write_page [OF s page47 sole fit]
    have s': "ls_pages s' = (ls_pages s)\<lparr>ps_mem := copy_bytes (ps_mem (ls_pages s)) (h + f + of_nat ?off) ?part\<rparr>"
        "ls_last_page s' = ls_last_page s" "ls_last_phys s' = ls_last_phys s"
      using True by (simp_all add: s'_def copy_file_part_def Let_def)
    have "loaded_view h r s' v = (if same_page_as v page \<and> file_byte g v \<noteq> None then file_byte g v else loaded_view h r s v)"
      if v: "unat v < 2 ^ 47"
    proof (cases "same_page_as v page")
      case True
      have uv: "unat v = unat page + page_offset v" by (rule page_as_offset [OF page(1) True])
      have hit: "?off \<le> page_offset v \<and> page_offset v < ?off + length ?part \<longleftrightarrow> file_byte g v \<noteq> None"
        using m page_offset_less [of v] unfolding len u(1) file_byte_def uv by (auto simp del: page_offset_less)
      have "?part ! (page_offset v - ?off) = as_bytes g ! (unat v - unat ?fs)"
        if "?off \<le> page_offset v" "page_offset v < ?off + length ?part"
        using that m unfolding len u(1) uv
        by (subst nth_slice) (auto simp: u intro!: arg_cong [where f = "nth (as_bytes g)"])
      then show ?thesis
        using w(3) [OF v] hit True unfolding s'(1) by (auto simp: file_byte_def)
    qed (use w(3) [OF v] s'(1) in auto)
    with w(1,2) s' show ?thesis
      by simp
  qed
  then show "space P h r (ls_pages s')" "sole_page h r (ls_pages s') p d = sole_page h r (ls_pages s) p d"
    "ls_last_page s' = ls_last_page s" "ls_last_phys s' = ls_last_phys s"
    "unat v < 2 ^ 47 \<Longrightarrow> loaded_view h r s' v =
      (if same_page_as v page \<and> file_byte g v \<noteq> None then file_byte g v else loaded_view h r s v)"
    by simp_all
qed

section \<open>Loading\<close>

text \<open>A failure of the loader: the frames are used up.\<close>

definition out_of_memory :: "load_state \<Rightarrow> (init_exec_error, 'a) outcome \<Rightarrow> bool" where
  "out_of_memory s res = (res = Fail InvalidSegmentMap \<and> no_frame (ls_pages s))"

lemma map_segment_page_ok:
  assumes s: "space P h r (ls_pages s)" and last: "last_ok h r s"
    and page: "page_aligned page" "unat page + 4096 \<le> 2 ^ 47"
    and free: "ls_last_page s \<noteq> Some page \<Longrightarrow> loaded_view h r s page = None"
    and room: "unat (as_virtual_start g) + length (as_bytes g) < 2 ^ 64"
    and flags: "flags AND PAGE_ADDRESS_MASK = 0"
    and call: "map_segment_page g r h flags (as_virtual_start g + of_nat (length (as_bytes g))) s page = (s', res)"
  shows "space P h r (ls_pages s') \<and> (out_of_memory s' res \<or>
    res = Ok (page + 4096) \<and> last_ok h r s' \<and> ls_last_page s' = Some page \<and>
    (\<forall>v. unat v < 2 ^ 47 \<longrightarrow> loaded_view h r s' v = overlay (\<lambda>v. same_page_as v page) g (loaded_view h r s) v))"
proof -
  have page47: "unat page < 2 ^ 47" using page(2) by simp
  obtain s1 r1 where frame: "segment_frame s h page = (s1, r1)" by (cases "segment_frame s h page")
  show ?thesis
  proof (cases "\<exists>f. r1 = Ok f")
    case False
    with last frame have "ls_last_page s \<noteq> Some page"
      by (auto simp: segment_frame_def last_ok_def)
    with segment_frame_new [OF s this frame] False call frame show ?thesis
      by (auto simp: map_segment_page_def out_of_memory_def)
  next
    case True
    then obtain f where f: "segment_frame s h page = (s1, Ok f)" using frame by blast
    obtain s2 r2 where map: "map_user_page (ls_pages s1) r h page f flags = (s2, r2)"
      by (cases "map_user_page (ls_pages s1) r h page f flags")
    have ready: "space P h r s2 \<and> (r2 = Fail MapTableAllocationFailed \<and> no_frame s2 \<or>
        r2 = Ok () \<and> page_ready P h r s page (s1\<lparr>ls_pages := s2\<rparr>) f)"
      using shared_page_ready [OF s last _ flags f map] new_page_ready [OF s _ page47 free flags f map] by blast
    have "data_at P h r (ls_pages s1) f"
    proof (cases "ls_last_page s = Some page")
      case True
      with f last sole_page_data [OF s page47] show ?thesis by (auto simp: segment_frame_def last_ok_def)
    next
      case False
      with segment_frame_new [OF s False f] show ?thesis by simp
    qed
    then have fb: "in_bound P f" by (simp add: data_frame_def)
    then have region: "map_user_region (ls_pages s1) r h page f 4096 flags = (s2, r2)"
      using map_user_region_page [OF page(1)] map by (simp add: in_bound_def)
    have virt: "direct_map h f = Ok (h + f)"
      using direct_map_ok space_direct [OF s] fb by blast
    have next_page: "checked_add page 4096 = Some (page + 4096)"
      using page(2) by (simp add: checked_add_def)
    from ready show ?thesis
    proof (elim conjE disjE)
      assume "space P h r s2" "r2 = Fail MapTableAllocationFailed" "no_frame s2"
      then show ?thesis
        using call f region by (auto simp: map_segment_page_def PAGE_SIZE_def out_of_memory_def)
    next
      let ?s = "s1\<lparr>ls_pages := s2\<rparr>" and ?fe = "as_virtual_start g + of_nat (length (as_bytes g))"
      assume r2: "r2 = Ok ()" and pr: "page_ready P h r s page ?s f"
      then have sole: "space P h r (ls_pages ?s)" "sole_page h r (ls_pages ?s) page f"
        by (simp_all add: page_ready_def)
      note copy = copy_file_part_ok [OF sole(1) page sole(2) room]
      have res: "res = Ok (page + 4096)" "s' = copy_file_part ?s g (h + f) page (page + 4096) ?fe"
        using call f region virt next_page r2 by (auto simp: map_segment_page_def PAGE_SIZE_def)
      have "last_ok h r s'" "ls_last_page s' = Some page"
        using copy(2-4) pr page page47 unfolding res by (auto simp: last_ok_def page_ready_def)
      moreover have "loaded_view h r s' v = overlay (\<lambda>v. same_page_as v page) g (loaded_view h r s) v" if "unat v < 2 ^ 47" for v
        using copy(5) [OF that] pr that unfolding res
        by (auto simp: page_ready_def overlay_def split: option.splits)
      ultimately show ?thesis
        using copy(1) res(1) unfolding res(2) by blast
    qed
  qed
qed

lemma overlay_cong: "w v = w' v \<Longrightarrow> overlay A g w v = overlay A g w' v"
  by (auto simp: overlay_def split: option.splits)

lemma overlay_overlay: "overlay B g (overlay A g w) v = overlay (\<lambda>v. A v \<or> B v) g w v"
  by (simp add: overlay_def split: option.split)

lemma aligned_next:
  assumes "page_aligned page" "page_aligned e" "page < e"
  shows "unat page + 4096 \<le> unat e" "unat (page + 4096) = unat page + 4096" "page_aligned (page + 4096)"
proof -
  have "unat page < unat e" using assms(3) by (simp add: word_less_nat_alt)
  with assms(1,2) show le: "unat page + 4096 \<le> unat e"
    by (auto elim!: dvdE)
  with unat_u64_less [of e] show u: "unat (page + 4096) = unat page + 4096"
    by (simp add: unat_word_ariths)
  with assms(1) show "page_aligned (page + 4096)"
    by simp
qed

lemma same_page_range:
  assumes "page_aligned page"
  shows "same_page_as v page \<longleftrightarrow> unat page \<le> unat v \<and> unat v < unat page + 4096"
  using assms by (auto simp: same_page_as_def elim!: dvdE)

lemma page_then_rest:
  assumes "page_aligned page" "page_aligned e" "page < e"
  shows "page \<le> v \<and> v < e \<longleftrightarrow> same_page_as v page \<or> page + 4096 \<le> v \<and> v < e"
  using aligned_next [OF assms] unfolding same_page_range [OF assms(1)] word_le_nat_alt word_less_nat_alt by auto

lemma map_segment_loop_ok:
  assumes "space P h r (ls_pages s)" "last_ok h r s" "page_aligned page" "page_aligned (as_map_end g)" "unat (as_map_end g) \<le> 2 ^ 47"
    and "\<forall>v. page \<le> v \<longrightarrow> v < as_map_end g \<longrightarrow> loaded_view h r s v \<noteq> None \<longrightarrow> same_page_as v page \<and> ls_last_page s = Some page"
    and room: "unat (as_virtual_start g) + length (as_bytes g) < 2 ^ 64" and flags: "flags AND PAGE_ADDRESS_MASK = 0"
    and "map_segment_loop g r h flags (as_virtual_start g + of_nat (length (as_bytes g))) s page = (s', res)"
  shows "space P h r (ls_pages s') \<and> (out_of_memory s' res \<or> res = Ok () \<and> last_ok h r s' \<and>
    ls_last_page s' = (if page < as_map_end g then Some (as_map_end g - 4096) else ls_last_page s) \<and>
    (\<forall>v. unat v < 2 ^ 47 \<longrightarrow> loaded_view h r s' v = overlay (\<lambda>v. page \<le> v \<and> v < as_map_end g) g (loaded_view h r s) v))"
  using assms(1-6,9)
proof (induction "2 ^ 64 - unat page" arbitrary: s page rule: less_induct)
  case less
  let ?fe = "as_virtual_start g + of_nat (length (as_bytes g))" and ?e = "as_map_end g"
  note loop = less.prems(7) [unfolded map_segment_loop.simps [of g r h flags ?fe s page]]
  show ?case
  proof (cases "page < ?e")
    case False
    with loop less.prems show ?thesis
      by (auto simp: overlay_def word_less_nat_alt word_le_nat_alt)
  next
    case True
    note n = aligned_next [OF less.prems(3,4) True]
    have p47: "unat page + 4096 \<le> 2 ^ 47" using n(1) less.prems(5) by simp
    have first: "ls_last_page s \<noteq> Some page \<Longrightarrow> loaded_view h r s page = None"
      using less.prems(6) True by auto
    obtain s1 r1 where call: "map_segment_page g r h flags ?fe s page = (s1, r1)"
      by (cases "map_segment_page g r h flags ?fe s page")
    note step = map_segment_page_ok [OF less.prems(1-3) p47 first room flags call]
    show ?thesis
    proof (cases "r1 = Ok (page + 4096)")
      case False
      with step loop call True show ?thesis by (auto simp: out_of_memory_def)
    next
      case ok: True
      then have s1: "space P h r (ls_pages s1)" "last_ok h r s1" "ls_last_page s1 = Some page"
        and view: "\<And>v. unat v < 2 ^ 47 \<Longrightarrow> loaded_view h r s1 v = overlay (\<lambda>v. same_page_as v page) g (loaded_view h r s) v"
        using step by (auto simp: out_of_memory_def)
      have free: "loaded_view h r s1 v = None" if "page + 4096 \<le> v" "v < ?e" for v
      proof -
        have "page \<le> v" "\<not> same_page_as v page" "unat v < 2 ^ 47"
          using that n(2) less.prems(5) unfolding same_page_range [OF less.prems(3)] word_le_nat_alt word_less_nat_alt by auto
        with less.prems(6) that(2) view [of v] show ?thesis by (auto simp: overlay_def)
      qed
      have "2 ^ 64 - unat (page + 4096) < 2 ^ 64 - unat page"
        using n(2) unat_u64_less [of page] by simp
      moreover have "map_segment_loop g r h flags ?fe s1 (page + 4096) = (s', res)"
        using loop call ok True by simp
      ultimately have "space P h r (ls_pages s') \<and> (out_of_memory s' res \<or> res = Ok () \<and> last_ok h r s' \<and>
          ls_last_page s' = (if page + 4096 < ?e then Some (?e - 4096) else ls_last_page s1) \<and>
          (\<forall>v. unat v < 2 ^ 47 \<longrightarrow> loaded_view h r s' v = overlay (\<lambda>v. page + 4096 \<le> v \<and> v < ?e) g (loaded_view h r s1) v))"
        using free by (intro less.hyps [OF _ s1(1,2) n(3) less.prems(4,5)]) auto
      moreover have "page = ?e - 4096" if "\<not> page + 4096 < ?e"
      proof -
        have "page + 4096 = ?e"
          using that n(1,2) by (simp add: word_less_nat_alt word_unat_eq_iff)
        then show ?thesis by (metis add_diff_cancel_right')
      qed
      moreover have "overlay (\<lambda>v. page + 4096 \<le> v \<and> v < ?e) g (loaded_view h r s1) v =
          overlay (\<lambda>v. page \<le> v \<and> v < ?e) g (loaded_view h r s) v" if "unat v < 2 ^ 47" for v
      proof -
        have "overlay (\<lambda>v. page + 4096 \<le> v \<and> v < ?e) g (loaded_view h r s1) v =
            overlay (\<lambda>v. page + 4096 \<le> v \<and> v < ?e) g (overlay (\<lambda>v. same_page_as v page) g (loaded_view h r s)) v"
          by (rule overlay_cong) (rule view [OF that])
        then show ?thesis
          unfolding overlay_overlay page_then_rest [OF less.prems(3,4) True, symmetric] .
      qed
      ultimately show ?thesis
        using s1(3) True by auto
    qed
  qed
qed

lemma segment_flags_mask: "segment_flags g AND PAGE_ADDRESS_MASK = 0"
  by (simp add: segment_flags_def FLAG_USER_ACCESSIBLE_def FLAG_WRITABLE_def PAGE_ADDRESS_MASK_def)

definition segment_ok :: "activated_segment \<Rightarrow> bool" where
  "segment_ok g =
     (page_aligned (as_map_start g) \<and> page_aligned (as_map_end g) \<and> unat (as_map_end g) \<le> 2 ^ 47 \<and>
      unat (as_virtual_start g) + length (as_bytes g) < 2 ^ 64)"

lemma map_segment_pages_ok:
  assumes s: "space P h r (ls_pages s)" "last_ok h r s" and g: "segment_ok g"
    and free: "\<forall>v. in_segment g v \<longrightarrow> loaded_view h r s v \<noteq> None \<longrightarrow> same_page_as v (as_map_start g) \<and> ls_last_page s = Some (as_map_start g)"
    and call: "map_segment_pages s g r h (segment_flags g) = (s', res)"
  shows "space P h r (ls_pages s') \<and> (out_of_memory s' res \<or> res = Ok () \<and> last_ok h r s' \<and>
    ls_last_page s' = (if as_map_start g < as_map_end g then Some (as_map_end g - 4096) else ls_last_page s) \<and>
    (\<forall>v. unat v < 2 ^ 47 \<longrightarrow> loaded_view h r s' v = overlay (in_segment g) g (loaded_view h r s) v))"
proof -
  let ?fe = "as_virtual_start g + of_nat (length (as_bytes g))"
  have room: "unat (as_virtual_start g) + length (as_bytes g) < 2 ^ 64" using g by (simp add: segment_ok_def)
  then have loop: "map_segment_loop g r h (segment_flags g) ?fe s (as_map_start g) = (s', res)"
    using call by (simp add: map_segment_pages_def checked_add_def unat_of_nat)
  have pages: "in_segment g = (\<lambda>v. as_map_start g \<le> v \<and> v < as_map_end g)"
    by (rule ext) (simp add: in_segment_def)
  show ?thesis
    using map_segment_loop_ok [OF s _ _ _ _ room segment_flags_mask loop] g free
    unfolding pages segment_ok_def by blast
qed

text \<open>
  Segments in ascending order: a segment starts at or after the last page of those before it, which
  it may share.
\<close>

fun ascending :: "u64 \<Rightarrow> activated_segment list \<Rightarrow> bool" where
  "ascending low [] = True"
| "ascending low (g # gs) = (segment_ok g \<and> low \<le> as_map_start g \<and>
     ascending (if as_map_start g < as_map_end g then as_map_end g - 4096 else low) gs)"

definition image_view :: "activated_segment list \<Rightarrow> u64 \<Rightarrow> u8 option" where
  "image_view gs = fold (\<lambda>g. overlay (in_segment g) g) gs (\<lambda>_. None)"

text \<open>Nothing is mapped beyond the last page, which is not beyond \<open>low\<close>.\<close>

definition mapped_below :: "u64 \<Rightarrow> u64 \<Rightarrow> load_state \<Rightarrow> u64 \<Rightarrow> bool" where
  "mapped_below h r s low =
     (case ls_last_page s of
        None \<Rightarrow> \<forall>v. unat v < 2 ^ 47 \<longrightarrow> loaded_view h r s v = None
      | Some l \<Rightarrow> l \<le> low \<and> (\<forall>v. unat v < 2 ^ 47 \<longrightarrow> loaded_view h r s v \<noteq> None \<longrightarrow> unat v < unat l + 4096))"

lemma mapped_below_first:
  assumes "mapped_below h r s low" "last_ok h r s" "segment_ok g" "low \<le> as_map_start g"
  shows "\<forall>v. in_segment g v \<longrightarrow> loaded_view h r s v \<noteq> None \<longrightarrow>
    same_page_as v (as_map_start g) \<and> ls_last_page s = Some (as_map_start g)"
proof (intro allI impI)
  fix v assume v: "in_segment g v" and mapped: "loaded_view h r s v \<noteq> None"
  have v47: "unat v < 2 ^ 47"
    using v assms(3) by (simp add: in_segment_def segment_ok_def word_less_nat_alt)
  with mapped assms(1) obtain l where l: "ls_last_page s = Some l" "l \<le> low" "unat v < unat l + 4096"
    by (auto simp: mapped_below_def split: option.splits)
  have al: "page_aligned l" "page_aligned (as_map_start g)"
    using assms(2,3) l(1) by (auto simp: last_ok_def segment_ok_def)
  have "unat l \<le> unat (as_map_start g)" "unat (as_map_start g) \<le> unat v"
    using l(2) assms(4) v by (auto simp: word_le_nat_alt in_segment_def)
  with l(3) al have "unat l = unat (as_map_start g)"
    by (auto elim!: dvdE)
  with l v al show "same_page_as v (as_map_start g) \<and> ls_last_page s = Some (as_map_start g)"
    unfolding same_page_range [OF al(2)] by (auto simp: word_unat_eq_iff in_segment_def word_le_nat_alt)
qed

lemma mapped_below_next:
  assumes s: "mapped_below h r s low" "segment_ok g" "low \<le> as_map_start g"
    and last: "ls_last_page s' = (if as_map_start g < as_map_end g then Some (as_map_end g - 4096) else ls_last_page s)"
    and view: "\<And>v. unat v < 2 ^ 47 \<Longrightarrow> loaded_view h r s' v = overlay (in_segment g) g (loaded_view h r s) v"
  shows "mapped_below h r s' (if as_map_start g < as_map_end g then as_map_end g - 4096 else low)"
proof (cases "as_map_start g < as_map_end g")
  case True
  have al: "page_aligned (as_map_start g)" "page_aligned (as_map_end g)"
    using s(2) by (auto simp: segment_ok_def)
  note n = aligned_next [OF al True]
  have e: "unat (as_map_end g - 4096) = unat (as_map_end g) - 4096"
    using n(1) by (subst unat_sub) (auto simp: word_le_nat_alt)
  have "unat v < unat (as_map_end g - 4096) + 4096" if v: "unat v < 2 ^ 47" "loaded_view h r s' v \<noteq> None" for v
  proof (cases "in_segment g v")
    case True
    then show ?thesis using e n(1) by (simp add: in_segment_def word_less_nat_alt)
  next
    case False
    with view [OF v(1)] v(2) have "loaded_view h r s v \<noteq> None" by (simp add: overlay_def)
    with s(1) v(1) obtain l where "l \<le> low" "unat v < unat l + 4096"
      by (auto simp: mapped_below_def split: option.splits)
    with s(3) n(1) e show ?thesis by (simp add: word_le_nat_alt)
  qed
  with True last show ?thesis by (simp add: mapped_below_def)
next
  case False
  then have "\<not> in_segment g v" for v
    by (auto simp: in_segment_def)
  with view have "loaded_view h r s' v = loaded_view h r s v" if "unat v < 2 ^ 47" for v
    using that by (simp add: overlay_def)
  with s(1) last False show ?thesis
    by (auto simp: mapped_below_def split: option.splits)
qed

lemma fold_overlay_cong:
  "w v = w' v \<Longrightarrow> fold (\<lambda>g. overlay (in_segment g) g) gs w v = fold (\<lambda>g. overlay (in_segment g) g) gs w' v"
proof (induction gs arbitrary: w w')
  case (Cons g gs)
  show ?case
    unfolding fold_Cons comp_apply by (rule Cons.IH, rule overlay_cong, rule Cons.prems)
qed simp

lemma load_segments_ok:
  assumes "space P h r (ls_pages s)" "last_ok h r s" "mapped_below h r s low" "ascending low gs"
    and "load_segments s r h gs = (s', res)"
  shows "space P h r (ls_pages s') \<and> (out_of_memory s' res \<or> res = Ok () \<and>
    (\<forall>v. unat v < 2 ^ 47 \<longrightarrow> loaded_view h r s' v = fold (\<lambda>g. overlay (in_segment g) g) gs (loaded_view h r s) v))"
  using assms
proof (induction gs arbitrary: s low)
  case (Cons g gs)
  obtain s1 r1 where call: "map_segment_pages s g r h (segment_flags g) = (s1, r1)"
    by (cases "map_segment_pages s g r h (segment_flags g)")
  have g: "segment_ok g" "low \<le> as_map_start g"
    using Cons.prems(4) by simp_all
  note step = map_segment_pages_ok [OF Cons.prems(1,2) g(1) mapped_below_first [OF Cons.prems(3,2) g] call]
  show ?case
  proof (cases "r1 = Ok ()")
    case False
    with step call Cons.prems(5) show ?thesis by (auto simp: out_of_memory_def)
  next
    case True
    then have s1: "space P h r (ls_pages s1)" "last_ok h r s1"
        "ls_last_page s1 = (if as_map_start g < as_map_end g then Some (as_map_end g - 4096) else ls_last_page s)"
      and view: "\<And>v. unat v < 2 ^ 47 \<Longrightarrow> loaded_view h r s1 v = overlay (in_segment g) g (loaded_view h r s) v"
      using step by (auto simp: out_of_memory_def)
    have "fold (\<lambda>g. overlay (in_segment g) g) gs (loaded_view h r s1) v =
        fold (\<lambda>g. overlay (in_segment g) g) gs (overlay (in_segment g) g (loaded_view h r s)) v" if "unat v < 2 ^ 47" for v
      by (rule fold_overlay_cong) (rule view [OF that])
    moreover have "load_segments s1 r h gs = (s', res)"
      using Cons.prems(5) call True by simp
    ultimately show ?thesis
      using Cons.IH [OF s1(1,2) mapped_below_next [OF Cons.prems(3) g s1(3) view]] Cons.prems(4) by simp
  qed
qed simp

end
