(* ===== verification/ElfImage.thy ===== *)
theory ElfImage
  imports Loader
begin

text \<open>
  From the program headers to the memory of the process: \<open>build_activation\<close> on the load plan of an
  ELF file, and what loading its segments leaves at the addresses the linker chose.
\<close>

section \<open>Segments of an ELF file\<close>

definition load_headers :: "elf_file \<Rightarrow> (nat \<times> program_header) list" where
  "load_headers f = filter (\<lambda>(_, h). is_loadable h) (enumerate 0 (map cooked (ef_headers f)))"

definition elf_segment :: "bytes \<Rightarrow> nat \<times> program_header \<Rightarrow> activated_segment" where
  "elf_segment file ih =
     (let p = planned ih
      in \<lparr>as_index = ls_index p, as_virtual_start = ls_virtual_start p, as_virtual_end = ls_virtual_end p,
          as_map_start = ls_map_start p, as_map_end = ls_map_end p, as_file_bytes = ls_file_bytes p,
          as_memory_bytes = ls_memory_bytes p, as_readable = sp_read (ls_permissions p),
          as_writable = sp_write (ls_permissions p), as_executable = sp_execute (ls_permissions p),
          as_bytes = slice file (unat (ls_file_offset p)) (unat (ls_file_offset p) + unat (ls_file_bytes p))\<rparr>)"

definition header_end :: "program_header \<Rightarrow> nat" where
  "header_end h = unat (ph_virtual_address h) + unat (ph_memory_size h)"

text \<open>A loadable segment of a user program: in the file, and in the user half up to page rounding.\<close>

definition user_header :: "bytes \<Rightarrow> program_header \<Rightarrow> bool" where
  "user_header file h =
     (header_in_image file h \<and> header_end h + 4096 \<le> 2 ^ 47 \<and>
      unat (ph_offset h) + unat (ph_file_size h) \<le> length file)"

lemma user_header_mappable: "user_header file h \<Longrightarrow> mappable h"
  by (simp add: user_header_def header_end_def mappable_def)

lemma user_header_facts:
  fixes i :: nat
  assumes "user_header file h" "length file < 2 ^ 63"
  defines "p \<equiv> planned (i, h)"
  shows "ls_virtual_start p = ph_virtual_address h" "unat (ls_virtual_end p) = header_end h"
    "page_aligned (ls_map_start p)" "page_aligned (ls_map_end p)"
    "unat (ls_map_start p) \<le> unat (ph_virtual_address h)" "unat (ph_virtual_address h) < unat (ls_map_start p) + 4096"
    "header_end h \<le> unat (ls_map_end p)" "unat (ls_map_end p) < header_end h + 4096"
    "unat (ls_file_bytes p) \<le> unat (ph_memory_size h)" "ls_file_offset p = ph_offset h" "ls_file_bytes p = ph_file_size h"
proof -
  have "covers file h p"
    unfolding p_def using assms(1) user_header_mappable [OF assms(1)] by (intro planned_covers) (simp_all add: user_header_def)
  then show "ls_virtual_start p = ph_virtual_address h" "unat (ls_virtual_end p) = header_end h"
    "page_aligned (ls_map_start p)" "page_aligned (ls_map_end p)"
    "unat (ls_map_start p) \<le> unat (ph_virtual_address h)" "unat (ph_virtual_address h) < unat (ls_map_start p) + 4096"
    "header_end h \<le> unat (ls_map_end p)" "unat (ls_map_end p) < header_end h + 4096"
    "unat (ls_file_bytes p) \<le> unat (ph_memory_size h)"
    by (auto simp: covers_def Let_def header_end_def)
  show "ls_file_offset p = ph_offset h" "ls_file_bytes p = ph_file_size h"
    by (simp_all add: p_def planned_def Let_def)
qed

section \<open>Activation\<close>

lemma relocate_same: "orig \<le> a \<Longrightarrow> relocate orig orig a = Ok a"
proof -
  assume le: "orig \<le> a"
  then have "unat orig + unat (a - orig) < 2 ^ 64"
    using unat_u64_less [of a] by (simp add: unat_sub word_le_nat_alt)
  then show ?thesis
    using le by (simp add: relocate_def checked_sub_def checked_add_def)
qed

lemma segment_file_bytes_ok:
  assumes "user_header file h" "length file < 2 ^ 63"
  shows "segment_file_bytes file (plan_entry (planned (i, h))) =
    Ok (slice file (unat (ph_offset h)) (unat (ph_offset h) + unat (ph_file_size h)))"
proof -
  have le: "unat (ph_offset h) + unat (ph_file_size h) \<le> length file"
    using assms(1) by (simp add: user_header_def)
  then have u: "unat (ph_offset h + ph_file_size h) = unat (ph_offset h) + unat (ph_file_size h)"
    using assms(2) by (simp add: unat_add_less)
  show ?thesis
    using le user_header_facts(10,11) [OF assms, of i]
    by (simp add: segment_file_bytes_def plan_entry_def u)
qed

text \<open>What the search for the entry point has found after a header.\<close>

definition found_entry :: "u64 \<Rightarrow> program_header \<Rightarrow> bool" where
  "found_entry entry_point h =
     (can_execute h \<and> ph_virtual_address h \<le> entry_point \<and> unat entry_point < header_end h)"

lemma activate_segment_ok:
  assumes h: "user_header file h" "length file < 2 ^ 63" and low: "orig \<le> ls_map_start (planned (i, h))"
  shows "\<exists>es'. activate_segment file orig orig entry_point (plan_entry (planned (i, h))) es = Ok (elf_segment file (i, h), es') \<and>
    (found_entry entry_point h \<longrightarrow> es_has_executable es' \<and> es_index es' \<noteq> None) \<and>
    (es_has_executable es \<and> es_index es \<noteq> None \<longrightarrow> es_has_executable es' \<and> es_index es' \<noteq> None)"
proof -
  let ?p = "planned (i, h)"
  note f = user_header_facts [OF h, of i]
  have le: "ls_map_start ?p \<le> ls_virtual_start ?p" "ls_map_start ?p \<le> ls_virtual_end ?p" "ls_map_start ?p \<le> ls_map_end ?p"
    using f by (auto simp: word_le_nat_alt header_end_def)
  have r: "relocate orig orig (ls_map_start ?p) = Ok (ls_map_start ?p)" "relocate orig orig (ls_virtual_start ?p) = Ok (ls_virtual_start ?p)"
      "relocate orig orig (ls_virtual_end ?p) = Ok (ls_virtual_end ?p)"
    using le low by (auto intro!: relocate_same)
  have e: "checked_add (ls_map_start ?p) (ls_map_end ?p - ls_map_start ?p) = Some (ls_map_end ?p)"
    using le(3) unat_u64_less [of "ls_map_end ?p"] by (simp add: checked_add_def unat_sub word_le_nat_alt)
  have x: "sp_execute (ls_permissions ?p) = can_execute h"
    by (simp add: planned_def Let_def from_header_def)
  have found: "found_entry entry_point h \<longleftrightarrow> can_execute h \<and> ls_virtual_start ?p \<le> entry_point \<and> entry_point < ls_virtual_end ?p"
    by (simp add: found_entry_def f(1) word_less_nat_alt f(2))
  have sub: "ls_virtual_start ?p \<le> entry_point \<Longrightarrow> checked_sub entry_point (ls_map_start ?p) = Some (entry_point - ls_map_start ?p)"
    using le(1) by (simp add: checked_sub_def)
  have bytes: "segment_file_bytes file (plan_entry ?p) = Ok (as_bytes (elf_segment file (i, h)))"
    using segment_file_bytes_ok [OF h] f(10,11) by (simp add: elf_segment_def Let_def)
  show ?thesis
    using r e sub unfolding activate_segment_def bytes
    by (auto simp: plan_entry_def x found elf_segment_def Let_def)
qed

lemma activate_segments_ok:
  assumes "\<forall>(i, h) \<in> set hs. user_header file h \<and> orig \<le> ls_map_start (planned (i, h))" "length file < 2 ^ 63"
  shows "\<exists>es'. activate_segments file orig orig entry_point (map (plan_entry \<circ> planned) hs) es = Ok (map (elf_segment file) hs, es') \<and>
    ((\<exists>(i, h) \<in> set hs. found_entry entry_point h) \<or> es_has_executable es \<and> es_index es \<noteq> None \<longrightarrow>
      es_has_executable es' \<and> es_index es' \<noteq> None)"
  using assms(1)
proof (induction hs arbitrary: es)
  case (Cons ih hs)
  obtain i h where ih: "ih = (i, h)" by (cases ih)
  with Cons.prems have h: "user_header file h" "orig \<le> ls_map_start (planned (i, h))" by auto
  obtain es1 where one: "activate_segment file orig orig entry_point (plan_entry (planned (i, h))) es = Ok (elf_segment file (i, h), es1)"
      "found_entry entry_point h \<longrightarrow> es_has_executable es1 \<and> es_index es1 \<noteq> None"
      "es_has_executable es \<and> es_index es \<noteq> None \<longrightarrow> es_has_executable es1 \<and> es_index es1 \<noteq> None"
    using activate_segment_ok [OF h(1) assms(2) h(2), of entry_point es] by blast
  have "\<forall>(i, h) \<in> set hs. user_header file h \<and> orig \<le> ls_map_start (planned (i, h))"
    using Cons.prems by simp
  from Cons.IH [OF this, of es1] one show ?case
    by (auto simp: ih)
qed simp

lemma fold_min_le:
  "fold (\<lambda>x least. min least (f x)) xs a \<le> a" "x \<in> set xs \<Longrightarrow> fold (\<lambda>x least. min least (f x)) xs a \<le> f x"
  for f :: "'a \<Rightarrow> 'b::linorder"
proof (induction xs arbitrary: a)
  case (Cons y ys)
  { case 1 from Cons.IH(1) [of "min a (f y)"] show ?case by simp }
  { case 2 with Cons.IH [of "min a (f y)"] show ?case by auto }
qed simp_all

lemma fold_max_ge:
  "a \<le> fold (\<lambda>x greatest. max greatest (f x)) xs a" "x \<in> set xs \<Longrightarrow> f x \<le> fold (\<lambda>x greatest. max greatest (f x)) xs a"
  for f :: "'a \<Rightarrow> 'b::linorder"
proof (induction xs arbitrary: a)
  case (Cons y ys)
  { case 1 from Cons.IH(1) [of "max a (f y)"] show ?case by simp }
  { case 2 with Cons.IH [of "max a (f y)"] show ?case by auto }
qed simp_all

text \<open>A program for the user half, whose entry point is in an executable segment.\<close>

definition user_program :: "elf_file \<Rightarrow> bool" where
  "user_program f =
     (good_elf f \<and> (\<forall>(i, h) \<in> set (load_headers f). user_header (elf_encode f) h) \<and>
      (\<exists>(i, h) \<in> set (load_headers f). found_entry (ef_entry f) h))"

definition prepared :: "elf_file \<Rightarrow> executable_load_prep \<Rightarrow> bool" where
  "prepared f prep =
     (ec_format prep = FormatElf \<and> lp_entry_point prep = Some (ef_entry f) \<and> lp_image_type prep = Some (ef_type f) \<and>
      lp_machine prep = Some (ef_machine f) \<and> lp_program_header_count prep = length (ef_headers f) \<and>
      lt_vm_map_entries (lp_totals prep) = map plan_entry (elf_plan f))"

lemma build_activation_elf:
  assumes f: "user_program f" and prep: "prepared f prep"
  shows "\<exists>act. build_activation prep (elf_encode f) = Ok act \<and> ai_entry_point act = ef_entry f \<and>
    ai_segments act = map (elf_segment (elf_encode f)) (load_headers f)"
proof -
  let ?file = "elf_encode f" and ?hs = "load_headers f" and ?es = "map (plan_entry \<circ> planned) (load_headers f)"
  let ?orig = "fold (\<lambda>g least. min least (vm_map_start g)) ?es (- 1)" and ?top = "fold (\<lambda>g greatest. max greatest (vm_map_end g)) ?es 0"
  have len: "length ?file < 2 ^ 63" and users: "\<forall>(i, h) \<in> set ?hs. user_header ?file h"
    using f by (auto simp: user_program_def good_elf_def)
  obtain i h where ih: "(i, h) \<in> set ?hs" "found_entry (ef_entry f) h" using f by (auto simp: user_program_def)
  have "user_header ?file h" using ih(1) users by auto
  note facts = user_header_facts [OF this len, of i]
  have entries: "lt_vm_map_entries (lp_totals prep) = ?es" "?es \<noteq> []"
    using prep ih(1) by (simp add: prepared_def elf_plan_def load_headers_def) (use ih(1) in auto)
  have low: "?orig \<le> ls_map_start (planned (j, g))" "ls_map_end (planned (j, g)) \<le> ?top" if "(j, g) \<in> set ?hs" for j g
    using fold_min_le(2) [of "plan_entry (planned (j, g))" ?es vm_map_start "- 1"]
      fold_max_ge(2) [of "plan_entry (planned (j, g))" ?es vm_map_end 0] that by (force simp: plan_entry_def)+
  have "unat ?orig < 2 ^ 47"
    using low(1) [OF ih(1)] facts(5) \<open>user_header ?file h\<close> by (simp add: word_le_nat_alt user_header_def header_end_def)
  then have base: "?orig < USER_SPACE_LIMIT"
    by (simp add: USER_SPACE_LIMIT_def word_less_nat_alt)
  have "\<forall>(i, h) \<in> set ?hs. user_header ?file h \<and> ?orig \<le> ls_map_start (planned (i, h))"
    using users low(1) by auto
  from activate_segments_ok [OF this len, of "ef_entry f" "\<lparr>es_has_executable = False, es_index = None, es_map_offset = 0\<rparr>"]
  obtain es where segs: "activate_segments ?file ?orig ?orig (ef_entry f) ?es
        \<lparr>es_has_executable = False, es_index = None, es_map_offset = 0\<rparr> = Ok (map (elf_segment ?file) ?hs, es)"
      and es: "es_has_executable es" "es_index es \<noteq> None"
    using ih by auto
  have "?orig \<le> ls_map_end (planned (i, h))" "?orig \<le> ef_entry f"
    using low(1) [OF ih(1)] facts ih(2) by (auto simp: word_le_nat_alt found_entry_def header_end_def)
  then have entry: "relocate ?orig ?orig (ef_entry f) = Ok (ef_entry f)" and size: "?orig \<le> ?top"
    using low(2) [OF ih(1)] by (auto intro: relocate_same)
  have top: "checked_add ?orig (?top - ?orig) = Some ?top"
    using size unat_u64_less [of ?top] by (simp add: checked_add_def unat_sub word_le_nat_alt)
  show ?thesis
    using prep es base entry top size entries(2) segs
    by (auto simp: build_activation_def entries(1) prepared_def Let_def checked_sub_def)
qed

section \<open>The bytes at the linker's addresses\<close>

lemma fold_overlay_file:
  assumes "g \<in> set gs" "in_segment g v" "file_byte g v = Some b" "\<forall>g' \<in> set gs. file_byte g' v = None \<or> file_byte g' v = Some b"
  shows "fold (\<lambda>g. overlay (in_segment g) g) gs w v = Some b"
proof -
  have keep: "fold (\<lambda>g. overlay (in_segment g) g) gs w v = Some b"
    if "w v = Some b" "\<forall>g' \<in> set gs. file_byte g' v = None \<or> file_byte g' v = Some b" for gs w
    using that
  proof (induction gs arbitrary: w)
    case (Cons g gs)
    then have "overlay (in_segment g) g w v = Some b"
      by (auto simp: overlay_def split: option.splits)
    with Cons show ?case by simp
  qed simp
  from assms show ?thesis
  proof (induction gs arbitrary: w)
    case (Cons g' gs)
    show ?case
    proof (cases "g' = g")
      case True
      then have "overlay (in_segment g') g' w v = Some b"
        using Cons.prems by (simp add: overlay_def)
      with keep [of "overlay (in_segment g') g' w" gs] Cons.prems(4) show ?thesis by simp
    next
      case False
      then have "fold (\<lambda>g. overlay (in_segment g) g) gs (overlay (in_segment g') g' w) v = Some b"
        using Cons.prems by (intro Cons.IH) auto
      then show ?thesis by simp
    qed
  qed simp
qed

lemma fold_overlay_zero:
  assumes "g \<in> set gs" "in_segment g v" "\<forall>g' \<in> set gs. file_byte g' v = None" "w v = None \<or> w v = Some 0"
  shows "fold (\<lambda>g. overlay (in_segment g) g) gs w v = Some 0"
proof -
  have keep: "fold (\<lambda>g. overlay (in_segment g) g) gs w v = Some 0"
    if "w v = Some 0" "\<forall>g' \<in> set gs. file_byte g' v = None" for gs w
    using that
  proof (induction gs arbitrary: w)
    case (Cons g gs)
    then have "overlay (in_segment g) g w v = Some 0"
      by (simp add: overlay_def)
    with Cons show ?case by simp
  qed simp
  from assms show ?thesis
  proof (induction gs arbitrary: w)
    case (Cons g' gs)
    have one: "overlay (in_segment g') g' w v = (if in_segment g' v then Some 0 else w v)"
      using Cons.prems(3,4) by (auto simp: overlay_def)
    show ?case
    proof (cases "g' = g")
      case True
      with keep [of "overlay (in_segment g') g' w" gs] one Cons.prems show ?thesis by simp
    next
      case False
      with Cons.IH [of "overlay (in_segment g') g' w"] one Cons.prems show ?thesis by simp
    qed
  qed simp
qed

text \<open>Segments in the order of their addresses, as the format requires, without overlap.\<close>

definition linked_in_order :: "elf_file \<Rightarrow> bool" where
  "linked_in_order f = sorted_wrt (\<lambda>(_, a) (_, b). header_end a \<le> unat (ph_virtual_address b)) (load_headers f)"

definition header_byte :: "bytes \<Rightarrow> program_header \<Rightarrow> nat \<Rightarrow> u8" where
  "header_byte file h k = (if k < unat (ph_file_size h) then file ! (unat (ph_offset h) + k) else 0)"

lemma elf_segment_facts:
  assumes h: "user_header file h" and len: "length file < 2 ^ 63"
  shows "segment_ok (elf_segment file (i, h))" "as_virtual_start (elf_segment file (i, h)) = ph_virtual_address h"
    "length (as_bytes (elf_segment file (i, h))) = unat (ph_file_size h)"
    "k < unat (ph_file_size h) \<Longrightarrow> as_bytes (elf_segment file (i, h)) ! k = file ! (unat (ph_offset h) + k)"
    "as_map_start (elf_segment file (i, h)) = ls_map_start (planned (i, h))" "as_map_end (elf_segment file (i, h)) = ls_map_end (planned (i, h))"
proof -
  note f = user_header_facts [OF h len, of i]
  have le: "unat (ph_offset h) + unat (ph_file_size h) \<le> length file" "header_end h + 4096 \<le> 2 ^ 47"
    using h by (simp_all add: user_header_def)
  show b: "length (as_bytes (elf_segment file (i, h))) = unat (ph_file_size h)"
    "k < unat (ph_file_size h) \<Longrightarrow> as_bytes (elf_segment file (i, h)) ! k = file ! (unat (ph_offset h) + k)"
    "as_virtual_start (elf_segment file (i, h)) = ph_virtual_address h"
    "as_map_start (elf_segment file (i, h)) = ls_map_start (planned (i, h))" "as_map_end (elf_segment file (i, h)) = ls_map_end (planned (i, h))"
    using le(1) f(1,10,11) by (simp_all add: elf_segment_def Let_def nth_slice)
  show "segment_ok (elf_segment file (i, h))"
    using b f le(2) by (simp add: segment_ok_def header_end_def)
qed

lemma aligned_before: "4096 dvd (a :: nat) \<Longrightarrow> 4096 dvd b \<Longrightarrow> a < b + 4096 \<Longrightarrow> a \<le> b"
  by (auto elim!: dvdE)

lemma elf_ascending:
  assumes len: "length file < 2 ^ 63"
  shows "\<forall>(i, h) \<in> set hs. user_header file h \<and> unat low \<le> unat (ls_map_start (planned (i, h))) \<Longrightarrow>
    sorted_wrt (\<lambda>(_, a) (_, b). header_end a \<le> unat (ph_virtual_address b)) hs \<Longrightarrow> ascending low (map (elf_segment file) hs)"
proof (induction hs arbitrary: low)
  case (Cons ih hs)
  obtain i h where ih: "ih = (i, h)" by (cases ih)
  have h: "user_header file h" "unat low \<le> unat (ls_map_start (planned (i, h)))" using Cons.prems(1) ih by auto
  note f = user_header_facts [OF h(1) len, of i] and g = elf_segment_facts [OF h(1) len, where i = i]
  let ?e = "ls_map_end (planned (i, h))"
  have "unat (?e - 4096) \<le> unat (ls_map_start (planned (j, x)))"
    if jx: "(j, x) \<in> set hs" and nonempty: "ls_map_start (planned (i, h)) < ?e" for j x
  proof -
    have x: "user_header file x" and sorted: "header_end h \<le> unat (ph_virtual_address x)"
      using Cons.prems jx ih by auto
    note fx = user_header_facts [OF x len, of j]
    have "unat ?e \<le> unat (ls_map_start (planned (j, x))) + 4096"
      using f(8) sorted fx(6) by (intro aligned_before) (use f(4) fx(3) in auto)
    moreover have "unat (?e - 4096) = unat ?e - 4096"
      using aligned_next(1) [OF f(3,4) nonempty] by (subst unat_sub) (auto simp: word_le_nat_alt)
    ultimately show ?thesis by simp
  qed
  moreover have "unat low \<le> unat (ls_map_start (planned (j, x)))" if "(j, x) \<in> set hs" for j x
    using Cons.prems(1) that by auto
  ultimately have "\<forall>(j, x) \<in> set hs. user_header file x \<and>
      unat (if ls_map_start (planned (i, h)) < ?e then ?e - 4096 else low) \<le> unat (ls_map_start (planned (j, x)))"
    using Cons.prems(1) by auto
  from Cons.IH [OF this] Cons.prems(2) g(1,5,6) h(2) ih show ?case
    by (auto simp: word_le_nat_alt split: if_splits)
qed simp

lemma elf_image_byte:
  assumes len: "length file < 2 ^ 63" and users: "\<forall>(i, h) \<in> set hs. user_header file h"
    and sorted: "sorted_wrt (\<lambda>(_, a) (_, b). header_end a \<le> unat (ph_virtual_address b)) hs"
    and ih: "(i, h) \<in> set hs" and k: "k < unat (ph_memory_size h)"
  shows "image_view (map (elf_segment file) hs) (ph_virtual_address h + of_nat k) = Some (header_byte file h k)"
proof -
  let ?v = "ph_virtual_address h + of_nat k" and ?g = "elf_segment file (i, h)"
  have h: "user_header file h" using users ih by auto
  note f = user_header_facts [OF h len, of i] and g = elf_segment_facts [OF h len, where i = i]
  have "header_end h < 2 ^ 47" using h by (simp add: user_header_def)
  then have v: "unat ?v = unat (ph_virtual_address h) + k"
    using k by (subst unat_add_less) (auto simp: header_end_def unat_of_nat)
  have inside: "in_segment ?g ?v"
    using f(5,7) k v by (simp add: in_segment_def g(5,6) word_le_nat_alt word_less_nat_alt header_end_def)
  have own: "file_byte ?g ?v = (if k < unat (ph_file_size h) then Some (header_byte file h k) else None)"
    using g(2,3,4) by (simp add: file_byte_def v header_byte_def)
  have other: "file_byte (elf_segment file (j, x)) ?v = None" if jx: "(j, x) \<in> set hs" "(j, x) \<noteq> (i, h)" for j x
  proof -
    have x: "user_header file x" using users jx(1) by auto
    obtain a where a: "a < length hs" "hs ! a = (i, h)" using ih by (auto simp: in_set_conv_nth)
    obtain b where b: "b < length hs" "hs ! b = (j, x)" using jx(1) by (auto simp: in_set_conv_nth)
    have "a \<noteq> b" using a b jx(2) by auto
    then have "header_end x \<le> unat (ph_virtual_address h) \<or> header_end h \<le> unat (ph_virtual_address x)"
      using sorted_wrt_nth_less [OF sorted, of a b] sorted_wrt_nth_less [OF sorted, of b a] a b by (cases "a < b") simp_all
    with k v elf_segment_facts(2,3) [OF x len, of j] user_header_facts(9,11) [OF x len, of j] show ?thesis
      by (auto simp: file_byte_def header_end_def)
  qed
  have each: "file_byte (elf_segment file y) ?v = (if y = (i, h) then file_byte ?g ?v else None)" if "y \<in> set hs" for y
  proof (cases "y = (i, h)")
    case False
    with other [of "fst y" "snd y"] that show ?thesis by (simp only: prod.collapse if_False not_False_eq_True simp_thms)
  qed simp
  have mem: "?g \<in> set (map (elf_segment file) hs)" using ih by auto
  show ?thesis
  proof (cases "k < unat (ph_file_size h)")
    case True
    then show ?thesis
      unfolding image_view_def using own each by (intro fold_overlay_file [OF mem inside]) simp_all
  next
    case False
    then have "\<forall>g' \<in> set (map (elf_segment file) hs). file_byte g' ?v = None"
      using own each by simp
    from fold_overlay_zero [OF mem inside this, of "\<lambda>_. None"] False show ?thesis
      by (simp add: image_view_def header_byte_def)
  qed
qed

end
