(* ===== verification/UserStack.thy ===== *)
theory UserStack
  imports Loader
begin

text \<open>
  The initial stack of a process (\<^verbatim>\<open>setup_system_v_user_stack\<close> in \<^verbatim>\<open>src/kernel/src/init_exec.rs\<close>):
  sixteen pages below \<open>USER_STACK_TOP\<close>, then, downwards, sixteen bytes of \<^verbatim>\<open>AT_RANDOM\<close>, the strings
  of the environment and the arguments, and the words of the System V layout.

  Every write goes through the direct map to the frame of the page its first byte is in, so the
  layout lemmas ask that everything fits into the topmost page.  \<open>stack_image\<close> is the layout as a
  byte string.
\<close>

definition USER_STACK_TOP :: u64 where "USER_STACK_TOP = 0x00007fffffff0000"
definition STACK_PAGES :: nat where "STACK_PAGES = 16"
definition stack_bottom :: u64 where "stack_bottom = USER_STACK_TOP - of_nat (STACK_PAGES * 4096)"

type_synonym 'a exec_step = "page_state \<times> (init_exec_error, 'a) outcome"

fun stack_frames :: "page_state \<Rightarrow> nat \<Rightarrow> u64 list exec_step" where
  "stack_frames s 0 = (s, Ok [])"
| "stack_frames s (Suc n) =
     (case frame_allocate (ps_frames s) of
        (fa, None) \<Rightarrow> (s\<lparr>ps_frames := fa\<rparr>, Fail InvalidSegmentMap)
      | (fa, Some f) \<Rightarrow> st_then (stack_frames (s\<lparr>ps_frames := fa\<rparr>) n) (\<lambda>s fs. (s, Ok (f # fs))))"

fun map_stack_pages :: "page_state \<Rightarrow> u64 \<Rightarrow> u64 \<Rightarrow> nat \<Rightarrow> u64 list \<Rightarrow> unit exec_step" where
  "map_stack_pages s user_pml4 hhdm_offset i [] = (s, Ok ())"
| "map_stack_pages s user_pml4 hhdm_offset i (phys # rest) =
     (let virt_page = stack_bottom + of_nat (i * 4096);
          s = s\<lparr>ps_mem := write_bytes (ps_mem s) (hhdm_offset + phys) 0 4096\<rparr>;
          (s, res) = map_user_region s user_pml4 hhdm_offset virt_page phys 4096 (FLAG_USER_ACCESSIBLE OR FLAG_WRITABLE)
      in st_then (s, map_err (\<lambda>_. InvalidSegmentMap) res) (\<lambda>s _.
         map_stack_pages s user_pml4 hhdm_offset (i + 1) rest))"

definition user_to_kernel_ptr :: "u64 \<Rightarrow> u64 list \<Rightarrow> u64 \<Rightarrow> u64 option" where
  "user_to_kernel_ptr hhdm_offset phys_frames user_addr =
     (if user_addr < stack_bottom \<or> USER_STACK_TOP \<le> user_addr then None
      else let offset = unat (user_addr - stack_bottom)
        in if offset div 4096 < length phys_frames
           then Some (hhdm_offset + phys_frames ! (offset div 4096) + of_nat (offset mod 4096)) else None)"

text \<open>Memory and stack pointer; a push writes only where the stack is mapped.\<close>

type_synonym stack_state = "kernel_memory \<times> u64"

definition push_bytes :: "u64 \<Rightarrow> u64 list \<Rightarrow> bytes \<Rightarrow> stack_state \<Rightarrow> stack_state" where
  "push_bytes hhdm_offset phys_frames bs st =
     (let sp = snd st - of_nat (length bs)
      in (case user_to_kernel_ptr hhdm_offset phys_frames sp of
            None \<Rightarrow> fst st
          | Some ptr \<Rightarrow> copy_bytes (fst st) ptr bs, sp))"

definition c_bytes :: "string \<Rightarrow> bytes" where
  "c_bytes s = bytes_of s @ [0]"

fun push_strings :: "u64 \<Rightarrow> u64 list \<Rightarrow> string list \<Rightarrow> stack_state \<Rightarrow> u64 list \<times> stack_state" where
  "push_strings h fs [] st = ([], st)"
| "push_strings h fs (s # ss) st =
     (let st = push_bytes h fs (c_bytes s) st;
          (addrs, st') = push_strings h fs ss st
      in (snd st # addrs, st'))"

definition push_u64 :: "u64 \<Rightarrow> u64 list \<Rightarrow> u64 \<Rightarrow> stack_state \<Rightarrow> stack_state" where
  "push_u64 h fs v st = push_bytes h fs (to_le 8 v) st"

text \<open>A loop over the reversed list of words.\<close>

definition push_words :: "u64 \<Rightarrow> u64 list \<Rightarrow> u64 list \<Rightarrow> stack_state \<Rightarrow> stack_state" where
  "push_words h fs vs st = fold (push_u64 h fs) (rev vs) st"

definition auxv :: "u64 \<Rightarrow> u64 \<Rightarrow> u64 \<Rightarrow> u64 \<Rightarrow> (u64 \<times> u64) list" where
  "auxv user_entry ph_addr ph_num at_random =
     [(3, ph_addr), (4, 56), (5, ph_num), (6, 4096), (7, 0), (8, 0), (9, user_entry), (11, 0), (12, 0), (13, 0),
      (14, 0), (23, 0), (25, at_random), (0, 0)]"

definition AT_RANDOM_BYTES :: bytes where
  "AT_RANDOM_BYTES = bytes_of ''0123456789abcdef''"

definition write_stack ::
  "u64 \<Rightarrow> u64 list \<Rightarrow> u64 \<Rightarrow> u64 \<Rightarrow> u64 \<Rightarrow> string list \<Rightarrow> string list \<Rightarrow> kernel_memory \<Rightarrow> stack_state" where
  "write_stack h fs user_entry ph_addr ph_num argv envp m =
     (let st = push_bytes h fs AT_RANDOM_BYTES (m, USER_STACK_TOP);
          at_random = snd st;
          (envp_addrs, st) = push_strings h fs envp st;
          (argv_addrs, st) = push_strings h fs argv st;
          st = (fst st, snd st AND NOT 7);
          aux = auxv user_entry ph_addr ph_num at_random;
          total_u64s = 1 + (length argv + 1) + (length envp + 1) + length aux * 2;
          st = (if total_u64s mod 2 \<noteq> 0 then push_u64 h fs 0 st else st);
          st = fold (\<lambda>(key, val) st. push_u64 h fs key (push_u64 h fs val st)) (rev aux) st;
          st = push_u64 h fs 0 st;
          st = push_words h fs envp_addrs st;
          st = push_u64 h fs 0 st;
          st = push_words h fs argv_addrs st
      in push_u64 h fs (of_nat (length argv)) st)"

definition setup_system_v_user_stack ::
  "page_state \<Rightarrow> u64 \<Rightarrow> u64 \<Rightarrow> u64 \<Rightarrow> u64 \<Rightarrow> u64 \<Rightarrow> string list \<Rightarrow> string list \<Rightarrow> u64 exec_step" where
  "setup_system_v_user_stack s user_pml4 hhdm_offset user_entry ph_addr ph_num argv envp =
     st_then (stack_frames s STACK_PAGES) (\<lambda>s phys_frames.
     st_then (map_stack_pages s user_pml4 hhdm_offset 0 phys_frames) (\<lambda>s _.
     let (m, sp) = write_stack hhdm_offset phys_frames user_entry ph_addr ph_num argv envp (ps_mem s)
     in (s\<lparr>ps_mem := m\<rparr>, Ok sp)))"

section \<open>The layout\<close>

text \<open>Where the strings start, top down, and the bytes of the strings, bottom up.\<close>

fun string_addrs :: "u64 \<Rightarrow> string list \<Rightarrow> u64 list" where
  "string_addrs sp [] = []"
| "string_addrs sp (s # ss) = (let a = sp - of_nat (length (c_bytes s)) in a # string_addrs a ss)"

definition string_area :: "string list \<Rightarrow> bytes" where
  "string_area ss = concat (map c_bytes (rev ss))"

definition words_area :: "u64 list \<Rightarrow> bytes" where
  "words_area vs = concat (map (to_le 8) vs)"

definition stack_words :: "u64 \<Rightarrow> u64 \<Rightarrow> u64 \<Rightarrow> string list \<Rightarrow> string list \<Rightarrow> u64 list" where
  "stack_words user_entry ph_addr ph_num argv envp =
     (let random = USER_STACK_TOP - 16; env_low = random - of_nat (length (string_area envp));
          words = of_nat (length argv) # string_addrs env_low argv @ 0 # string_addrs random envp @ 0 #
            concat (map (\<lambda>(key, val). [key, val]) (auxv user_entry ph_addr ph_num random))
      in words @ (if odd (length words) then [0] else []))"

definition stack_image :: "u64 \<Rightarrow> u64 \<Rightarrow> u64 \<Rightarrow> string list \<Rightarrow> string list \<Rightarrow> bytes" where
  "stack_image user_entry ph_addr ph_num argv envp =
     (let strings = string_area argv @ string_area envp @ AT_RANDOM_BYTES;
          gap = (8 - length strings mod 8) mod 8
      in words_area (stack_words user_entry ph_addr ph_num argv envp) @ replicate gap 0 @ strings)"

definition top_page :: u64 where "top_page = USER_STACK_TOP - 4096"

definition stack_byte :: "bytes \<Rightarrow> u64 \<Rightarrow> u8" where
  "stack_byte bs v = (let k = 4096 - length bs in if page_offset v < k then 0 else bs ! (page_offset v - k))"

text \<open>\<open>bs\<close> is on the stack: it ends at the top, the rest of the top page is zero, other pages are as in \<open>s\<close>.\<close>

definition stack_holds :: "nat \<Rightarrow> u64 \<Rightarrow> u64 \<Rightarrow> page_state \<Rightarrow> u64 \<Rightarrow> stack_state \<Rightarrow> bytes \<Rightarrow> bool" where
  "stack_holds P h r s f st bs =
     (space P h r (s\<lparr>ps_mem := fst st\<rparr>) \<and> sole_page h r (s\<lparr>ps_mem := fst st\<rparr>) top_page f \<and>
      unat (snd st) + length bs = unat USER_STACK_TOP \<and> length bs \<le> 4096 \<and>
      (\<forall>v. unat v < 2 ^ 47 \<longrightarrow> user_byte (fst st) h r v =
        (if same_page_as v top_page then Some (stack_byte bs v) else user_view h r s v)))"

lemma top_page_facts: "unat top_page = 0x7ffffffef000" "unat top_page < 2 ^ 47" "page_aligned top_page"
  by (simp_all add: top_page_def USER_STACK_TOP_def)

lemma kernel_ptr:
  assumes "length fs = 16" "0 < n" "n \<le> 4096" "unat sp + n = unat USER_STACK_TOP"
  shows "user_to_kernel_ptr h fs sp = Some (h + fs ! 15 + of_nat (4096 - n))"
proof -
  have u: "unat sp = 0x7fffffff0000 - n" and b: "unat stack_bottom = 0x7ffffffe0000"
    using assms(4) by (simp_all add: USER_STACK_TOP_def stack_bottom_def STACK_PAGES_def)
  have off: "unat (sp - stack_bottom) = 61440 + (4096 - n)"
    using assms(2,3) u b by (subst unat_sub) (auto simp: word_le_nat_alt)
  have "\<not> sp < stack_bottom" "\<not> USER_STACK_TOP \<le> sp"
    using assms(2,3) u b by (auto simp: word_less_nat_alt word_le_nat_alt USER_STACK_TOP_def)
  moreover have "(61440 + (4096 - n)) div 4096 = 15" "(61440 + (4096 - n)) mod 4096 = 4096 - n"
    using assms(2,3) by (simp_all add: div_nat_eqI mod_nat_eqI)
  ultimately show ?thesis
    using assms(1) off by (simp add: user_to_kernel_ptr_def Let_def del: of_nat_diff)
qed

lemma push_bytes_ok:
  assumes st: "stack_holds P h r s (fs ! 15) st bs" and fs: "length fs = 16" and xs: "xs \<noteq> []" "length xs + length bs \<le> 4096"
  shows "stack_holds P h r s (fs ! 15) (push_bytes h fs xs st) (xs @ bs)"
proof -
  obtain m sp where m: "st = (m, sp)" by (cases st)
  let ?s = "s\<lparr>ps_mem := m\<rparr>" and ?n = "length (xs @ bs)" and ?f = "fs ! 15" and ?sp = "sp - of_nat (length xs)"
  have sp: "unat sp + length bs = unat USER_STACK_TOP"
    and view: "\<And>v. unat v < 2 ^ 47 \<Longrightarrow> user_byte m h r v = (if same_page_as v top_page then Some (stack_byte bs v) else user_view h r s v)"
    and sole: "space P h r ?s" "sole_page h r ?s top_page ?f"
    using st m by (simp_all add: stack_holds_def)
  have len: "unat (of_nat (length xs) :: u64) = length xs"
    using xs(2) by (simp add: unat_of_nat)
  have sp': "unat ?sp + ?n = unat USER_STACK_TOP"
    using sp xs(2) len by (subst unat_sub) (auto simp: word_le_nat_alt USER_STACK_TOP_def)
  have n: "0 < ?n" "?n \<le> 4096" using xs by auto
  note ptr = kernel_ptr [OF fs n sp', of h]
  let ?m = "copy_bytes m (h + ?f + of_nat (4096 - ?n)) xs"
  have push: "push_bytes h fs xs st = (?m, ?sp)"
    by (simp add: push_bytes_def m ptr Let_def del: of_nat_diff)
  have fit: "4096 - ?n + length xs \<le> 4096" using n by simp
  have s': "?s\<lparr>ps_mem := copy_bytes (ps_mem ?s) (h + ?f + of_nat (4096 - ?n)) xs\<rparr> = s\<lparr>ps_mem := ?m\<rparr>"
    by simp
  note w = write_page [OF sole(1) top_page_facts(2) sole(2) fit, unfolded s']
  have "user_byte ?m h r v = (if same_page_as v top_page then Some (stack_byte (xs @ bs) v) else user_view h r s v)"
    if v: "unat v < 2 ^ 47" for v
  proof (cases "same_page_as v top_page")
    case True
    have "user_byte ?m h r v = (if 4096 - ?n \<le> page_offset v \<and> page_offset v < 4096 - ?n + length xs
        then Some (xs ! (page_offset v - (4096 - ?n))) else Some (stack_byte bs v))"
      using w(3) [OF v] view [OF v] True by simp
    moreover have "page_offset v - (4096 - ?n) - length xs = page_offset v - (4096 - length bs)"
      using n(2) by simp
    ultimately show ?thesis
      using True n(2) by (auto simp: stack_byte_def Let_def nth_append)
  qed (use w(3) [OF v] view [OF v] in simp)
  with push w(1,2) sole(2) sp' n(2) show ?thesis
    by (simp add: stack_holds_def)
qed

lemma push_u64_ok:
  assumes "stack_holds P h r s (fs ! 15) st bs" "length fs = 16" "8 + length bs \<le> 4096"
  shows "stack_holds P h r s (fs ! 15) (push_u64 h fs v st) (to_le 8 v @ bs)"
proof -
  have "length (to_le 8 v) = 8" by simp
  then have "to_le 8 v \<noteq> []" by force
  with assms show ?thesis
    unfolding push_u64_def by (intro push_bytes_ok) simp_all
qed

lemma push_words_ok:
  assumes "stack_holds P h r s (fs ! 15) st bs" "length fs = 16" "8 * length vs + length bs \<le> 4096"
  shows "stack_holds P h r s (fs ! 15) (push_words h fs vs st) (words_area vs @ bs)"
  using assms(3)
proof (induction vs)
  case (Cons v vs)
  have len: "length (words_area vs) = 8 * length vs"
    by (induction vs) (simp_all add: words_area_def)
  from Cons have "stack_holds P h r s (fs ! 15) (push_words h fs vs st) (words_area vs @ bs)" by simp
  from push_u64_ok [OF this assms(2)] Cons.prems len show ?case
    by (simp add: push_words_def words_area_def)
qed (use assms(1) in \<open>simp add: push_words_def words_area_def\<close>)

lemma push_strings_ok:
  assumes "stack_holds P h r s (fs ! 15) st bs" "length fs = 16" "length (string_area ss) + length bs \<le> 4096"
    and "push_strings h fs ss st = (addrs, st')"
  shows "stack_holds P h r s (fs ! 15) st' (string_area ss @ bs) \<and> addrs = string_addrs (snd st) ss"
  using assms(1,3,4)
proof (induction ss arbitrary: st bs addrs)
  case (Cons x ss)
  have "c_bytes x \<noteq> []" by (simp add: c_bytes_def)
  from push_bytes_ok [OF Cons.prems(1) assms(2) this] Cons.prems(2)
  have holds: "stack_holds P h r s (fs ! 15) (push_bytes h fs (c_bytes x) st) (c_bytes x @ bs)"
    by (simp add: string_area_def)
  have "snd (push_bytes h fs (c_bytes x) st) = snd st - of_nat (length (c_bytes x))"
    by (simp add: push_bytes_def Let_def)
  with Cons.IH [OF holds] Cons.prems(2,3) show ?case
    by (auto simp: string_area_def Let_def split: prod.splits)
qed (simp add: string_area_def)

lemma push_aux_words:
  "fold (\<lambda>(key, val) st. push_u64 h fs key (push_u64 h fs val st)) (rev aux) st =
    push_words h fs (concat (map (\<lambda>(key, val). [key, val]) aux)) st"
  by (induction aux) (auto simp: push_words_def)

lemma mod8_gap:
  fixes t n :: nat
  assumes "8 dvd t" "n \<le> t"
  shows "(t - n) mod 8 = (8 - n mod 8) mod 8"
proof -
  obtain c where c: "t = 8 * c" using assms(1) by (rule dvdE)
  define q k where "q = n div 8" and "k = n mod 8"
  have n: "n = 8 * q + k" and k: "k < 8" by (simp_all add: q_def k_def)
  show ?thesis
  proof (cases "k = 0")
    case False
    then have "q < c" using assms(2) c n by linarith
    then obtain d where d: "c = q + 1 + d" using less_iff_Suc_add [of q c] by auto
    have "t - n = (8 - k) + 8 * d" using c n k d by linarith
    then have "(t - n) mod 8 = (8 - k) mod 8" by (simp only: mod_mult_self2)
    then show ?thesis by (simp only: k_def)
  next
    case True
    then have "t - n = 8 * (c - q)" using c n by (simp add: diff_mult_distrib2)
    with True show ?thesis by (simp add: k_def)
  qed
qed

lemma stack_byte_zeros: "k + length bs \<le> 4096 \<Longrightarrow> stack_byte (replicate k 0 @ bs) v = stack_byte bs v"
  by (auto simp: stack_byte_def Let_def nth_append)

lemma stack_holds_gap:
  assumes "stack_holds P h r s f (m, sp) bs" "k + length bs \<le> 4096" "unat sp' + k = unat sp"
  shows "stack_holds P h r s f (m, sp') (replicate k 0 @ bs)"
  using assms by (simp add: stack_holds_def stack_byte_zeros)

lemma align_stack:
  assumes st: "stack_holds P h r s f (m, sp) bs"
  shows "stack_holds P h r s f (m, sp AND NOT 7) (replicate ((8 - length bs mod 8) mod 8) 0 @ bs)"
proof (rule stack_holds_gap [OF st])
  have len: "length bs \<le> 4096" and "unat sp + length bs = 0x7fffffff0000"
    using st by (simp_all add: stack_holds_def USER_STACK_TOP_def)
  then have sp: "unat sp = 0x7fffffff0000 - length bs" by linarith
  have "(7 :: u64) = mask 3" by (simp add: mask_eq_exp_minus_1)
  then have "unat (sp AND NOT 7) = unat sp - unat sp mod 8"
    using unat_and_not_mask [of sp 3] by simp
  moreover have "unat sp mod 8 = (8 - length bs mod 8) mod 8"
    using mod8_gap [of "0x7fffffff0000" "length bs"] len sp by simp
  ultimately show "unat (sp AND NOT 7) + (8 - length bs mod 8) mod 8 = unat sp"
    using mod_less_eq_dividend [of "unat sp" 8] by linarith
  have "(8 - length bs mod 8) mod 8 \<le> 4096 - length bs"
    using mod8_gap [of 4096 "length bs"] len mod_less_eq_dividend [of "4096 - length bs" 8] by simp
  then show "(8 - length bs mod 8) mod 8 + length bs \<le> 4096" using len by linarith
qed

lemma length_words_area [simp]: "length (words_area vs) = 8 * length vs"
  by (induction vs) (simp_all add: words_area_def)

lemma words_area_append [simp]: "words_area (vs @ ws) = words_area vs @ words_area ws"
  by (simp add: words_area_def)

lemma push_words_append: "push_words h fs (vs @ ws) st = push_words h fs vs (push_words h fs ws st)"
  by (simp add: push_words_def)

lemma push_u64_words: "push_u64 h fs v st = push_words h fs [v] st"
  by (simp add: push_words_def)

lemma length_string_addrs [simp]: "length (string_addrs sp ss) = length ss"
  by (induction ss arbitrary: sp) (simp_all add: Let_def)

lemma length_random: "length AT_RANDOM_BYTES = 16"
  by (simp add: AT_RANDOM_BYTES_def bytes_of_def)

text \<open>The words are pushed in one go: the loops and single pushes after the strings, composed.\<close>

lemma write_stack_words:
  assumes "push_strings h fs envp (push_bytes h fs AT_RANDOM_BYTES (m, USER_STACK_TOP)) = (envp_addrs, st1)"
    and "push_strings h fs argv st1 = (argv_addrs, st2)"
    and "envp_addrs = string_addrs (USER_STACK_TOP - 16) envp"
    and "argv_addrs = string_addrs (USER_STACK_TOP - 16 - of_nat (length (string_area envp))) argv"
  shows "write_stack h fs user_entry ph_addr ph_num argv envp m =
    push_words h fs (stack_words user_entry ph_addr ph_num argv envp) (fst st2, snd st2 AND NOT 7)"
proof -
  have "snd (push_bytes h fs AT_RANDOM_BYTES (m, USER_STACK_TOP)) = USER_STACK_TOP - 16"
    by (simp add: push_bytes_def Let_def length_random)
  then show ?thesis
    using assms unfolding write_stack_def stack_words_def Let_def push_aux_words
    by (simp add: auxv_def push_u64_words flip: even_iff_mod_2_eq_zero push_words_append)
qed

lemma write_stack_ok:
  assumes st: "stack_holds P h r s (fs ! 15) (m, USER_STACK_TOP) []" and fs: "length fs = 16"
    and fits: "length (stack_image user_entry ph_addr ph_num argv envp) \<le> 4096"
  shows "stack_holds P h r s (fs ! 15) (write_stack h fs user_entry ph_addr ph_num argv envp m)
    (stack_image user_entry ph_addr ph_num argv envp)"
proof -
  let ?words = "stack_words user_entry ph_addr ph_num argv envp" and ?st0 = "push_bytes h fs AT_RANDOM_BYTES (m, USER_STACK_TOP)"
  let ?strings = "string_area argv @ string_area envp @ AT_RANDOM_BYTES"
  have len: "8 * length ?words + length (replicate ((8 - length ?strings mod 8) mod 8) (0 :: u8) @ ?strings) \<le> 4096"
    using fits by (simp add: stack_image_def Let_def)
  obtain envp_addrs st1 where env: "push_strings h fs envp ?st0 = (envp_addrs, st1)"
    by (cases "push_strings h fs envp ?st0")
  obtain argv_addrs st2 where arg: "push_strings h fs argv st1 = (argv_addrs, st2)"
    by (cases "push_strings h fs argv st1")
  have "AT_RANDOM_BYTES \<noteq> []" using length_random by force
  from push_bytes_ok [OF st fs this] have h0: "stack_holds P h r s (fs ! 15) ?st0 AT_RANDOM_BYTES"
    by (simp add: length_random)
  have low: "length (string_area argv) + length (string_area envp @ AT_RANDOM_BYTES) \<le> 4096"
    using len by simp
  then have h1: "stack_holds P h r s (fs ! 15) st1 (string_area envp @ AT_RANDOM_BYTES)" "envp_addrs = string_addrs (USER_STACK_TOP - 16) envp"
    using push_strings_ok [OF h0 fs _ env] by (simp_all add: push_bytes_def Let_def length_random)
  have h2: "stack_holds P h r s (fs ! 15) st2 ?strings" "argv_addrs = string_addrs (snd st1) argv"
    using push_strings_ok [OF h1(1) fs low arg] by simp_all
  have "unat (snd st1) + (length (string_area envp) + 16) = 0x7fffffff0000"
    using h1(1) by (simp add: stack_holds_def USER_STACK_TOP_def length_random)
  then have sp1: "snd st1 = USER_STACK_TOP - 16 - of_nat (length (string_area envp))"
    using low by (simp add: word_unat_eq_iff USER_STACK_TOP_def unat_sub_if_size unat_of_nat word_size length_random)
  obtain m2 sp2 where st2: "st2 = (m2, sp2)" by (cases st2)
  note h3 = align_stack [OF h2(1) [unfolded st2]]
  from push_words_ok [OF h3 fs len] show ?thesis
    using write_stack_words [OF env arg h1(2)] h2(2) sp1 st2 by (simp add: stack_image_def Let_def)
qed

section \<open>The stack pages\<close>

lemma stack_frames_ok:
  assumes "space P h r s" "stack_frames s n = (s', res)"
  shows "space P h r s' \<and> ps_mem s' = ps_mem s \<and> (\<forall>d. data_at P h r s d \<longrightarrow> data_at P h r s' d) \<and>
    (res = Fail InvalidSegmentMap \<and> no_frame s' \<or>
     (\<exists>fs. res = Ok fs \<and> length fs = n \<and> distinct fs \<and> (\<forall>f \<in> set fs. data_at P h r s' f \<and> unmapped_frame h r s' f \<and> \<not> data_at P h r s f)))"
  using assms
proof (induction n arbitrary: s s' res)
  case (Suc n)
  obtain fa o1 where a: "frame_allocate (ps_frames s) = (fa, o1)" by (cases "frame_allocate (ps_frames s)")
  show ?case
  proof (cases o1)
    case None
    then have "fa = ps_frames s"
      using a by (auto simp: frame_allocate_is_contiguous frame_contiguous_None)
    with Suc.prems a None show ?thesis by auto
  next
    case (Some f)
    let ?s = "s\<lparr>ps_frames := fa\<rparr>"
    note t = take_frame [OF Suc.prems(1) a [unfolded Some]]
    obtain r1 where call: "stack_frames ?s n = (s', r1)" and res: "r1 = Ok fs \<Longrightarrow> res = Ok (f # fs)" "r1 = Inl e \<Longrightarrow> res = Inl e" for fs e
      using Suc.prems(2) a Some by (cases "stack_frames ?s n"; cases "snd (stack_frames ?s n)") auto
    from Suc.IH [OF t(1) call] have IH: "space P h r s'" "ps_mem s' = ps_mem s" "\<And>d. data_at P h r ?s d \<Longrightarrow> data_at P h r s' d"
      and cases: "r1 = Fail InvalidSegmentMap \<and> no_frame s' \<or> (\<exists>fs. r1 = Ok fs \<and> length fs = n \<and> distinct fs \<and>
        (\<forall>f \<in> set fs. data_at P h r s' f \<and> unmapped_frame h r s' f \<and> \<not> data_at P h r ?s f))"
      by auto
    have keep: "data_at P h r ?s d" if "data_at P h r s d" for d
      using t(3) that by (simp add: keeps_def)
    have f: "data_at P h r s' f" "unmapped_frame h r s' f"
      using IH(2,3) t(2) fresh_frame [OF Suc.prems(1) a [unfolded Some]] by (auto simp: unmapped_frame_def)
    from cases show ?thesis
    proof
      assume "r1 = Fail InvalidSegmentMap \<and> no_frame s'"
      with IH keep res show ?thesis by auto
    next
      assume "\<exists>fs. r1 = Ok fs \<and> length fs = n \<and> distinct fs \<and>
        (\<forall>f \<in> set fs. data_at P h r s' f \<and> unmapped_frame h r s' f \<and> \<not> data_at P h r ?s f)"
      then obtain fs where fs: "r1 = Ok fs" "length fs = n" "distinct fs"
          "\<forall>f \<in> set fs. data_at P h r s' f \<and> unmapped_frame h r s' f \<and> \<not> data_at P h r ?s f"
        by blast
      then have "f \<notin> set fs" using t(2) by auto
      then have "length (f # fs) = Suc n \<and> distinct (f # fs) \<and>
          (\<forall>g \<in> set (f # fs). data_at P h r s' g \<and> unmapped_frame h r s' g \<and> \<not> data_at P h r s g)"
        using fs(2-4) f t(4) keep by auto
      with IH keep res(1) [OF fs(1)] show ?thesis by blast
    qed
  qed
qed simp

definition stack_page :: "nat \<Rightarrow> u64" where
  "stack_page i = stack_bottom + of_nat (i * 4096)"

lemma stack_page_facts:
  assumes "i < 16"
  shows "unat (stack_page i) = 0x7ffffffe0000 + i * 4096" "unat (stack_page i) < 2 ^ 47" "page_aligned (stack_page i)"
proof -
  have b: "unat stack_bottom = 0x7ffffffe0000"
    by (simp add: stack_bottom_def USER_STACK_TOP_def STACK_PAGES_def)
  have "unat (of_nat (i * 4096) :: u64) = i * 4096"
    using assms by (simp only: unat_of_nat) simp
  then show u: "unat (stack_page i) = 0x7ffffffe0000 + i * 4096"
    unfolding stack_page_def using assms b by (subst unat_add_less) simp_all
  show "unat (stack_page i) < 2 ^ 47" "page_aligned (stack_page i)"
    using assms unfolding u by simp_all
qed

definition in_pages :: "nat \<Rightarrow> nat \<Rightarrow> u64 \<Rightarrow> bool" where
  "in_pages i n v = (0x7ffffffe0000 + i * 4096 \<le> unat v \<and> unat v < 0x7ffffffe0000 + (i + n) * 4096)"

lemma same_stack_page: "i < 16 \<Longrightarrow> same_page_as v (stack_page i) \<longleftrightarrow> in_pages i 1 v"
  using stack_page_facts [of i] same_page_range [of "stack_page i" v] by (simp add: in_pages_def algebra_simps)

lemma map_stack_page:
  assumes s: "space P h r s" and f: "data_at P h r s f" "unmapped_frame h r s f"
    and i: "i < 16" and absent: "\<And>v. in_pages i 1 v \<Longrightarrow> user_view h r s v = None"
  defines "s1 \<equiv> s\<lparr>ps_mem := write_bytes (ps_mem s) (h + f) 0 4096\<rparr>"
  assumes call: "map_user_region s1 r h (stack_page i) f 4096 (FLAG_USER_ACCESSIBLE OR FLAG_WRITABLE) = (s', res)"
  shows "space P h r s'" "\<And>d. data_at P h r s d \<Longrightarrow> data_at P h r s' d"
    "res = Fail MapTableAllocationFailed \<and> no_frame s' \<or>
     res = Ok () \<and> sole_page h r s' (stack_page i) f
       \<and> (\<forall>v. unat v < 2 ^ 47 \<longrightarrow> user_view h r s' v = (if in_pages i 1 v then Some 0 else user_view h r s v))
       \<and> (\<forall>p d. unat p < 2 ^ 47 \<longrightarrow> sole_page h r s p d \<longrightarrow> sole_page h r s' p d)
       \<and> (\<forall>d. d \<noteq> f \<longrightarrow> unmapped_frame h r s d \<longrightarrow> unmapped_frame h r s' d)"
proof -
  note z = zero_frame [OF s f, folded s1_def] and pg = stack_page_facts [OF i]
  have ents: "page_entry (ps_mem s1) h r x = page_entry (ps_mem s) h r x" for x by (rule z(3))
  have f1: "data_at P h r s1 f" "unmapped_frame h r s1 f" "page_aligned f"
    using f z(2) ents by (auto simp: unmapped_frame_def data_frame_def in_bound_def)
  have "in_pages i 1 (stack_page i)" using same_stack_page [OF i, of "stack_page i"] by (simp only: same_page_as_refl)
  then have none: "\<not> bit (page_entry (ps_mem s1) h r (stack_page i)) 0"
    using absent ents by (simp flip: user_view_None)
  have map: "map_user_page s1 r h (stack_page i) f (FLAG_USER_ACCESSIBLE OR FLAG_WRITABLE) = (s', res)"
    using call map_user_region_page [OF pg(3) f1(3)] by simp
  have flags: "(FLAG_USER_ACCESSIBLE OR FLAG_WRITABLE) AND PAGE_ADDRESS_MASK = 0"
    by (simp add: FLAG_USER_ACCESSIBLE_def FLAG_WRITABLE_def PAGE_ADDRESS_MASK_def)
  note add = add_page [OF z(1) pg(2) none f1(1,2) z(5) flags map]
  show "space P h r s'" by (rule add(1))
  show "data_at P h r s' d" if "data_at P h r s d" for d
    using add(2) z(2) that by (simp add: keeps_def)
  have sole: "sole_page h r s1 p d = sole_page h r s p d" "unmapped_frame h r s1 d = unmapped_frame h r s d" for p d
    using ents by (simp_all add: sole_page_def unmapped_frame_def)
  show "res = Fail MapTableAllocationFailed \<and> no_frame s' \<or>
     res = Ok () \<and> sole_page h r s' (stack_page i) f
       \<and> (\<forall>v. unat v < 2 ^ 47 \<longrightarrow> user_view h r s' v = (if in_pages i 1 v then Some 0 else user_view h r s v))
       \<and> (\<forall>p d. unat p < 2 ^ 47 \<longrightarrow> sole_page h r s p d \<longrightarrow> sole_page h r s' p d)
       \<and> (\<forall>d. d \<noteq> f \<longrightarrow> unmapped_frame h r s d \<longrightarrow> unmapped_frame h r s' d)"
    using add(3) z(4) unfolding sole same_stack_page [OF i] by auto
qed

lemma map_stack_pages_ok:
  assumes "space P h r s" "\<forall>f \<in> set fs. data_at P h r s f \<and> unmapped_frame h r s f" "distinct fs"
    and "i + length fs = 16" "\<And>v. in_pages i (length fs) v \<Longrightarrow> user_view h r s v = None"
    and "map_stack_pages s r h i fs = (s', res)"
  shows "space P h r s' \<and> (res = Fail InvalidSegmentMap \<and> no_frame s' \<or>
    res = Ok () \<and> (\<forall>p d. unat p < 2 ^ 47 \<longrightarrow> sole_page h r s p d \<longrightarrow> sole_page h r s' p d) \<and>
    (fs \<noteq> [] \<longrightarrow> sole_page h r s' (stack_page 15) (last fs)) \<and>
    (\<forall>v. unat v < 2 ^ 47 \<longrightarrow> user_view h r s' v = (if in_pages i (length fs) v then Some 0 else user_view h r s v)))"
  using assms
proof (induction fs arbitrary: s i)
  case (Cons f fs)
  let ?s = "s\<lparr>ps_mem := write_bytes (ps_mem s) (h + f) 0 4096\<rparr>"
  obtain s1 r1 where map: "map_user_region ?s r h (stack_page i) f 4096 (FLAG_USER_ACCESSIBLE OR FLAG_WRITABLE) = (s1, r1)"
    by (cases "map_user_region ?s r h (stack_page i) f 4096 (FLAG_USER_ACCESSIBLE OR FLAG_WRITABLE)")
  have i: "i < 16" using Cons.prems(4) by simp
  have first: "in_pages i (length (f # fs)) v" if "in_pages i 1 v" for v
    using that by (simp add: in_pages_def)
  have f: "data_at P h r s f" "unmapped_frame h r s f" using Cons.prems(2) by simp_all
  note step = map_stack_page [OF Cons.prems(1) f i Cons.prems(5) [OF first] map]
  have rest: "st_then (s1, map_err (\<lambda>_. InvalidSegmentMap) r1) (\<lambda>s _. map_stack_pages s r h (i + 1) fs) = (s', res)"
    using Cons.prems(6) map by (simp add: stack_page_def Let_def)
  show ?case
  proof (cases "r1 = Ok ()")
    case False
    with step(1,3) rest show ?thesis by auto
  next
    case True
    then have sole: "sole_page h r s1 (stack_page i) f" "\<And>p d. unat p < 2 ^ 47 \<Longrightarrow> sole_page h r s p d \<Longrightarrow> sole_page h r s1 p d"
      and free: "\<And>d. d \<noteq> f \<Longrightarrow> unmapped_frame h r s d \<Longrightarrow> unmapped_frame h r s1 d"
      and view: "\<And>v. unat v < 2 ^ 47 \<Longrightarrow> user_view h r s1 v = (if in_pages i 1 v then Some 0 else user_view h r s v)"
      using step(3) by auto
    have fs: "\<forall>g \<in> set fs. data_at P h r s1 g \<and> unmapped_frame h r s1 g" "distinct fs"
      using Cons.prems(2,3) step(2) free by (auto, metis)
    have pages: "in_pages i (length (f # fs)) v \<longleftrightarrow> in_pages i 1 v \<or> in_pages (i + 1) (length fs) v" for v
      by (auto simp: in_pages_def)
    have none: "user_view h r s1 v = None" if v: "in_pages (i + 1) (length fs) v" for v
    proof -
      have "unat v < 2 ^ 47" "\<not> in_pages i 1 v"
        using v Cons.prems(4) by (auto simp: in_pages_def)
      with view [of v] Cons.prems(5) [of v] pages [of v] v show ?thesis by simp
    qed
    have call: "map_stack_pages s1 r h (i + 1) fs = (s', res)" using rest True by simp
    have n: "i + 1 + length fs = 16" using Cons.prems(4) by simp
    note IH = Cons.IH [OF step(1) fs n none call]
    show ?thesis
    proof (cases "fs = []")
      case True
      with call n sole view step(1) show ?thesis by auto
    next
      case False
      with IH sole(2) view pages show ?thesis by auto
    qed
  qed
qed (auto simp: in_pages_def)

section \<open>The stack of a new process\<close>

lemma top_page_15: "stack_page 15 = top_page"
  by (simp add: stack_page_def stack_bottom_def top_page_def USER_STACK_TOP_def STACK_PAGES_def)

definition on_stack :: "u64 \<Rightarrow> bool" where
  "on_stack v = (stack_bottom \<le> v \<and> v < USER_STACK_TOP)"

lemma on_stack_pages: "on_stack v \<longleftrightarrow> in_pages 0 16 v"
  by (simp add: on_stack_def in_pages_def stack_bottom_def USER_STACK_TOP_def STACK_PAGES_def word_le_nat_alt word_less_nat_alt)

lemma setup_stack_ok:
  assumes s: "space P h r s" and absent: "\<And>v. on_stack v \<Longrightarrow> user_view h r s v = None"
    and fits: "length (stack_image user_entry ph_addr ph_num argv envp) \<le> 4096"
    and call: "setup_system_v_user_stack s r h user_entry ph_addr ph_num argv envp = (s', res)"
  shows "space P h r s' \<and> (res = Fail InvalidSegmentMap \<and> no_frame s' \<or>
    (\<exists>sp. res = Ok sp \<and> unat sp + length (stack_image user_entry ph_addr ph_num argv envp) = unat USER_STACK_TOP \<and>
      (\<forall>v. unat v < 2 ^ 47 \<longrightarrow> user_view h r s' v =
        (if on_stack v then Some (if v < sp then 0
           else stack_image user_entry ph_addr ph_num argv envp ! (unat v - unat sp)) else user_view h r s v))))"
proof -
  let ?img = "stack_image user_entry ph_addr ph_num argv envp"
  obtain s1 r1 where fr: "stack_frames s 16 = (s1, r1)" by (cases "stack_frames s 16")
  note alloc = stack_frames_ok [OF s fr]
  show ?thesis
  proof (cases "\<exists>fs. r1 = Ok fs")
    case False
    with alloc fr call show ?thesis by (auto simp: setup_system_v_user_stack_def STACK_PAGES_def)
  next
    case True
    then obtain fs where r1: "r1 = Ok fs" by blast
    with alloc have fs: "length fs = 16" "distinct fs" "\<forall>f \<in> set fs. data_at P h r s1 f \<and> unmapped_frame h r s1 f"
      and s1: "space P h r s1" "ps_mem s1 = ps_mem s" by auto
    obtain s2 r2 where mp: "map_stack_pages s1 r h 0 fs = (s2, r2)" by (cases "map_stack_pages s1 r h 0 fs")
    have none: "in_pages 0 (length fs) v \<Longrightarrow> user_view h r s1 v = None" for v
      using absent s1(2) fs(1) by (simp add: on_stack_pages)
    have n16: "0 + length fs = 16" using fs(1) by simp
    note pages = map_stack_pages_ok [OF s1(1) fs(3,2) n16 none mp]
    show ?thesis
    proof (cases "r2 = Ok ()")
      case False
      with pages fr r1 mp call show ?thesis by (auto simp: setup_system_v_user_stack_def STACK_PAGES_def)
    next
      case True
      have "fs \<noteq> []" using fs(1) by auto
      with fs(1) last_conv_nth [of fs] have "fs \<noteq> []" "last fs = fs ! 15" by simp_all
      with pages True have s2: "space P h r s2" "sole_page h r s2 top_page (fs ! 15)"
        and view: "\<And>v. unat v < 2 ^ 47 \<Longrightarrow> user_view h r s2 v = (if on_stack v then Some 0 else user_view h r s v)"
        using fs(1) s1(2) by (auto simp: top_page_15 on_stack_pages)
      have top: "same_page_as v top_page \<longleftrightarrow> in_pages 15 1 v" for v
        using same_stack_page [of 15 v] by (simp add: top_page_15)
      have "on_stack v" if "in_pages 15 1 v" for v
        using that unfolding on_stack_pages by (simp add: in_pages_def)
      then have "stack_holds P h r s2 (fs ! 15) (ps_mem s2, USER_STACK_TOP) []"
        using s2 view by (simp add: stack_holds_def stack_byte_def top)
      from write_stack_ok [OF this fs(1) fits]
      have holds: "stack_holds P h r s2 (fs ! 15) (write_stack h fs user_entry ph_addr ph_num argv envp (ps_mem s2)) ?img" .
      obtain m sp where st: "write_stack h fs user_entry ph_addr ph_num argv envp (ps_mem s2) = (m, sp)" by fastforce
      have res: "s' = s2\<lparr>ps_mem := m\<rparr>" "res = Ok sp"
        using call fr r1 mp True st by (simp_all add: setup_system_v_user_stack_def STACK_PAGES_def)
      have sp: "unat sp + length ?img = 0x7fffffff0000" "length ?img \<le> 4096" "space P h r s'"
        and final: "\<And>v. unat v < 2 ^ 47 \<Longrightarrow> user_view h r s' v = (if same_page_as v top_page then Some (stack_byte ?img v) else user_view h r s2 v)"
        using holds unfolding st stack_holds_def by (auto simp: res(1) USER_STACK_TOP_def)
      have "user_view h r s' v = (if on_stack v then Some (if v < sp then 0 else ?img ! (unat v - unat sp)) else user_view h r s v)"
        if v: "unat v < 2 ^ 47" for v
      proof (cases "in_pages 15 1 v")
        case True
        then have "unat v = 0x7ffffffef000 + page_offset v"
          using page_as_offset [of top_page v] top_page_facts top by simp
        moreover have "unat sp = 0x7ffffffef000 + (4096 - length ?img)" using sp(1,2) by simp
        ultimately have "v < sp \<longleftrightarrow> page_offset v < 4096 - length ?img" "unat v - unat sp = page_offset v - (4096 - length ?img)"
          by (simp_all add: word_less_nat_alt)
        with final [OF v] True \<open>\<And>v. in_pages 15 1 v \<Longrightarrow> on_stack v\<close> top show ?thesis
          by (simp add: stack_byte_def)
      next
        case False
        then have "v < sp" if "on_stack v"
          using that sp(1,2) unfolding on_stack_pages in_pages_def word_less_nat_alt by simp
        with False final [OF v] view [OF v] top show ?thesis by simp
      qed
      with res sp show ?thesis by (simp add: USER_STACK_TOP_def)
    qed
  qed
qed

section \<open>Properties\<close>

text \<open>The room the strings take: rounded up to eight bytes.\<close>

definition string_space :: "string list \<Rightarrow> string list \<Rightarrow> nat" where
  "string_space argv envp =
     (let n = length (string_area argv) + (length (string_area envp) + 16) in n + (8 - n mod 8) mod 8)"

lemma length_stack_words:
  "length (stack_words user_entry ph_addr ph_num argv envp) =
    (let n = length argv + length envp + 31 in n + n mod 2)"
  by (simp add: stack_words_def Let_def auxv_def mod_2_eq_odd)

lemma length_stack_image:
  "length (stack_image user_entry ph_addr ph_num argv envp) =
    8 * (let n = length argv + length envp + 31 in n + n mod 2) + string_space argv envp"
  by (simp add: stack_image_def string_space_def Let_def length_random length_stack_words)

text \<open>
  C14.  The stack of a new process has the System V layout: when the strings and words fit into the
  topmost page, the stack range reads as zeros below the returned stack pointer and from there as
  the argument count, the pointers to the arguments and to the environment, each list ended by a
  null word, the auxiliary vector, and the strings; every other address reads as before.  The
  stack pointer is aligned to sixteen bytes exactly when the strings, rounded up to eight bytes,
  take a multiple of sixteen.  The only failure is that the frames are used up.
\<close>

theorem user_stack_layout:
  assumes "space P h r s" and "\<forall>v. on_stack v \<longrightarrow> user_view h r s v = None"
    and "length (stack_image user_entry ph_addr ph_num argv envp) \<le> 4096"
    and "setup_system_v_user_stack s r h user_entry ph_addr ph_num argv envp = (s', res)"
  shows "res = Fail InvalidSegmentMap \<and> no_frame s' \<or>
    (\<exists>sp. res = Ok sp \<and> unat sp + length (stack_image user_entry ph_addr ph_num argv envp) = unat USER_STACK_TOP
      \<and> (16 dvd unat sp \<longleftrightarrow> 16 dvd string_space argv envp)
      \<and> (\<forall>v. unat v < 2 ^ 47 \<longrightarrow> user_view h r s' v =
        (if on_stack v then Some (if v < sp then 0
           else stack_image user_entry ph_addr ph_num argv envp ! (unat v - unat sp)) else user_view h r s v)))"
proof -
  have "16 dvd unat sp \<longleftrightarrow> 16 dvd string_space argv envp"
    if sp: "unat sp + length (stack_image user_entry ph_addr ph_num argv envp) = unat USER_STACK_TOP" for sp
  proof -
    have "even (n + n mod 2)" for n :: nat by (cases "even n") (simp_all add: mod_2_eq_odd)
    then obtain k where k: "(let n = length argv + length envp + 31 in n + n mod 2) = 2 * k"
      unfolding Let_def by (rule evenE)
    have "16 dvd unat sp \<longleftrightarrow> 16 dvd unat sp + 16 * k" by (simp add: dvd_add_left_iff)
    moreover have "unat sp + 16 * k + string_space argv envp = 16 * 0x7fffffff000"
      using sp k by (simp add: length_stack_image USER_STACK_TOP_def)
    then have "16 dvd unat sp + 16 * k + string_space argv envp"
      by (simp only: dvd_triv_left)
    ultimately show ?thesis by (metis dvd_add_right_iff dvd_add_left_iff)
  qed
  moreover have "on_stack v \<Longrightarrow> user_view h r s v = None" for v using assms(2) by simp
  ultimately show ?thesis
    using setup_stack_ok [OF assms(1) _ assms(3,4)] by blast
qed

lemma demo_absent: "\<forall>v. on_stack v \<longrightarrow> user_view demo_hhdm 0x100000 (demo_state 2) v = None"
  by (simp add: user_byte_def demo_state_def zero_page_entry)

theorem user_stack_layout_witness:
  "\<exists>s' res. setup_system_v_user_stack (demo_state 2) 0x100000 demo_hhdm 0x401010 0x400040 1 [''/initrd/init''] [] = (s', res) \<and>
     (res = Fail InvalidSegmentMap \<and> no_frame s' \<or>
      (\<exists>sp. res = Ok sp \<and> unat sp = 0x7ffffffefee0 \<and> 16 dvd unat sp
         \<and> user_view demo_hhdm 0x100000 s' 0x7fffffff0000 = None
         \<and> user_view demo_hhdm 0x100000 s' 0x7ffffffe0000 = Some 0))"
proof -
  let ?call = "setup_system_v_user_stack (demo_state 2) 0x100000 demo_hhdm 0x401010 0x400040 1 [''/initrd/init''] []"
  obtain s' res where call: "?call = (s', res)" by (cases ?call)
  have space: "string_space [''/initrd/init''] [] = 32"
    by (simp add: string_space_def string_area_def c_bytes_def bytes_of_def)
  then have len: "length (stack_image 0x401010 0x400040 1 [''/initrd/init''] []) = 288"
    by (simp add: length_stack_image)
  then have "length (stack_image 0x401010 0x400040 1 [''/initrd/init''] []) \<le> 4096" by simp
  from user_stack_layout [OF demo_space demo_absent this call] show ?thesis
    using call len space
    by (auto simp: USER_STACK_TOP_def on_stack_def stack_bottom_def STACK_PAGES_def word_less_nat_alt
        demo_state_def user_byte_def zero_page_entry)
qed

end
