(* ===== verification/InitExec.thy ===== *)
theory InitExec
  imports ElfImage UserStack SchedInv
begin

text \<open>
  Starting programs, and keeping the first one alive (\<^verbatim>\<open>src/kernel/src/init_exec.rs\<close>).

  \<open>init_system\<close> is what these functions change: the state of the module, memory with the frame
  allocator, and the scheduler.  \<open>init_env\<close> is what they read: the mounted file systems, the page
  table register, the offset of the direct map, and the stacks of the scheduler.  Messages on the
  console are left out.
\<close>

section \<open>State\<close>

definition MAX_INIT_RESTARTS :: u32 where "MAX_INIT_RESTARTS = 4"

record init_exec_state =
  ix_activation :: "activated_init_image option"
  ix_last_error :: "init_exec_error option"
  ix_current_process_id :: u64
  ix_current_thread_id :: u64
  ix_restart_pending :: bool
  ix_restart_count :: u32
  ix_last_exit_status :: "u32 option"

definition init_exec_new :: init_exec_state where
  "init_exec_new = \<lparr>ix_activation = None, ix_last_error = None, ix_current_process_id = 0,
     ix_current_thread_id = 0, ix_restart_pending = False, ix_restart_count = 0, ix_last_exit_status = None\<rparr>"

record init_exec_summary =
  iu_armed :: bool
  iu_format :: executable_format
  iu_image_type :: u16
  iu_machine :: u16
  iu_entry_point :: u64
  iu_segment_count :: nat
  iu_total_bytes :: u64
  iu_zero_fill_bytes :: u64
  iu_vm_start :: u64
  iu_vm_end :: u64
  iu_entry_segment_index :: nat
  iu_entry_segment_map_offset :: u64

record spawned_init_process =
  spi_thread_id :: u64
  spi_process_id :: u64
  spi_restart_count :: u32

record init_exit_disposition =
  ied_process_id :: u64
  ied_thread_id :: u64
  ied_exit_status :: u32
  ied_restart_scheduled :: bool
  ied_next_restart_attempt :: u32
  ied_restart_limit :: u32

record restarted_init_process = spawned_init_process +
  rip_last_exit_status :: u32

record init_env =
  ien_vfs :: vfs_env
  ien_cr3 :: u64
  ien_hhdm :: "u64 option"
  ien_sched :: sched_env

record init_system =
  isy_exec :: init_exec_state
  isy_pages :: page_state
  isy_sched :: scheduler

type_synonym 'a init_step = "init_system \<times> (init_exec_error, 'a) outcome"

section \<open>Activation\<close>

definition activation_summary :: "activated_init_image \<Rightarrow> init_exec_summary" where
  "activation_summary a =
     \<lparr>iu_armed = True, iu_format = ai_format a, iu_image_type = ai_image_type a, iu_machine = ai_machine a,
      iu_entry_point = ai_entry_point a, iu_segment_count = length (ai_segments a),
      iu_total_bytes = ai_total_bytes a, iu_zero_fill_bytes = ai_zero_fill_bytes a,
      iu_vm_start = ai_vm_start a, iu_vm_end = ai_vm_end a,
      iu_entry_segment_index = ai_entry_segment_index a,
      iu_entry_segment_map_offset = ai_entry_segment_map_offset a\<rparr>"

text \<open>The two arms of the match on the result, the same in both functions.\<close>

definition record_activation ::
  "(init_exec_error, activated_init_image) outcome \<Rightarrow> init_exec_state \<Rightarrow>
   init_exec_state \<times> (init_exec_error, init_exec_summary) outcome" where
  "record_activation result st =
     (case result of
        Ok a \<Rightarrow> (init_exec_new\<lparr>ix_activation := Some a\<rparr>, Ok (activation_summary a))
      | Inl (Err e) \<Rightarrow> (init_exec_new\<lparr>ix_last_error := Some e\<rparr>, Fail e)
      | Inl Panic \<Rightarrow> (st, Abort))"

definition activate_init_handoff ::
  "vfs_env \<Rightarrow> init_exec_state \<Rightarrow> init_exec_state \<times> (init_exec_error, init_exec_summary) outcome" where
  "activate_init_handoff env =
     record_activation
       (and_then (map_err Load (prepare_init_load env)) (\<lambda>img.
        and_then (ok_or (initrd_read_bytes (ve_initrd env) ''/initrd/init'') BytesUnavailable) (\<lambda>file.
        build_activation img file)))"

definition activate_test_handoff ::
  "vfs_env \<Rightarrow> init_exec_state \<Rightarrow> init_exec_state \<times> (init_exec_error, init_exec_summary) outcome" where
  "activate_test_handoff env =
     record_activation
       (and_then (map_err Load (prepare_executable_load env ''/initrd/test_hello'')) (\<lambda>img.
        and_then (ok_or (initrd_read_bytes (ve_initrd env) ''/initrd/test_hello'') BytesUnavailable) (\<lambda>file.
        build_activation img file)))"

section \<open>Starting a process\<close>

definition on_memory :: "init_system \<Rightarrow> 'a exec_step \<Rightarrow> 'a init_step" where
  "on_memory y r = (y\<lparr>isy_pages := fst r\<rparr>, snd r)"

definition make_table :: "init_env \<Rightarrow> u64 \<Rightarrow> page_state \<Rightarrow> u64 exec_step" where
  "make_table env hhdm_offset s =
     (let (s, r) = create_user_page_table (ien_cr3 env) (ien_hhdm env) s hhdm_offset
      in (s, map_err (\<lambda>_. InvalidSegmentMap) r))"

definition load_all :: "page_state \<Rightarrow> u64 \<Rightarrow> u64 \<Rightarrow> activated_segment list \<Rightarrow> unit exec_step" where
  "load_all s user_pml4 hhdm_offset segments =
     (let (l, r) = load_segments \<lparr>ls_pages = s, ls_last_page = None, ls_last_phys = None\<rparr> user_pml4 hhdm_offset segments
      in (ls_pages l, r))"

text \<open>The address space of a program: table, segments and stack; the table and the stack pointer.\<close>

definition build_space ::
  "init_env \<Rightarrow> activated_init_image \<Rightarrow> string list \<Rightarrow> string list \<Rightarrow> page_state \<Rightarrow> (u64 \<times> u64) exec_step" where
  "build_space env a argv envp s =
     (case ien_hhdm env of None \<Rightarrow> (s, Abort)
      | Some hhdm_offset \<Rightarrow>
          st_then (make_table env hhdm_offset s) (\<lambda>s user_pml4.
          st_then (load_all s user_pml4 hhdm_offset (ai_segments a)) (\<lambda>s _.
          st_then (setup_system_v_user_stack s user_pml4 hhdm_offset (ai_entry_point a) (ai_ph_addr a) (ai_ph_num a)
            argv envp) (\<lambda>s initial_rsp.
          (s, Ok (user_pml4, initial_rsp))))))"

definition start_process ::
  "init_env \<Rightarrow> init_system \<Rightarrow> activated_init_image \<Rightarrow> string list \<Rightarrow> string list \<Rightarrow> spawned_init_process init_step" where
  "start_process env y a argv envp =
     st_then (on_memory y (build_space env a argv envp (isy_pages y))) (\<lambda>y (user_pml4, initial_rsp).
     let (sched, spawned) = create_user_thread (ien_sched env) (isy_sched y) user_pml4
     in st_then (y\<lparr>isy_sched := sched\<rparr>, map_err (\<lambda>_. InvalidSegmentMap) spawned) (\<lambda>y (thread_id, process_id).
        (y\<lparr>isy_exec := (isy_exec y)\<lparr>ix_current_process_id := process_id, ix_current_thread_id := thread_id\<rparr>\<rparr>,
         Ok \<lparr>spi_thread_id = thread_id, spi_process_id = process_id, spi_restart_count = ix_restart_count (isy_exec y)\<rparr>)))"

definition spawn_executable ::
  "init_env \<Rightarrow> init_system \<Rightarrow> string \<Rightarrow> string list \<Rightarrow> string list \<Rightarrow> spawned_init_process init_step" where
  "spawn_executable env y path argv envp =
     st_then (y, map_err Load (prepare_executable_load (ien_vfs env) path)) (\<lambda>y img.
     st_then (y, ok_or (read_executable_bytes (ien_vfs env) (ec_mount img) (ec_path img)) BytesUnavailable) (\<lambda>y file.
     st_then (y, build_activation img file) (\<lambda>y a.
     start_process env y a argv envp)))"

definition spawn_init_process :: "init_env \<Rightarrow> init_system \<Rightarrow> spawned_init_process init_step" where
  "spawn_init_process env y =
     st_then (y, ok_or (ix_activation (isy_exec y)) BytesUnavailable) (\<lambda>y a.
     st_then (start_process env y a [''/initrd/init''] []) (\<lambda>y spawned.
     (y\<lparr>isy_exec := (isy_exec y)\<lparr>ix_restart_pending := False\<rparr>\<rparr>, Ok spawned)))"

section \<open>Exit and restart\<close>

definition note_init_exit ::
  "init_exec_state \<Rightarrow> u64 \<Rightarrow> u64 \<Rightarrow> u32 \<Rightarrow> init_exec_state \<times> init_exit_disposition option" where
  "note_init_exit st process_id thread_id exit_status =
     (if ix_current_process_id st = 0 \<or> ix_current_process_id st \<noteq> process_id then (st, None)
      else let st = st\<lparr>ix_current_process_id := 0, ix_current_thread_id := 0,
             ix_last_exit_status := Some exit_status, ix_restart_pending := (ix_restart_count st < MAX_INIT_RESTARTS)\<rparr>
        in (st, Some \<lparr>ied_process_id = process_id, ied_thread_id = thread_id, ied_exit_status = exit_status,
             ied_restart_scheduled = ix_restart_pending st, ied_next_restart_attempt = sat_add (ix_restart_count st) 1,
             ied_restart_limit = MAX_INIT_RESTARTS\<rparr>))"

definition service_pending_restart ::
  "init_env \<Rightarrow> init_system \<Rightarrow> init_system \<times> (init_exec_error, restarted_init_process) outcome option" where
  "service_pending_restart env y =
     (let st = isy_exec y
      in if \<not> ix_restart_pending st then (y, None)
         else let y = y\<lparr>isy_exec := st\<lparr>ix_restart_pending := False, ix_restart_count := sat_add (ix_restart_count st) 1\<rparr>\<rparr>;
                  last_exit_status = (case ix_last_exit_status st of None \<Rightarrow> 0 | Some status \<Rightarrow> status);
                  (y, r) = spawn_init_process env y
              in (y, Some (and_then r (\<lambda>spawned.
                    Ok (spawned_init_process.extend spawned \<lparr>rip_last_exit_status = last_exit_status\<rparr>)))))"

section \<open>The address space of a new process\<close>

definition process_view :: "activated_init_image \<Rightarrow> string list \<Rightarrow> string list \<Rightarrow> u64 \<Rightarrow> u8 option" where
  "process_view a argv envp v =
     (let stack = stack_image (ai_entry_point a) (ai_ph_addr a) (ai_ph_num a) argv envp;
          low = unat USER_STACK_TOP - length stack
      in if on_stack v then Some (if unat v < low then 0 else stack ! (unat v - low))
         else image_view (ai_segments a) v)"

definition stack_fits :: "activated_init_image \<Rightarrow> string list \<Rightarrow> string list \<Rightarrow> bool" where
  "stack_fits a argv envp =
     (length (stack_image (ai_entry_point a) (ai_ph_addr a) (ai_ph_num a) argv envp) \<le> 4096)"

text \<open>Segments in ascending order, below the stack.\<close>

definition loadable_image :: "activated_init_image \<Rightarrow> bool" where
  "loadable_image a = (ascending 0 (ai_segments a) \<and> (\<forall>g \<in> set (ai_segments a). as_map_end g \<le> stack_bottom))"

lemma image_view_outside: "(\<forall>g \<in> set gs. \<not> in_segment g v) \<Longrightarrow> image_view gs v = None"
proof -
  have "(\<forall>g \<in> set gs. \<not> in_segment g v) \<Longrightarrow> fold (\<lambda>g. overlay (in_segment g) g) gs w v = w v" for w
    by (induction gs arbitrary: w) (simp_all add: overlay_def)
  then show "(\<forall>g \<in> set gs. \<not> in_segment g v) \<Longrightarrow> image_view gs v = None"
    by (simp add: image_view_def)
qed

lemma load_all_ok:
  assumes s: "space P h r s" and empty: "\<And>v. unat v < 2 ^ 47 \<Longrightarrow> user_view h r s v = None"
    and asc: "ascending 0 gs" and call: "load_all s r h gs = (s', res)"
  shows "space P h r s' \<and> (res = Fail InvalidSegmentMap \<and> no_frame s' \<or>
    res = Ok () \<and> (\<forall>v. unat v < 2 ^ 47 \<longrightarrow> user_view h r s' v = image_view gs v))"
proof -
  let ?l = "\<lparr>ls_pages = s, ls_last_page = None, ls_last_phys = None\<rparr>"
  obtain l r1 where load: "load_segments ?l r h gs = (l, r1)" by (cases "load_segments ?l r h gs")
  have "last_ok h r ?l" "mapped_below h r ?l 0"
    using empty by (simp_all add: last_ok_def mapped_below_def)
  from load_segments_ok [OF _ this asc load] s
  have ok: "space P h r (ls_pages l)" "out_of_memory l r1 \<or> r1 = Ok () \<and>
      (\<forall>v. unat v < 2 ^ 47 \<longrightarrow> loaded_view h r l v = fold (\<lambda>g. overlay (in_segment g) g) gs (user_view h r s) v)"
    by simp_all
  have "fold (\<lambda>g. overlay (in_segment g) g) gs (user_view h r s) v = image_view gs v" if "unat v < 2 ^ 47" for v
    unfolding image_view_def by (rule fold_overlay_cong) (rule empty [OF that])
  with ok call load show ?thesis
    by (auto simp: load_all_def out_of_memory_def)
qed

lemma build_space_ok:
  assumes hhdm: "ien_hhdm env = Some h" and half: "kernel_half P h (ien_cr3 env AND PAGE_ADDRESS_MASK) s"
    and img: "loadable_image a" and fits: "stack_fits a argv envp"
    and call: "build_space env a argv envp s = (s', res)"
  shows "res = Fail InvalidSegmentMap \<and> no_frame s' \<or>
    (\<exists>r sp. res = Ok (r, sp) \<and> space P h r s' \<and> (\<forall>v. unat v < 2 ^ 47 \<longrightarrow> user_view h r s' v = process_view a argv envp v))"
proof -
  obtain s1 r1 where table: "create_user_page_table (ien_cr3 env) (Some h) s h = (s1, r1)"
    by (cases "create_user_page_table (ien_cr3 env) (Some h) s h")
  from create_user_page_table_ok [OF half table] show ?thesis
  proof
    assume "r1 = Fail MapTableAllocationFailed \<and> s1 = s \<and> no_frame s"
    with call hhdm table show ?thesis by (auto simp: build_space_def make_table_def)
  next
    assume "\<exists>f. r1 = Ok f \<and> space P h f s1 \<and> (\<forall>v. unat v < 2 ^ 47 \<longrightarrow> page_entry (ps_mem s1) h f v = 0)"
    then obtain r where r: "r1 = Ok r" "space P h r s1" and zero: "\<And>v. unat v < 2 ^ 47 \<Longrightarrow> user_view h r s1 v = None"
      by (auto simp: user_view_None)
    obtain s2 r2 where load: "load_all s1 r h (ai_segments a) = (s2, r2)" by (cases "load_all s1 r h (ai_segments a)")
    have asc: "ascending 0 (ai_segments a)" using img by (simp add: loadable_image_def)
    note l = load_all_ok [OF r(2) zero asc load]
    show ?thesis
    proof (cases "r2 = Ok ()")
      case False
      with l call hhdm table r load show ?thesis by (auto simp: build_space_def make_table_def)
    next
      case True
      with l have s2: "space P h r s2" and view: "\<And>v. unat v < 2 ^ 47 \<Longrightarrow> user_view h r s2 v = image_view (ai_segments a) v"
        by auto
      have free: "user_view h r s2 v = None" if v: "on_stack v" for v
      proof -
        have "unat v < 2 ^ 47" using v by (simp add: on_stack_pages in_pages_def)
        moreover have "image_view (ai_segments a) v = None"
          using v img by (intro image_view_outside) (auto simp: on_stack_def in_segment_def loadable_image_def)
        ultimately show ?thesis using view by simp
      qed
      let ?stack = "setup_system_v_user_stack s2 r h (ai_entry_point a) (ai_ph_addr a) (ai_ph_num a) argv envp"
      obtain s3 r3 where stack: "?stack = (s3, r3)" by (cases ?stack)
      have rest: "(s', res) = st_then (s3, r3) (\<lambda>s initial_rsp. (s, Ok (r, initial_rsp)))"
        using call hhdm table r load True stack by (simp add: build_space_def make_table_def)
      let ?img = "stack_image (ai_entry_point a) (ai_ph_addr a) (ai_ph_num a) argv envp"
      have "space P h r s3 \<and> (r3 = Fail InvalidSegmentMap \<and> no_frame s3 \<or>
          (\<exists>sp. r3 = Ok sp \<and> unat sp + length ?img = unat USER_STACK_TOP \<and> (\<forall>v. unat v < 2 ^ 47 \<longrightarrow> user_view h r s3 v =
            (if on_stack v then Some (if v < sp then 0 else ?img ! (unat v - unat sp)) else user_view h r s2 v))))"
        by (rule setup_stack_ok [OF s2 _ fits [unfolded stack_fits_def] stack]) (rule free)
      then show ?thesis
      proof (elim conjE disjE exE)
        fix sp
        assume s3: "space P h r s3" and r3: "r3 = Ok sp" and sp: "unat sp + length ?img = unat USER_STACK_TOP"
          and v3: "\<forall>v. unat v < 2 ^ 47 \<longrightarrow> user_view h r s3 v =
            (if on_stack v then Some (if v < sp then 0 else ?img ! (unat v - unat sp)) else user_view h r s2 v)"
        have "unat sp = unat USER_STACK_TOP - length ?img" using sp by simp
        then have "user_view h r s3 v = process_view a argv envp v" if "unat v < 2 ^ 47" for v
          using v3 view that by (simp add: process_view_def Let_def word_less_nat_alt)
        with s3 rest r3 show ?thesis by simp
      qed (use rest in auto)
    qed
  qed
qed

text \<open>How starting a process ends: started, out of frames, or refused by the scheduler.\<close>

definition started ::
  "init_env \<Rightarrow> init_system \<Rightarrow> init_system \<Rightarrow> spawned_init_process \<Rightarrow> u64 \<Rightarrow> bool" where
  "started env y y' p r =
     (create_user_thread (ien_sched env) (isy_sched y) r = (isy_sched y', Ok (spi_thread_id p, spi_process_id p)) \<and>
      ix_current_process_id (isy_exec y') = spi_process_id p \<and> ix_current_thread_id (isy_exec y') = spi_thread_id p)"

definition not_started :: "init_env \<Rightarrow> init_system \<Rightarrow> init_system \<Rightarrow> (init_exec_error, spawned_init_process) outcome \<Rightarrow> bool" where
  "not_started env y y' res =
     (isy_exec y' = isy_exec y \<and>
      (res = Fail InvalidSegmentMap \<and> no_frame (isy_pages y') \<or>
       (\<exists>r e. create_user_thread (ien_sched env) (isy_sched y) r = (isy_sched y', Inl e)
          \<and> res = map_err (\<lambda>_. InvalidSegmentMap) (Inl e))))"

lemma start_process_ok:
  assumes hhdm: "ien_hhdm env = Some h" and half: "kernel_half P h (ien_cr3 env AND PAGE_ADDRESS_MASK) (isy_pages y)"
    and img: "loadable_image a" and fits: "stack_fits a argv envp"
    and call: "start_process env y a argv envp = (y', res)"
  shows "not_started env y y' res \<or>
    (\<exists>p r. res = Ok p \<and> started env y y' p r \<and> space P h r (isy_pages y')
       \<and> (\<forall>v. unat v < 2 ^ 47 \<longrightarrow> user_view h r (isy_pages y') v = process_view a argv envp v))"
proof -
  obtain s1 r1 where build: "build_space env a argv envp (isy_pages y) = (s1, r1)"
    by (cases "build_space env a argv envp (isy_pages y)")
  from build_space_ok [OF hhdm half img fits build] show ?thesis
  proof (elim disjE exE conjE)
    assume "r1 = Fail InvalidSegmentMap" "no_frame s1"
    with call build show ?thesis by (auto simp: start_process_def on_memory_def not_started_def)
  next
    fix r sp
    assume ok: "r1 = Ok (r, sp)" "space P h r s1" "\<forall>v. unat v < 2 ^ 47 \<longrightarrow> user_view h r s1 v = process_view a argv envp v"
    obtain sched r2 where thread: "create_user_thread (ien_sched env) (isy_sched y) r = (sched, r2)"
      by (cases "create_user_thread (ien_sched env) (isy_sched y) r")
    show ?thesis
    proof (cases r2)
      case (Inl e)
      with call build ok thread have "isy_sched y' = sched" "isy_exec y' = isy_exec y" "res = map_err (\<lambda>_. InvalidSegmentMap) (Inl e)"
        by (cases e; simp add: start_process_def on_memory_def; auto)+
      with thread Inl show ?thesis unfolding not_started_def by blast
    next
      case (Inr tp)
      then obtain tid pid where "r2 = Ok (tid, pid)" by (cases tp) simp
      then have "res = Ok \<lparr>spi_thread_id = tid, spi_process_id = pid, spi_restart_count = ix_restart_count (isy_exec y)\<rparr>"
          "isy_pages y' = s1" "started env y y' \<lparr>spi_thread_id = tid, spi_process_id = pid, spi_restart_count = ix_restart_count (isy_exec y)\<rparr> r"
        using call build ok thread by (auto simp: start_process_def on_memory_def started_def)
      with ok show ?thesis by blast
    qed
  qed
qed

section \<open>Restarting\<close>

datatype init_event = InitExit u64 u64 u32 | InitService | InitSpawn string "string list" "string list"

text \<open>An event, and whether it started the program again.\<close>

fun init_event_step :: "init_env \<Rightarrow> init_system \<Rightarrow> init_event \<Rightarrow> init_system \<times> nat" where
  "init_event_step env y (InitExit pid tid status) =
     (y\<lparr>isy_exec := fst (note_init_exit (isy_exec y) pid tid status)\<rparr>, 0)"
| "init_event_step env y InitService =
     (let (y', r) = service_pending_restart env y in (y', if r = None then 0 else 1))"
| "init_event_step env y (InitSpawn path argv envp) = (fst (spawn_executable env y path argv envp), 0)"

fun init_events :: "init_env \<Rightarrow> init_system \<Rightarrow> init_event list \<Rightarrow> init_system \<times> nat" where
  "init_events env y [] = (y, 0)"
| "init_events env y (ev # evs) =
     (let (y1, n) = init_event_step env y ev; (y2, k) = init_events env y1 evs in (y2, n + k))"

definition restart_inv :: "init_exec_state \<Rightarrow> bool" where
  "restart_inv st =
     (unat (ix_restart_count st) \<le> 4 \<and> (ix_restart_pending st \<longrightarrow> unat (ix_restart_count st) < 4))"

definition same_restarts :: "init_exec_state \<Rightarrow> init_exec_state \<Rightarrow> bool" where
  "same_restarts st st' =
     (ix_restart_count st' = ix_restart_count st \<and> (ix_restart_pending st' \<longrightarrow> ix_restart_pending st))"

lemma start_process_restarts: "same_restarts (isy_exec y) (isy_exec (fst (start_process env y a argv envp)))"
  by (auto simp: start_process_def on_memory_def same_restarts_def st_then_def split: prod.splits sum.splits)

lemma spawn_restarts:
  "same_restarts (isy_exec y) (isy_exec (fst (spawn_executable env y path argv envp)))"
  "same_restarts (isy_exec y) (isy_exec (fst (spawn_init_process env y)))"
  using start_process_restarts [of y env]
  by (auto simp: spawn_executable_def spawn_init_process_def same_restarts_def st_then_def
      split: prod.splits sum.splits) (metis fst_conv)+

lemma same_restarts_inv: "restart_inv st \<Longrightarrow> same_restarts st st' \<Longrightarrow> restart_inv st'"
  by (auto simp: restart_inv_def same_restarts_def)

lemma init_event_step_inv:
  assumes inv: "restart_inv (isy_exec y)" and step: "init_event_step env y ev = (y', n)"
  shows "restart_inv (isy_exec y') \<and> unat (ix_restart_count (isy_exec y')) = unat (ix_restart_count (isy_exec y)) + n"
proof (cases ev)
  case (InitExit pid tid status)
  with step inv show ?thesis
    by (auto simp: note_init_exit_def restart_inv_def MAX_INIT_RESTARTS_def Let_def word_less_nat_alt)
next
  case InitService
  show ?thesis
  proof (cases "ix_restart_pending (isy_exec y)")
    case True
    let ?st = "(isy_exec y)\<lparr>ix_restart_pending := False, ix_restart_count := sat_add (ix_restart_count (isy_exec y)) 1\<rparr>"
    have "unat (ix_restart_count (isy_exec y)) < 4"
      using inv True by (simp add: restart_inv_def)
    then have count: "unat (ix_restart_count ?st) = unat (ix_restart_count (isy_exec y)) + 1" and "restart_inv ?st"
      by (simp_all add: unat_sat_add restart_inv_def)
    moreover have "y' = fst (spawn_init_process env (y\<lparr>isy_exec := ?st\<rparr>))" "n = 1"
      using step InitService True by (auto simp: service_pending_restart_def Let_def split: prod.splits)
    ultimately show ?thesis
      using spawn_restarts(2) [of "y\<lparr>isy_exec := ?st\<rparr>" env] same_restarts_inv [of ?st "isy_exec y'"]
      by (auto simp: same_restarts_def)
  next
    case False
    with step InitService inv show ?thesis by (auto simp: service_pending_restart_def Let_def)
  qed
next
  case (InitSpawn path argv envp)
  with step have "y' = fst (spawn_executable env y path argv envp)" "n = 0" by auto
  with spawn_restarts(1) [of y env path argv envp] inv same_restarts_inv show ?thesis
    by (auto simp: same_restarts_def)
qed

lemma init_events_inv:
  "restart_inv (isy_exec y) \<Longrightarrow> init_events env y evs = (y', n) \<Longrightarrow>
    restart_inv (isy_exec y') \<and> unat (ix_restart_count (isy_exec y')) = unat (ix_restart_count (isy_exec y)) + n"
proof (induction evs arbitrary: y n)
  case (Cons ev evs)
  obtain y1 k where one: "init_event_step env y ev = (y1, k)" by (cases "init_event_step env y ev")
  obtain m where rest: "init_events env y1 evs = (y', m)" "n = k + m"
    using Cons.prems(2) one by (auto split: prod.splits)
  show ?case
    using init_event_step_inv [OF Cons.prems(1) one] Cons.IH [OF _ rest(1)] rest(2) by auto
qed simp

section \<open>Properties\<close>



definition hello_file :: elf_file where
  "hello_file = sample_file\<lparr>ef_entry := 0x401010\<rparr>"

definition hello_item :: newc_item where
  "hello_item = boot_item\<lparr>ni_data := elf_encode hello_file\<rparr>"

definition hello_env :: init_env where
  "hello_env = \<lparr>ien_vfs = boot_env\<lparr>ve_initrd := boot_initrd None None (newc_encode ([] @ hello_item # []) @ [])\<rparr>,
     ien_cr3 = 0x1000, ien_hhdm = Some demo_hhdm,
     ien_sched = \<lparr>ev_cr3 = 0x1000, ev_idle_stack = 0, ev_user_stacks = 0, ev_clone_space = id\<rparr>\<rparr>"

lemma hello_headers: "load_headers hello_file = [(0, sample_header)]"
  using sample_cooked by (simp add: load_headers_def hello_file_def is_loadable_def sample_header_def)

lemma length_hello: "length (elf_encode hello_file) = 120"
  by (simp add: elf_encode_def elf_encode_ehdr_def hello_file_def sample_file_def ELF_MAGIC_def)

lemma hello_program: "user_program hello_file" "good_elf hello_file"
proof -
  have h: "header_in_image (elf_encode hello_file) sample_header"
    unfolding header_in_image_def length_hello by (simp add: sample_header_def)
  then show good: "good_elf hello_file"
    using sample_cooked unfolding good_elf_def length_hello by (simp add: hello_file_def sample_file_def)
  have "user_header (elf_encode hello_file) sample_header"
    using h by (simp add: user_header_def header_end_def sample_header_def length_hello)
  moreover have "found_entry (ef_entry hello_file) sample_header"
    by (simp add: found_entry_def header_end_def sample_header_def hello_file_def can_execute_def PF_EXECUTE_def)
  ultimately show "user_program hello_file"
    using good by (simp add: user_program_def hello_headers)
qed

lemma hello_boot:
  "ve_state (ien_vfs hello_env) = Some True"
  "ve_initrd (ien_vfs hello_env) = boot_initrd None None (newc_encode ([] @ hello_item # []) @ [])"
  "\<forall>it \<in> set ([] @ hello_item # []). good_item it" "item_path hello_item = ''/initrd/init''"
  "item_path hello_item \<noteq> INITRD_ROOT" "item_path hello_item \<notin> (\<Union>x \<in> set []. unpacked_paths x)"
  "ni_mode hello_item AND FILE_TYPE_MASK \<noteq> FILE_TYPE_DIRECTORY" "normal_path (item_path hello_item)"
  "ni_data hello_item = elf_encode hello_file"
  "\<forall>r \<in> set (ef_headers hello_file). is_loadable (cooked r) \<longrightarrow> mappable (cooked r)"
proof -
  have n: "normalize_archive_path ''init'' = Ok ''/initrd/init''" by code_simp
  have "utf8_valid (bytes_of ''init'')" by code_simp
  with n show "\<forall>it \<in> set ([] @ hello_item # []). good_item it" and p: "item_path hello_item = ''/initrd/init''"
    by (simp_all add: good_item_def sized_item_def item_path_def hello_item_def boot_item_def length_hello)
  show "normal_path (item_path hello_item)" unfolding p by code_simp
  show "item_path hello_item \<noteq> INITRD_ROOT" by (simp add: p INITRD_ROOT_def)
qed (simp_all add: hello_env_def boot_env_def hello_item_def boot_item_def FILE_TYPE_MASK_def FILE_TYPE_DIRECTORY_def
    hello_file_def sample_file_def mappable_def cooked_def)

lemma hello_prepared:
  "returns (prepare_executable_load (ien_vfs hello_env) ''/initrd/init'') (\<lambda>prep.
     ec_path prep = ''/initrd/init'' \<and> ec_mount prep = MountInitrd \<and> prepared hello_file prep)"
  using prepare_boot_program [OF hello_boot(1-3,5-9) hello_program(2) hello_boot(10)] unfolding hello_boot(4)
  by (rule returns_mono) (simp add: prepared_def)


end
