(* ===== verification/Uaccess.thy ===== *)
theory Uaccess
  imports Prelude
begin

text \<open>
  Copying between the kernel and a process (\<^verbatim>\<open>src/kernel/src/uaccess.rs\<close>).

  The address space is a map from addresses to bytes.  An address it does not hold is one whose
  access faults with no page to map: the page-fault handler of a fault taken in the kernel halts the
  processor, and that is \<open>Panic\<close>.  The range check, the errors and the copies are the source's.
\<close>

type_synonym user_memory = "u64 \<Rightarrow> u8 option"

definition LOW_CANONICAL_MAX :: u64 where "LOW_CANONICAL_MAX = push_bit 47 1 - 1"
definition HIGH_CANONICAL_MIN :: u64 where "HIGH_CANONICAL_MIN = NOT LOW_CANONICAL_MAX"
definition MAX_COPY_BYTES :: nat where "MAX_COPY_BYTES = 2 ^ 20"

datatype user_copy_error = NullPointer | RangeOverflow | NonCanonical | TooLarge

fun copy_errno :: "user_copy_error \<Rightarrow> int" where
  "copy_errno NullPointer = 14"
| "copy_errno RangeOverflow = 14"
| "copy_errno NonCanonical = 14"
| "copy_errno TooLarge = 34"

definition is_canonical_address :: "u64 \<Rightarrow> bool" where
  "is_canonical_address address = (address \<le> LOW_CANONICAL_MAX \<or> HIGH_CANONICAL_MIN \<le> address)"

definition validate_user_range :: "u64 \<Rightarrow> nat \<Rightarrow> (user_copy_error, unit) outcome" where
  "validate_user_range start len =
     (if MAX_COPY_BYTES < len then Fail TooLarge
      else if len = 0 then Ok ()
      else if start = 0 then Fail NullPointer
      else and_then (ok_or (checked_add start (of_nat (len - 1))) RangeOverflow) (\<lambda>end_address.
        if \<not> is_canonical_address start \<or> \<not> is_canonical_address end_address then Fail NonCanonical
        else Ok ()))"

fun load_bytes :: "user_memory \<Rightarrow> u64 \<Rightarrow> nat \<Rightarrow> (user_copy_error, bytes) outcome" where
  "load_bytes m p 0 = Ok []"
| "load_bytes m p (Suc n) =
     (case m p of None \<Rightarrow> Abort
      | Some b \<Rightarrow> and_then (load_bytes m (p + 1) n) (\<lambda>bs. Ok (b # bs)))"

fun store_bytes :: "user_memory \<Rightarrow> u64 \<Rightarrow> bytes \<Rightarrow> (user_copy_error, user_memory) outcome" where
  "store_bytes m p [] = Ok m"
| "store_bytes m p (b # bs) =
     (case m p of None \<Rightarrow> Abort | Some _ \<Rightarrow> store_bytes (m(p \<mapsto> b)) (p + 1) bs)"

definition copyin :: "user_memory \<Rightarrow> u64 \<Rightarrow> nat \<Rightarrow> (user_copy_error, bytes) outcome" where
  "copyin m user_ptr len =
     and_then (validate_user_range user_ptr len) (\<lambda>_.
     if len = 0 then Ok [] else load_bytes m user_ptr len)"

definition copyout :: "user_memory \<Rightarrow> bytes \<Rightarrow> u64 \<Rightarrow> (user_copy_error, user_memory) outcome" where
  "copyout m src user_ptr =
     and_then (validate_user_range user_ptr (length src)) (\<lambda>_.
     if src = [] then Ok m else store_bytes m user_ptr src)"

section \<open>The range check\<close>

lemma unat_LOW [simp]: "unat LOW_CANONICAL_MAX = 2 ^ 47 - 1"
  by (simp add: LOW_CANONICAL_MAX_def push_bit_eq_mult unat_sub word_le_nat_alt)

lemma unat_HIGH [simp]: "unat HIGH_CANONICAL_MIN = 2 ^ 64 - 2 ^ 47"
  by (simp add: HIGH_CANONICAL_MIN_def LOW_CANONICAL_MAX_def push_bit_eq_mult)

lemma canonical_iff: "is_canonical_address a \<longleftrightarrow> unat a < 2 ^ 47 \<or> 2 ^ 64 - 2 ^ 47 \<le> unat a"
  by (auto simp: is_canonical_address_def word_le_nat_alt)

lemma unat_of_nat_u64 [simp]: "n < 2 ^ 64 \<Longrightarrow> unat (of_nat n :: u64) = n"
  by (simp add: unat_of_nat)

lemma unat_plus_of_nat: "unat p + n < 2 ^ 64 \<Longrightarrow> unat (p + of_nat n :: u64) = unat p + n"
  by (simp add: unat_word_ariths)

text \<open>The end points of a range of at most \<open>2 ^ 20\<close> bytes decide for every address in between.\<close>

lemma validate_iff:
  "validate_user_range start len = Ok () \<longleftrightarrow>
     len = 0 \<or> (len \<le> MAX_COPY_BYTES \<and> start \<noteq> 0 \<and> unat start + (len - 1) < 2 ^ 64
       \<and> is_canonical_address start \<and> is_canonical_address (start + of_nat (len - 1)))"
proof (cases "len = 0 \<or> MAX_COPY_BYTES < len")
  case False
  then have "unat (of_nat (len - 1) :: u64) = len - 1"
    by (intro unat_of_nat_u64) (auto simp: MAX_COPY_BYTES_def)
  with False show ?thesis
    unfolding validate_user_range_def checked_add_def by (auto simp del: of_nat_diff)
qed (auto simp: validate_user_range_def MAX_COPY_BYTES_def)

lemma validate_empty [simp]: "validate_user_range start 0 = Ok ()"
  by (simp add: validate_iff)

lemma validate_cases:
  "validate_user_range start len \<in> {Ok (), Fail TooLarge, Fail NullPointer, Fail RangeOverflow, Fail NonCanonical}"
  by (auto simp: validate_user_range_def checked_add_def)

lemma validate_no_panic [simp]: "validate_user_range start len \<noteq> Abort"
  using validate_cases [of start len] by auto

lemma validate_one_half:
  assumes "validate_user_range start len = Ok ()" and "len \<noteq> 0"
  shows "(unat start + len \<le> 2 ^ 47) \<or> (2 ^ 64 - 2 ^ 47 \<le> unat start \<and> unat start + len \<le> 2 ^ 64)"
proof -
  have r: "len \<le> 2 ^ 20" "unat start + (len - 1) < 2 ^ 64" "is_canonical_address start"
      "is_canonical_address (start + of_nat (len - 1))"
    using assms by (auto simp: validate_iff MAX_COPY_BYTES_def)
  then have "unat (start + of_nat (len - 1)) = unat start + (len - 1)"
    by (intro unat_plus_of_nat)
  with r assms(2) show ?thesis
    by (auto simp: canonical_iff)
qed

text \<open>
  C26.  The check accepts exactly the empty range and the ranges of at most \<open>2 ^ 20\<close> bytes that do
  not start at zero, do not run past the end of the address space and lie in one canonical half;
  so every address of an accepted range is canonical, although only two of them are tested.
\<close>

theorem user_range_exact:
  "validate_user_range start len = Ok () \<longleftrightarrow>
     len = 0 \<or>
     (len \<le> MAX_COPY_BYTES \<and> start \<noteq> 0 \<and> unat start + len \<le> 2 ^ 64
       \<and> list_all (\<lambda>i. is_canonical_address (start + of_nat i)) [0 ..< len])"
proof (cases "len = 0")
  case False
  show ?thesis
  proof
    assume v: "validate_user_range start len = Ok ()"
    have half: "(unat start + len \<le> 2 ^ 47) \<or> (2 ^ 64 - 2 ^ 47 \<le> unat start \<and> unat start + len \<le> 2 ^ 64)"
      by (rule validate_one_half [OF v False])
    have "is_canonical_address (start + of_nat i)" if "i < len" for i
      using half that by (auto simp: canonical_iff unat_plus_of_nat)
    then show "len = 0 \<or> (len \<le> MAX_COPY_BYTES \<and> start \<noteq> 0 \<and> unat start + len \<le> 2 ^ 64
       \<and> list_all (\<lambda>i. is_canonical_address (start + of_nat i)) [0 ..< len])"
      using v half by (auto simp: validate_iff list_all_iff)
  next
    assume r: "len = 0 \<or> (len \<le> MAX_COPY_BYTES \<and> start \<noteq> 0 \<and> unat start + len \<le> 2 ^ 64
       \<and> list_all (\<lambda>i. is_canonical_address (start + of_nat i)) [0 ..< len])"
    with False have all: "\<And>i. i < len \<Longrightarrow> is_canonical_address (start + of_nat i)"
      by (auto simp: list_all_iff)
    show "validate_user_range start len = Ok ()"
      using r False all [of 0] all [of "len - 1"] by (auto simp: validate_iff)
  qed
qed (simp add: validate_iff)

section \<open>The copies\<close>

lemma load_bytes_length: "load_bytes m p n = Ok bs \<Longrightarrow> length bs = n"
  by (induction m p n arbitrary: bs rule: load_bytes.induct)
    (auto simp: and_then_Inr split: option.splits)

lemma copyin_length: "copyin m p n = Ok bs \<Longrightarrow> length bs = n"
  by (auto simp: copyin_def and_then_Inr load_bytes_length split: if_splits)

lemma plus_of_nat_Suc: "p + 1 + of_nat i = (p + of_nat (Suc i) :: u64)"
  by simp

lemma store_bytes_spec:
  assumes "store_bytes m p bs = Ok m'" and "length bs < 2 ^ 64"
  shows "m' q = (if unat (q - p) < length bs then Some (bs ! unat (q - p)) else m q)"
  using assms
proof (induction bs arbitrary: m p)
  case (Cons b bs)
  then have st: "store_bytes (m(p \<mapsto> b)) (p + 1) bs = Ok m'"
    by (auto split: option.splits)
  have ih: "m' q = (if unat (q - (p + 1)) < length bs then Some (bs ! unat (q - (p + 1))) else (m(p \<mapsto> b)) q)"
    using Cons.prems(2) by (intro Cons.IH [OF st]) simp
  show ?case
  proof (cases "q = p")
    case True
    have "unat (p - (p + 1)) = 2 ^ 64 - 1"
      using unat_minus_one_word [where ?'a = 64] by simp
    with True ih Cons.prems(2) show ?thesis by simp
  next
    case False
    then have "unat (q - p) = Suc (unat (q - (p + 1)))"
      using unat_minus_one [of "q - p"] by (simp add: diff_diff_eq unat_gt_0)
    with False ih show ?thesis by simp
  qed
qed simp

lemma load_bytes_ok:
  "(\<And>i. i < n \<Longrightarrow> m (p + of_nat i) = Some (f i)) \<Longrightarrow> load_bytes m p n = Ok (map f [0 ..< n])"
proof (induction n arbitrary: p f)
  case (Suc n)
  have "load_bytes m (p + 1) n = Ok (map (\<lambda>i. f (Suc i)) [0 ..< n])"
    using Suc.prems by (intro Suc.IH) (metis Suc_mono plus_of_nat_Suc)
  moreover have "m p = Some (f 0)"
    using Suc.prems [of 0] by simp
  ultimately show ?case
    by (simp add: upt_conv_Cons map_Suc_upt [symmetric] comp_def del: upt_Suc)
qed simp

lemma store_bytes_ok:
  "(\<And>i. i < length bs \<Longrightarrow> m (p + of_nat i) \<noteq> None) \<Longrightarrow> \<exists>m'. store_bytes m p bs = Ok m'"
proof (induction bs arbitrary: m p)
  case (Cons b bs)
  have "(m(p \<mapsto> b)) (p + 1 + of_nat i) \<noteq> None" if "i < length bs" for i
    using Cons.prems [of "Suc i"] that by (simp add: add.assoc)
  then have "\<exists>m'. store_bytes (m(p \<mapsto> b)) (p + 1) bs = Ok m'"
    by (rule Cons.IH)
  with Cons.prems [of 0] show ?case
    by auto
qed simp

lemma copyout_frame:
  assumes "copyout m bs p = Ok m'"
  shows "m' q = (if unat (q - p) < length bs then Some (bs ! unat (q - p)) else m q)"
proof (cases "bs = []")
  case False
  then have v: "validate_user_range p (length bs) = Ok ()" and st: "store_bytes m p bs = Ok m'"
    using assms by (auto simp: copyout_def and_then_Inr)
  from v False have "length bs \<le> 2 ^ 20"
    by (auto simp: validate_iff MAX_COPY_BYTES_def)
  then show ?thesis
    by (intro store_bytes_spec [OF st]) simp
qed (use assms in \<open>simp add: copyout_def\<close>)

lemma copyout_mapped: "copyout m bs p = Ok m' \<Longrightarrow> m' q = None \<longleftrightarrow> m q = None"
proof -
  have "store_bytes m p bs = Ok m' \<Longrightarrow> m' q = None \<longleftrightarrow> m q = None"
    by (induction bs arbitrary: m p) (auto split: option.splits if_splits)
  then show "copyout m bs p = Ok m' \<Longrightarrow> m' q = None \<longleftrightarrow> m q = None"
    by (auto simp: copyout_def and_then_Inr split: if_splits)
qed

text \<open>
  C27.  What was copied out to a process is what a copy in from the same place returns, and no other
  byte of the address space has changed.
\<close>

theorem copyout_copyin:
  assumes "copyout m bs p = Ok m'"
  shows "copyin m' p (length bs) = Ok bs \<and> (\<forall>q. length bs \<le> unat (q - p) \<longrightarrow> m' q = m q)"
proof
  show "\<forall>q. length bs \<le> unat (q - p) \<longrightarrow> m' q = m q"
    using copyout_frame [OF assms] by simp
  have v: "validate_user_range p (length bs) = Ok ()"
    using assms by (auto simp: copyout_def and_then_Inr)
  show "copyin m' p (length bs) = Ok bs"
  proof (cases "bs = []")
    case False
    with v have "length bs \<le> 2 ^ 20"
      by (auto simp: validate_iff MAX_COPY_BYTES_def)
    then have "m' (p + of_nat i) = Some (bs ! i)" if "i < length bs" for i
      using copyout_frame [OF assms, of "p + of_nat i"] that by simp
    then have "load_bytes m' p (length bs) = Ok (map ((!) bs) [0 ..< length bs])"
      by (rule load_bytes_ok)
    with v show ?thesis
      by (simp add: copyin_def map_nth)
  qed (simp add: copyin_def)
qed

theorem copyout_copyin_witness:
  "\<exists>m'. copyout (\<lambda>_. Some 0) [1, 2, 3] 4096 = Ok m' \<and> copyin m' 4096 3 = Ok [1, 2, 3]"
proof -
  obtain m' where m': "copyout (\<lambda>_. Some 0) [1, 2, 3] 4096 = Ok m'"
    by (auto simp: copyout_def validate_user_range_def MAX_COPY_BYTES_def checked_add_def canonical_iff)
  then show ?thesis
    using copyout_copyin [OF m'] by (auto simp: numeral_3_eq_3)
qed

text \<open>
  The check does not keep a process out of the kernel's half of the address space: a range of
  kernel addresses passes.
\<close>

theorem kernel_range_accepted:
  "validate_user_range 0xFFFFFFFF80000000 4096 = Ok ()"
  by (simp add: validate_iff MAX_COPY_BYTES_def canonical_iff)

end
