(* ===== verification/Lcl.thy ===== *)
theory Lcl
  imports Prelude
begin

text \<open>
  The message queue to the Linux compatibility layer (\<^verbatim>\<open>LclQueue\<close> of
  \<^verbatim>\<open>src/kernel/src/syscall.rs\<close>).

  The locale \<open>bounded_fifo\<close> is what a client expects of such a queue: putting appends while there
  is room, getting takes the oldest message.  Its lemma \<open>run_fifo\<close> says that any sequence of calls
  then answers as a list would.  The ring of 64 cells is shown to be an instance.
\<close>

section \<open>First in, first out\<close>

text \<open>\<open>Some x\<close> puts \<open>x\<close>, \<open>None\<close> gets; the answers of the gets are collected.\<close>

fun run_queue ::
  "('q \<Rightarrow> 'a \<Rightarrow> ('e, 'q) outcome) \<Rightarrow> ('q \<Rightarrow> ('e, 'q \<times> 'a option) outcome) \<Rightarrow> 'q \<Rightarrow> 'a option list
   \<Rightarrow> ('e, 'q \<times> 'a option list) outcome" where
  "run_queue put get q [] = Ok (q, [])"
| "run_queue put get q (Some x # ops) = and_then (put q x) (\<lambda>q. run_queue put get q ops)"
| "run_queue put get q (None # ops) =
     and_then (get q) (\<lambda>(q, r). and_then (run_queue put get q ops) (\<lambda>(q, rs). Ok (q, r # rs)))"

text \<open>The same calls on a list, and whether they ever hold more than \<open>cap\<close> messages.\<close>

fun run_list :: "'a list \<Rightarrow> 'a option list \<Rightarrow> 'a list \<times> 'a option list" where
  "run_list xs [] = (xs, [])"
| "run_list xs (Some x # ops) = run_list (xs @ [x]) ops"
| "run_list [] (None # ops) = (let (ys, rs) = run_list [] ops in (ys, None # rs))"
| "run_list (x # xs) (None # ops) = (let (ys, rs) = run_list xs ops in (ys, Some x # rs))"

fun fits :: "nat \<Rightarrow> nat \<Rightarrow> 'a option list \<Rightarrow> bool" where
  "fits cap n [] = True"
| "fits cap n (Some x # ops) = (n < cap \<and> fits cap (n + 1) ops)"
| "fits cap n (None # ops) = fits cap (n - 1) ops"

locale bounded_fifo =
  fixes inv :: "'q \<Rightarrow> bool" and contents :: "'q \<Rightarrow> 'a list" and cap :: nat
    and put :: "'q \<Rightarrow> 'a \<Rightarrow> ('e, 'q) outcome" and get :: "'q \<Rightarrow> ('e, 'q \<times> 'a option) outcome"
  assumes put_appends: "inv q \<Longrightarrow> length (contents q) < cap \<Longrightarrow>
      returns (put q x) (\<lambda>q'. inv q' \<and> contents q' = contents q @ [x])"
    and get_empty: "inv q \<Longrightarrow> contents q = [] \<Longrightarrow> get q = Ok (q, None)"
    and get_oldest: "inv q \<Longrightarrow> contents q = x # xs \<Longrightarrow>
      returns (get q) (\<lambda>(q', r). inv q' \<and> contents q' = xs \<and> r = Some x)"
begin

lemma run_fifo:
  assumes "inv q" and "fits cap (length (contents q)) ops"
  shows "returns (run_queue put get q ops)
    (\<lambda>(q', rs). inv q' \<and> run_list (contents q) ops = (contents q', rs))"
  using assms
proof (induction ops arbitrary: q)
  case (Cons op ops)
  show ?case
  proof (cases op)
    case (Some x)
    with Cons.prems obtain q' where "put q x = Ok q'" "inv q'" "contents q' = contents q @ [x]"
      using put_appends [of q x] by (auto elim: returnsE)
    with Cons Some show ?thesis
      using Cons.IH [of q'] by simp
  next
    case None
    show ?thesis
    proof (cases "contents q")
      case Nil
      with Cons.prems None show ?thesis
        using Cons.IH [of q] get_empty [of q] by (auto elim!: returnsE)
    next
      case (Cons x xs)
      obtain q' where "get q = Ok (q', Some x)" "inv q'" "contents q' = xs"
        using get_oldest [OF \<open>inv q\<close> Cons] by (auto elim!: returnsE)
      with Cons.prems None Cons show ?thesis
        using Cons.IH [of q'] by (auto elim!: returnsE)
    qed
  qed
qed simp

end

section \<open>The ring\<close>

record lcl_message =
  lm_pid :: u64
  lm_tid :: u64
  lm_number :: u64
  lm_args :: "u64 list"
  lm_abi :: u64

record lcl_queue =
  lq_messages :: "lcl_message option list"
  lq_head :: nat
  lq_tail :: nat

definition LCL_QUEUE :: lcl_queue where
  "LCL_QUEUE = \<lparr>lq_messages = replicate 64 None, lq_head = 0, lq_tail = 0\<rparr>"

definition enqueue_lcl_message :: "lcl_queue \<Rightarrow> lcl_message \<Rightarrow> ('e, lcl_queue) outcome" where
  "enqueue_lcl_message q msg =
     and_then (set_at (lq_messages q) (lq_head q) (Some msg)) (\<lambda>ms.
     Ok (q\<lparr>lq_messages := ms, lq_head := (lq_head q + 1) mod 64\<rparr>))"

definition dequeue_lcl_message :: "lcl_queue \<Rightarrow> ('e, lcl_queue \<times> lcl_message option) outcome" where
  "dequeue_lcl_message q =
     and_then (index_at (lq_messages q) (lq_tail q)) (\<lambda>m.
     if lq_head q = lq_tail q then
       if m = None then Ok (q, None)
       else Ok (q\<lparr>lq_messages := (lq_messages q)[lq_tail q := None],
                  lq_tail := (lq_tail q + 1) mod 64\<rparr>, m)
     else
       let q = q\<lparr>lq_messages := (lq_messages q)[lq_tail q := None]\<rparr>
       in Ok (if m \<noteq> None then q\<lparr>lq_tail := (lq_tail q + 1) mod 64\<rparr> else q, m))"

text \<open>
  Read from the tail on, the ring holds the pending messages, oldest first, and then empty cells;
  the head is the cell after the last message.
\<close>

definition lcl_contents :: "lcl_queue \<Rightarrow> lcl_message list" where
  "lcl_contents q = map the (takeWhile (\<lambda>m. m \<noteq> None) (rotate (lq_tail q) (lq_messages q)))"

definition lcl_holds :: "lcl_queue \<Rightarrow> lcl_message list \<Rightarrow> bool" where
  "lcl_holds q xs =
     (length xs \<le> 64 \<and> lq_tail q < 64 \<and> lq_head q = (lq_tail q + length xs) mod 64
      \<and> rotate (lq_tail q) (lq_messages q) = map Some xs @ replicate (64 - length xs) None)"

definition lcl_inv :: "lcl_queue \<Rightarrow> bool" where
  "lcl_inv q = lcl_holds q (lcl_contents q)"

lemma takeWhile_Some: "takeWhile (\<lambda>m. m \<noteq> None) (map Some xs @ replicate n None) = map Some xs"
  by (induction xs) (cases n; simp)+

lemma lcl_holds_iff: "lcl_holds q xs \<longleftrightarrow> lcl_inv q \<and> lcl_contents q = xs"
proof -
  have "lcl_contents q = xs" if "lcl_holds q xs"
    using that by (simp add: lcl_contents_def lcl_holds_def takeWhile_Some comp_def del: not_None_eq)
  then show ?thesis
    by (auto simp: lcl_inv_def)
qed

lemma lcl_holds_length: "lcl_holds q xs \<Longrightarrow> length (lq_messages q) = 64"
  unfolding lcl_holds_def by (metis length_rotate length_append length_map length_replicate le_add_diff_inverse)

lemma mod_add_inj: "k < n \<Longrightarrow> i < n \<Longrightarrow> (t + k) mod n = (t + i) mod n \<longleftrightarrow> k = i" for k i n t :: nat
proof -
  assume k: "k < n" "i < n"
  have "(t + j) mod n = (if t mod n + j < n then t mod n + j else t mod n + j - n)" if "j < n" for j
  proof -
    have "t mod n + j - n < n"
      using that mod_less_divisor [of n t] by linarith
    then show ?thesis
      using that by (simp add: mod_if [of "t mod n + j"] flip: mod_add_left_eq [of t n j])
  qed
  with k show ?thesis
    by (auto split: if_splits)
qed

lemma rotate_update:
  assumes "k < length l"
  shows "rotate t (l[(t + k) mod length l := x]) = (rotate t l)[k := x]"
proof (rule nth_equalityI)
  fix i assume "i < length (rotate t (l[(t + k) mod length l := x]))"
  then have i: "i < length l" by simp
  have "(t + k) mod length l = (t + i) mod length l \<longleftrightarrow> k = i"
    using assms i by (rule mod_add_inj)
  moreover have "(t + i) mod length l < length l"
    using i by (intro mod_less_divisor) linarith
  ultimately show "rotate t (l[(t + k) mod length l := x]) ! i = (rotate t l)[k := x] ! i"
    using assms i by (auto simp: nth_rotate nth_list_update)
qed simp

lemma enqueue_lcl_holds:
  assumes h: "lcl_holds q xs" and room: "length xs < 64"
  shows "returns (enqueue_lcl_message q x) (\<lambda>q'. lcl_holds q' (xs @ [x]))"
proof -
  have len: "length (lq_messages q) = 64"
    by (rule lcl_holds_length [OF h])
  have "(map Some xs @ replicate (64 - length xs) None)[length xs := Some x]
      = map Some (xs @ [x]) @ replicate (64 - length (xs @ [x])) None"
    using room by (simp add: list_update_append Suc_diff_Suc [symmetric])
  then show ?thesis
    using h room rotate_update [of "length xs" "lq_messages q" "lq_tail q" "Some x"] len
    by (simp add: enqueue_lcl_message_def lcl_holds_def mod_Suc_eq)
qed

lemma dequeue_lcl_holds:
  assumes h: "lcl_holds q (x # xs)"
  shows "returns (dequeue_lcl_message q) (\<lambda>(q', r). lcl_holds q' xs \<and> r = Some x)"
proof -
  have len: "length (lq_messages q) = 64"
    by (rule lcl_holds_length [OF h])
  have t: "lq_tail q < 64" and rot: "rotate (lq_tail q) (lq_messages q)
      = Some x # map Some xs @ replicate (63 - length xs) None" and n: "length xs < 64"
    using h by (auto simp: lcl_holds_def)
  have at: "lq_messages q ! lq_tail q = Some x"
    using nth_rotate [of 0 "lq_messages q" "lq_tail q"] rot t len by simp
  have "rotate ((lq_tail q + 1) mod 64) ((lq_messages q)[lq_tail q := None])
      = rotate1 ((rotate (lq_tail q) (lq_messages q))[0 := None])"
    using rotate_update [of 0 "lq_messages q" "lq_tail q" None] t len
      rotate_conv_mod [of "lq_tail q + 1" "(lq_messages q)[lq_tail q := None]"] by simp
  also have "\<dots> = map Some xs @ replicate (64 - length xs) None"
    using n by (simp add: rot Suc_diff_le replicate_append_same flip: replicate_Suc)
  finally have rot': "rotate ((lq_tail q + 1) mod 64) ((lq_messages q)[lq_tail q := None])
      = map Some xs @ replicate (64 - length xs) None" .
  have "(lq_tail q + Suc (length xs)) mod 64 = ((lq_tail q + 1) mod 64 + length xs) mod 64"
    by (simp add: mod_add_left_eq)
  then show ?thesis
    using h at t len rot' n by (auto simp: dequeue_lcl_message_def lcl_holds_def Let_def)
qed

lemma dequeue_lcl_empty:
  assumes h: "lcl_holds q []"
  shows "dequeue_lcl_message q = Ok (q, None)"
proof -
  have "lq_tail q < 64" and "lq_head q = lq_tail q"
      and rot: "rotate (lq_tail q) (lq_messages q) = replicate 64 None"
    using h by (auto simp: lcl_holds_def)
  moreover have "lq_messages q ! lq_tail q = None"
    using nth_rotate [of 0 "lq_messages q" "lq_tail q"] rot lcl_holds_length [OF h] calculation(1) by simp
  ultimately show ?thesis
    using lcl_holds_length [OF h] by (simp add: dequeue_lcl_message_def)
qed

interpretation lcl: bounded_fifo lcl_inv lcl_contents 64 enqueue_lcl_message dequeue_lcl_message
proof (unfold_locales, goal_cases)
  case (1 q x)
  then have "lcl_holds q (lcl_contents q)"
    by (simp add: lcl_inv_def)
  from enqueue_lcl_holds [OF this 1(2)] show ?case
    by (rule returns_mono) (simp add: lcl_holds_iff)
next
  case (2 q)
  then show ?case
    using dequeue_lcl_empty by (simp add: lcl_inv_def)
next
  case (3 q x xs)
  then have "lcl_holds q (x # xs)"
    by (simp add: lcl_holds_iff)
  from dequeue_lcl_holds [OF this] show ?case
    by (rule returns_mono) (auto simp: lcl_holds_iff)
qed

lemma lcl_initial: "lcl_inv LCL_QUEUE" "lcl_contents LCL_QUEUE = []"
proof -
  have "lcl_holds LCL_QUEUE []"
    by (simp add: lcl_holds_def LCL_QUEUE_def)
  then show "lcl_inv LCL_QUEUE" "lcl_contents LCL_QUEUE = []"
    by (simp_all add: lcl_holds_iff)
qed

text \<open>
  C17.  As long as no more than 64 messages are pending, the ring delivers every message exactly
  once and in the order of arrival: any sequence of sends and receives, from the initial state,
  answers as a list does and never panics.
\<close>

theorem lcl_fifo:
  assumes "fits 64 0 ops"
  shows "returns (run_queue enqueue_lcl_message dequeue_lcl_message LCL_QUEUE ops)
    (\<lambda>(q, rs). lcl_inv q \<and> run_list [] ops = (lcl_contents q, rs))"
  using lcl.run_fifo [of LCL_QUEUE ops] assms by (simp add: lcl_initial)

theorem lcl_fifo_witness:
  "returns (run_queue enqueue_lcl_message dequeue_lcl_message LCL_QUEUE
      [Some \<lparr>lm_pid = 1, lm_tid = 2, lm_number = 39, lm_args = replicate 6 0, lm_abi = 3\<rparr>, None, None])
    (\<lambda>(q, rs). lcl_contents q = []
      \<and> rs = [Some \<lparr>lm_pid = 1, lm_tid = 2, lm_number = 39, lm_args = replicate 6 0, lm_abi = 3\<rparr>, None])"
  by (rule returns_mono [OF lcl_fifo]) auto

end
