(* ===== verification/Hsched.thy ===== *)
theory Hsched
  imports Prelude
begin

text \<open>
  The heterogeneous scheduler (\<^verbatim>\<open>src/kernel/src/hsched.rs\<close>): a lock-free ring of sixteen
  cells that any number of submitters and dispatchers use at once.

  The atomic variables are the record \<open>hsched\<close>.  \<^verbatim>\<open>submit_workload\<close> and
  \<^verbatim>\<open>dispatch_pending\<close> are the program counters \<open>hs_pc\<close>; \<open>hs_thread_step\<close> performs one atomic
  access of one thread, and \<open>hm_run\<close> interleaves the threads in any order.  A weak
  compare-and-exchange may fail although the values agree: that is the Boolean of \<open>Advance\<close>.
  Accesses take effect in the order of the run.  The machine also keeps two histories that the
  code does not store: the payload of every ticket, and what the dispatchers took.
\<close>

section \<open>Tasks\<close>

record hardware_task =
  ht_id :: u32
  ht_target :: u8

definition encode_task :: "hardware_task \<Rightarrow> u64" where
  "encode_task task = push_bit 63 1 OR push_bit 32 (ucast (ht_target task)) OR ucast (ht_id task)"

definition decode_task :: "u64 \<Rightarrow> hardware_task option" where
  "decode_task val =
     (if val AND push_bit 63 1 = 0 then None
      else Some \<lparr>ht_id = ucast (val AND 0xFFFFFFFF), ht_target = ucast (drop_bit 32 val AND 0xFF)\<rparr>)"

definition is_gpu_task :: "hardware_task \<Rightarrow> bool" where
  "is_gpu_task task = (ht_target task = 1)"

datatype 'p workload_type = CpuAvx512 | GpuCompute | Sxrc 'p | DirectTarget u8

fun workload_target :: "'p workload_type \<Rightarrow> u8" where
  "workload_target CpuAvx512 = 0"
| "workload_target GpuCompute = 1"
| "workload_target (Sxrc _) = 1"
| "workload_target (DirectTarget t) = t"

section \<open>The ring\<close>

record hsched =
  hs_next_id :: u32
  hs_sequence :: "u64 list"
  hs_data :: "u64 list"
  hs_head :: u64
  hs_tail :: u64

definition hsched_new :: hsched where
  "hsched_new = \<lparr>hs_next_id = 1, hs_sequence = map of_nat [0 ..< 16], hs_data = replicate 16 0,
     hs_head = 0, hs_tail = 0\<rparr>"

text \<open>
  A thread is between two atomic accesses: \<open>SubmitLoad\<close> reads the tail, \<open>SubmitSeq\<close> reads the
  cell's sequence number, \<open>SubmitCas\<close> claims the position, \<open>SubmitData\<close> and \<open>SubmitPublish\<close>
  write the cell; \<open>DispatchLoad\<close> to \<open>DispatchRelease\<close> are the same on the other side.
\<close>

datatype hs_pc =
    HsIdle | SubmitDone u32 | SubmitFull | DispatchDone
  | SubmitLoad hardware_task | SubmitSeq hardware_task u64 | SubmitCas hardware_task u64
  | SubmitData hardware_task u64 | SubmitPublish hardware_task u64
  | DispatchLoad | DispatchSeq u64 | DispatchCas u64 | DispatchTake u64 | DispatchRelease u64 u64

datatype 'p hs_action = StartSubmit "'p workload_type" | StartDispatch | Advance bool

definition hs_index :: "u64 \<Rightarrow> nat" where
  "hs_index pos = unat (pos mod 16)"

definition hs_store_seq :: "hsched \<Rightarrow> u64 \<Rightarrow> u64 \<Rightarrow> hsched" where
  "hs_store_seq h pos v = h\<lparr>hs_sequence := (hs_sequence h)[hs_index pos := v]\<rparr>"

fun hs_finished :: "hs_pc \<Rightarrow> bool" where
  "hs_finished HsIdle = True"
| "hs_finished (SubmitDone _) = True"
| "hs_finished SubmitFull = True"
| "hs_finished DispatchDone = True"
| "hs_finished _ = False"

fun submit_step :: "hsched \<Rightarrow> bool \<Rightarrow> hs_pc \<Rightarrow> hsched \<times> hs_pc" where
  "submit_step h strong (SubmitLoad task) = (h, SubmitSeq task (hs_tail h))"
| "submit_step h strong (SubmitSeq task pos) =
     (let dif = sint (hs_sequence h ! hs_index pos - pos)
      in (h, if dif = 0 then SubmitCas task pos
             else if dif < 0 then SubmitFull
             else SubmitLoad task))"
| "submit_step h strong (SubmitCas task pos) =
     (if strong \<and> hs_tail h = pos then (h\<lparr>hs_tail := pos + 1\<rparr>, SubmitData task pos)
      else (h, SubmitSeq task (hs_tail h)))"
| "submit_step h strong (SubmitData task pos) =
     (h\<lparr>hs_data := (hs_data h)[hs_index pos := encode_task task]\<rparr>, SubmitPublish task pos)"
| "submit_step h strong (SubmitPublish task pos) =
     (hs_store_seq h pos (pos + 1), SubmitDone (ht_id task))"
| "submit_step h strong pc = (h, pc)"

fun dispatch_step :: "hsched \<Rightarrow> bool \<Rightarrow> hs_pc \<Rightarrow> hsched \<times> hs_pc" where
  "dispatch_step h strong DispatchLoad = (h, DispatchSeq (hs_head h))"
| "dispatch_step h strong (DispatchSeq pos) =
     (let dif = sint (hs_sequence h ! hs_index pos - (pos + 1))
      in (h, if dif = 0 then DispatchCas pos
             else if dif < 0 then DispatchDone
             else DispatchLoad))"
| "dispatch_step h strong (DispatchCas pos) =
     (if strong \<and> hs_head h = pos then (h\<lparr>hs_head := pos + 1\<rparr>, DispatchTake pos)
      else (h, DispatchSeq (hs_head h)))"
| "dispatch_step h strong (DispatchTake pos) =
     (h, DispatchRelease pos (hs_data h ! hs_index pos))"
| "dispatch_step h strong (DispatchRelease pos val) =
     (hs_store_seq h pos (pos + 16), DispatchSeq (pos + 1))"
| "dispatch_step h strong pc = (h, pc)"

definition start_submit :: "hsched \<Rightarrow> 'p workload_type \<Rightarrow> hsched \<times> hs_pc" where
  "start_submit h workload =
     (h\<lparr>hs_next_id := hs_next_id h + 1\<rparr>,
      SubmitLoad \<lparr>ht_id = hs_next_id h, ht_target = workload_target workload\<rparr>)"

fun submitting :: "hs_pc \<Rightarrow> bool" where
  "submitting (SubmitLoad _) = True"
| "submitting (SubmitSeq _ _) = True"
| "submitting (SubmitCas _ _) = True"
| "submitting (SubmitData _ _) = True"
| "submitting (SubmitPublish _ _) = True"
| "submitting _ = False"

fun hs_thread_step :: "hsched \<Rightarrow> 'p hs_action \<Rightarrow> hs_pc \<Rightarrow> hsched \<times> hs_pc" where
  "hs_thread_step h (StartSubmit workload) pc = (if hs_finished pc then start_submit h workload else (h, pc))"
| "hs_thread_step h StartDispatch pc = (if hs_finished pc then (h, DispatchLoad) else (h, pc))"
| "hs_thread_step h (Advance strong) pc =
     (if submitting pc then submit_step h strong pc else dispatch_step h strong pc)"

text \<open>The machine: all threads and the two histories.\<close>

record hs_machine =
  hm_ring :: hsched
  hm_threads :: "nat \<Rightarrow> hs_pc"
  hm_tickets :: "u64 list"
  hm_taken :: "(nat \<times> u64) list"

definition hm_initial :: hs_machine where
  "hm_initial = \<lparr>hm_ring = hsched_new, hm_threads = (\<lambda>_. HsIdle), hm_tickets = [], hm_taken = []\<rparr>"

fun ticket_of :: "hs_pc \<Rightarrow> hs_pc \<Rightarrow> u64 list" where
  "ticket_of (SubmitCas task _) (SubmitData _ _) = [encode_task task]"
| "ticket_of _ _ = []"

fun taken_of :: "hs_pc \<Rightarrow> hs_pc \<Rightarrow> (nat \<times> u64) list" where
  "taken_of (DispatchTake pos) (DispatchRelease _ val) = [(unat pos, val)]"
| "taken_of _ _ = []"

definition hm_step :: "hs_machine \<Rightarrow> nat \<times> 'p hs_action \<Rightarrow> hs_machine" where
  "hm_step m a =
     (let tid = fst a; pc = hm_threads m tid; (ring, pc') = hs_thread_step (hm_ring m) (snd a) pc
      in \<lparr>hm_ring = ring, hm_threads = (hm_threads m)(tid := pc'),
          hm_tickets = hm_tickets m @ ticket_of pc pc', hm_taken = hm_taken m @ taken_of pc pc'\<rparr>)"

definition hm_run :: "(nat \<times> 'p hs_action) list \<Rightarrow> hs_machine" where
  "hm_run acts = foldl hm_step hm_initial acts"

text \<open>A call that no other thread disturbs, within \<open>n\<close> atomic accesses.\<close>

fun hs_alone :: "nat \<Rightarrow> hsched \<Rightarrow> hs_pc \<Rightarrow> (hsched \<times> hs_pc) option" where
  "hs_alone 0 h pc = (if hs_finished pc then Some (h, pc) else None)"
| "hs_alone (Suc n) h pc =
     (if hs_finished pc then Some (h, pc)
      else let (h, pc) = hs_thread_step h (Advance True :: unit hs_action) pc in hs_alone n h pc)"

definition submit_workload :: "hsched \<Rightarrow> 'p workload_type \<Rightarrow> (hsched \<times> hs_pc) option" where
  "submit_workload h workload = (let (h, pc) = start_submit h workload in hs_alone 5 h pc)"

section \<open>Tasks survive their encoding\<close>

lemma bit_encode_task:
  "bit (encode_task task) n \<longleftrightarrow> n = 63 \<or> (32 \<le> n \<and> bit (ht_target task) (n - 32)) \<or> bit (ht_id task) n"
proof -
  have "n < 64" if "32 \<le> n" "bit (ht_target task) (n - 32)"
    using that bit_imp_le_length [of "ht_target task" "n - 32"] by simp
  moreover have "n < 64" if "bit (ht_id task) n"
    using that bit_imp_le_length [of "ht_id task" n] by simp
  ultimately show ?thesis
    unfolding encode_task_def bit_or_iff bit_push_bit_iff by (auto simp: bit_ucast_iff bit_1_iff)
qed

lemma decode_encode [simp]: "decode_task (encode_task task) = Some task"
proof -
  have "bit (encode_task task AND push_bit 63 1) 63"
    unfolding bit_and_iff bit_encode_task bit_push_bit_iff by simp
  then have valid: "encode_task task AND push_bit 63 1 \<noteq> 0"
    by (metis bit_0_eq bot_apply bot_bool_def)
  have m32: "(0xFFFFFFFF :: u64) = mask 32" and m8: "(0xFF :: u64) = mask 8"
    by (simp_all add: mask_eq_exp_minus_1)
  have id: "ucast (encode_task task AND 0xFFFFFFFF) = ht_id task"
    unfolding m32 by (rule bit_word_eqI) (auto simp: bit_ucast_iff bit_and_iff bit_encode_task bit_mask_iff)
  have target: "ucast (drop_bit 32 (encode_task task) AND 0xFF) = ht_target task"
    unfolding m8 using bit_imp_le_length [of "ht_id task"]
    by (intro bit_word_eqI) (fastforce simp: bit_ucast_iff bit_and_iff bit_drop_bit_eq bit_encode_task bit_mask_iff)
  show ?thesis
    using valid id target by (simp add: decode_task_def)
qed

section \<open>The invariant\<close>

text \<open>
  Positions are counted from the start; the cells hold the positions \<open>h, \<dots>, h + 15\<close>.  A cell of a
  position below the tail holds that position (claimed) or the next number (published, with the
  ticket's payload); a cell of a position from the tail on holds the position (free) or still the
  number of its last round (being drained).
\<close>

definition ring_ok :: "nat \<Rightarrow> nat \<Rightarrow> (nat \<Rightarrow> nat) \<Rightarrow> (nat \<Rightarrow> u64) \<Rightarrow> u64 list \<Rightarrow> bool" where
  "ring_ok h t S D tk =
     (h \<le> t \<and> t \<le> h + 16 \<and> length tk = t
      \<and> (\<forall>p. h \<le> p \<and> p < t \<longrightarrow> (S (p mod 16) = p + 1 \<and> D (p mod 16) = tk ! p) \<or> S (p mod 16) = p)
      \<and> (\<forall>p. t \<le> p \<and> p < h + 16 \<longrightarrow> S (p mod 16) = p \<or> 16 \<le> p \<and> S (p mod 16) + 15 = p))"

fun claims :: "hs_pc \<Rightarrow> nat option" where
  "claims (SubmitData _ pos) = Some (unat pos)"
| "claims (SubmitPublish _ pos) = Some (unat pos)"
| "claims _ = None"

fun drains :: "hs_pc \<Rightarrow> nat option" where
  "drains (DispatchTake pos) = Some (unat pos)"
| "drains (DispatchRelease pos _) = Some (unat pos)"
| "drains _ = None"

definition claimed_ok :: "nat \<Rightarrow> nat \<Rightarrow> (nat \<Rightarrow> nat) \<Rightarrow> nat \<Rightarrow> bool" where
  "claimed_ok h t S p = (h \<le> p \<and> p < t \<and> S (p mod 16) = p)"

definition drained_ok :: "nat \<Rightarrow> nat \<Rightarrow> (nat \<Rightarrow> nat) \<Rightarrow> (nat \<Rightarrow> u64) \<Rightarrow> u64 list \<Rightarrow> nat \<Rightarrow> bool" where
  "drained_ok h t S D tk p =
     (p < h \<and> t \<le> p + 16 \<and> S (p mod 16) = p + 1 \<and> D (p mod 16) = tk ! p)"

fun pc_ok :: "nat \<Rightarrow> nat \<Rightarrow> (nat \<Rightarrow> nat) \<Rightarrow> (nat \<Rightarrow> u64) \<Rightarrow> u64 list \<Rightarrow> hs_pc \<Rightarrow> bool" where
  "pc_ok h t S D tk (SubmitSeq _ pos) = (unat pos \<le> t)"
| "pc_ok h t S D tk (SubmitCas _ pos) = (unat pos \<le> t \<and> (unat pos = t \<longrightarrow> S (t mod 16) = t))"
| "pc_ok h t S D tk (SubmitData task pos) = (claimed_ok h t S (unat pos) \<and> tk ! unat pos = encode_task task)"
| "pc_ok h t S D tk (SubmitPublish task pos) =
     (claimed_ok h t S (unat pos) \<and> tk ! unat pos = encode_task task \<and> D (unat pos mod 16) = encode_task task)"
| "pc_ok h t S D tk (DispatchSeq pos) = (unat pos \<le> h)"
| "pc_ok h t S D tk (DispatchCas pos) =
     (unat pos \<le> h \<and> (unat pos = h \<longrightarrow> h < t \<and> S (h mod 16) = h + 1))"
| "pc_ok h t S D tk (DispatchTake pos) = drained_ok h t S D tk (unat pos)"
| "pc_ok h t S D tk (DispatchRelease pos val) = (drained_ok h t S D tk (unat pos) \<and> val = tk ! unat pos)"
| "pc_ok h t S D tk _ = True"

lemma mod16_window: "p mod 16 = q mod 16 \<Longrightarrow> h \<le> p \<Longrightarrow> p < h + 16 \<Longrightarrow> h \<le> q \<Longrightarrow> q < h + 16 \<Longrightarrow> p = q"
  for p q h :: nat
proof -
  assume m: "p mod 16 = q mod 16" and w: "h \<le> p" "p < h + 16" "h \<le> q" "q < h + 16"
  have "p = 16 * (p div 16) + p mod 16" "q = 16 * (q div 16) + p mod 16"
    using mult_div_mod_eq [of 16 p] mult_div_mod_eq [of 16 q] m by simp_all
  with w have "p div 16 = q div 16"
    by linarith
  with m show "p = q"
    by (metis mult_div_mod_eq)
qed

subsection \<open>The five accesses that change the ring\<close>

lemma ring_claim:
  assumes r: "ring_ok h t S D tk" and free: "S (t mod 16) = t"
  shows "ring_ok h (t + 1) S D (tk @ [x]) \<and> claimed_ok h (t + 1) S t"
proof -
  have "t \<noteq> h + 16"
  proof
    assume e: "t = h + 16"
    then have "S (h mod 16) = h + 1 \<or> S (h mod 16) = h"
      using r by (auto simp: ring_ok_def)
    with e free show False by simp
  qed
  then show ?thesis
    using r free by (auto simp: ring_ok_def claimed_ok_def nth_append less_Suc_eq)
qed

lemma pc_claim:
  assumes r: "ring_ok h t S D tk" and free: "S (t mod 16) = t" and pc: "pc_ok h t S D tk pc"
  shows "pc_ok h (t + 1) S D (tk @ [x]) pc"
proof -
  have len: "length tk = t" using r by (simp add: ring_ok_def)
  have drain: "drained_ok h (t + 1) S D (tk @ [x]) p" if d: "drained_ok h t S D tk p" for p
  proof -
    have "t \<noteq> p + 16"
      using d free by (auto simp: drained_ok_def)
    then show ?thesis
      using d r by (auto simp: drained_ok_def nth_append ring_ok_def)
  qed
  have nth: "p < t \<Longrightarrow> (tk @ [x]) ! p = tk ! p" for p
    using len by (simp add: nth_append)
  have lt: "drained_ok h t S D tk p \<Longrightarrow> p < t" for p
    using r by (auto simp: drained_ok_def ring_ok_def)
  show ?thesis
    using pc drain lt by (cases pc) (auto simp: claimed_ok_def nth)
qed

text \<open>Two positions that are owned, free or published at the same time never share a cell.\<close>

lemma apart: "p \<noteq> q \<Longrightarrow> h \<le> p \<Longrightarrow> p < h + 16 \<Longrightarrow> h \<le> q \<Longrightarrow> q < h + 16 \<Longrightarrow> p mod 16 \<noteq> q mod 16"
  for p q h :: nat
  using mod16_window by blast

lemma apart_drained: "p \<noteq> q + 16 \<Longrightarrow> h \<le> p \<Longrightarrow> p < h + 16 \<Longrightarrow> q < h \<Longrightarrow> h \<le> q + 16 \<Longrightarrow> p mod 16 \<noteq> q mod 16"
  for p q h :: nat
  using apart [of p "q + 16" h] by simp

lemma apart_next: "(p + 1) mod 16 \<noteq> p mod 16" for p :: nat
  using mod16_window [of "p + 1" p p] by auto

lemma claimed_claimed: "ring_ok h t S D tk \<Longrightarrow> claimed_ok h t S p \<Longrightarrow> claimed_ok h t S q \<Longrightarrow> p \<noteq> q \<Longrightarrow> p mod 16 \<noteq> q mod 16"
  by (rule apart [of p q h]) (auto simp: ring_ok_def claimed_ok_def)

lemma claimed_drained: "ring_ok h t S D tk \<Longrightarrow> claimed_ok h t S p \<Longrightarrow> drained_ok h t S D tk q \<Longrightarrow> p mod 16 \<noteq> q mod 16"
  by (rule apart_drained [of p q h]) (auto simp: ring_ok_def claimed_ok_def drained_ok_def)

lemma drained_drained:
  "ring_ok h t S D tk \<Longrightarrow> drained_ok h t S D tk p \<Longrightarrow> drained_ok h t S D tk q \<Longrightarrow> p \<noteq> q \<Longrightarrow> p mod 16 \<noteq> q mod 16"
  using apart_drained [of "p + 16" q h] by (auto simp: ring_ok_def drained_ok_def)

lemma ring_write:
  assumes "ring_ok h t S D tk" and "claimed_ok h t S p"
  shows "ring_ok h t S (D(p mod 16 := x)) tk"
proof -
  have "S (q mod 16) = q + 1 \<and> (D(p mod 16 := x)) (q mod 16) = tk ! q \<or> S (q mod 16) = q" if q: "h \<le> q" "q < t" for q
  proof (cases "q = p")
    case False
    then have "q mod 16 \<noteq> p mod 16"
      using assms q by (intro apart [of q p h]) (auto simp: ring_ok_def claimed_ok_def)
    with assms q show ?thesis
      by (auto simp: ring_ok_def)
  qed (use assms in \<open>simp add: claimed_ok_def\<close>)
  with assms show ?thesis
    by (simp add: ring_ok_def)
qed

lemma pc_write:
  assumes r: "ring_ok h t S D tk" and c: "claimed_ok h t S p" and pc: "pc_ok h t S D tk pc" and o: "claims pc \<noteq> Some p"
  shows "pc_ok h t S (D(p mod 16 := x)) tk pc"
proof -
  have d: "drained_ok h t S (D(p mod 16 := x)) tk q" if "drained_ok h t S D tk q" for q
    using claimed_drained [OF r c that] that by (auto simp: drained_ok_def)
  have q: "(D(p mod 16 := x)) (q mod 16) = D (q mod 16)" if "claimed_ok h t S q" "q \<noteq> p" for q
    using claimed_claimed [OF r c that(1)] that(2) by auto
  show ?thesis
    using pc o d q by (cases pc) auto
qed

lemma ring_publish:
  assumes r: "ring_ok h t S D tk" and c: "claimed_ok h t S p" and x: "D (p mod 16) = tk ! p"
  shows "ring_ok h t (S(p mod 16 := p + 1)) D tk"
proof -
  have "q mod 16 \<noteq> p mod 16" if "h \<le> q" "q < h + 16" "q \<noteq> p" for q
    using r c that by (intro apart [of q p h]) (auto simp: ring_ok_def claimed_ok_def)
  then have "(S(p mod 16 := p + 1)) (q mod 16) = (if q = p then p + 1 else S (q mod 16))" if "h \<le> q" "q < h + 16" for q
    using that by auto
  with r c x show ?thesis
    by (auto simp: ring_ok_def claimed_ok_def)
qed

lemma pc_publish:
  assumes r: "ring_ok h t S D tk" and c: "claimed_ok h t S p" and pc: "pc_ok h t S D tk pc" and o: "claims pc \<noteq> Some p"
  shows "pc_ok h t (S(p mod 16 := p + 1)) D tk pc"
proof -
  have d: "drained_ok h t (S(p mod 16 := p + 1)) D tk q" if "drained_ok h t S D tk q" for q
    using claimed_drained [OF r c that] that by (auto simp: drained_ok_def)
  have q: "claimed_ok h t (S(p mod 16 := p + 1)) q" if "claimed_ok h t S q" "q \<noteq> p" for q
    using claimed_claimed [OF r c that(1)] that by (auto simp: claimed_ok_def)
  have t: "S (t mod 16) = t \<Longrightarrow> t mod 16 \<noteq> p mod 16"
    using c by (auto simp: claimed_ok_def)
  have h: "S (h mod 16) = h + 1 \<Longrightarrow> h < t \<Longrightarrow> h mod 16 \<noteq> p mod 16"
    using c apart_next [of p] by (metis claimed_ok_def mod_Suc_eq Suc_eq_plus1)
  show ?thesis
    using pc o d q t h by (cases pc) auto
qed

lemma ring_take:
  assumes r: "ring_ok h t S D tk" and s: "S (h mod 16) = h + 1" and lt: "h < t"
  shows "ring_ok (h + 1) t S D tk \<and> drained_ok (h + 1) t S D tk h"
proof -
  have "S (p mod 16) = p \<or> 16 \<le> p \<and> S (p mod 16) + 15 = p" if "t \<le> p" "p < h + 1 + 16" for p
  proof (cases "p = h + 16")
    case False
    with that r show ?thesis by (simp add: ring_ok_def)
  qed (simp add: s)
  moreover have "D (h mod 16) = tk ! h"
    using r s lt unfolding ring_ok_def by fastforce
  ultimately show ?thesis
    using r s lt by (auto simp: ring_ok_def drained_ok_def)
qed

lemma pc_take:
  assumes r: "ring_ok h t S D tk" and s: "S (h mod 16) = h + 1" and pc: "pc_ok h t S D tk pc"
  shows "pc_ok (h + 1) t S D tk pc"
proof -
  have "claimed_ok (h + 1) t S q" if "claimed_ok h t S q" for q
    using that s by (cases "q = h") (auto simp: claimed_ok_def)
  moreover have "drained_ok (h + 1) t S D tk q" if "drained_ok h t S D tk q" for q
    using that by (auto simp: drained_ok_def)
  ultimately show ?thesis
    using pc by (cases pc) auto
qed

lemma ring_release:
  assumes r: "ring_ok h t S D tk" and d: "drained_ok h t S D tk p"
  shows "ring_ok h t (S(p mod 16 := p + 16)) D tk"
proof -
  have "q mod 16 \<noteq> p mod 16" if "h \<le> q" "q < h + 16" "q \<noteq> p + 16" for q
    using r d that apart_drained [of q p h] by (auto simp: ring_ok_def drained_ok_def)
  then have "(S(p mod 16 := p + 16)) (q mod 16) = (if q = p + 16 then q else S (q mod 16))" if "h \<le> q" "q < h + 16" for q
    using that by auto
  with r d show ?thesis
    by (auto simp: ring_ok_def drained_ok_def)
qed

lemma pc_release:
  assumes r: "ring_ok h t S D tk" and d: "drained_ok h t S D tk p" and pc: "pc_ok h t S D tk pc" and o: "drains pc \<noteq> Some p"
  shows "pc_ok h t (S(p mod 16 := p + 16)) D tk pc"
proof -
  have c: "claimed_ok h t (S(p mod 16 := p + 16)) q" if "claimed_ok h t S q" for q
    using claimed_drained [OF r that d] that by (auto simp: claimed_ok_def)
  have q: "drained_ok h t (S(p mod 16 := p + 16)) D tk q" if "drained_ok h t S D tk q" "q \<noteq> p" for q
    using drained_drained [OF r d that(1)] that by (auto simp: drained_ok_def)
  have t: "S (t mod 16) = t \<Longrightarrow> t mod 16 \<noteq> p mod 16"
    using d apart_next [of p] by (metis drained_ok_def)
  have h: "h < t \<Longrightarrow> h mod 16 \<noteq> p mod 16"
    using d r apart_drained [of h p h] by (auto simp: drained_ok_def ring_ok_def)
  show ?thesis
    using pc o c q t h by (cases pc) auto
qed

subsection \<open>The whole machine\<close>

text \<open>
  No two threads own the same position; a cell that is claimed or being drained has an owner; what
  was taken is exactly what lies below the head, less what a dispatcher is about to take.
\<close>

fun takes :: "hs_pc \<Rightarrow> nat option" where
  "takes (DispatchTake pos) = Some (unat pos)"
| "takes _ = None"

definition sole :: "(hs_pc \<Rightarrow> nat option) \<Rightarrow> (nat \<Rightarrow> hs_pc) \<Rightarrow> bool" where
  "sole own T = (\<forall>a b p. own (T a) = Some p \<longrightarrow> own (T b) = Some p \<longrightarrow> a = b)"

definition owned :: "nat \<Rightarrow> nat \<Rightarrow> (nat \<Rightarrow> nat) \<Rightarrow> (nat \<Rightarrow> hs_pc) \<Rightarrow> bool" where
  "owned h t S T =
     ((\<forall>p. h \<le> p \<and> p < t \<and> S (p mod 16) = p \<longrightarrow> (\<exists>i. claims (T i) = Some p))
      \<and> (\<forall>p. p < h \<and> t \<le> p + 16 \<and> S (p mod 16) = p + 1 \<longrightarrow> (\<exists>i. drains (T i) = Some p)))"

definition taken_ok :: "nat \<Rightarrow> u64 list \<Rightarrow> (nat \<Rightarrow> hs_pc) \<Rightarrow> (nat \<times> u64) list \<Rightarrow> bool" where
  "taken_ok h tk T taken =
     (distinct (map fst taken) \<and> (\<forall>(p, v) \<in> set taken. v = tk ! p)
      \<and> (\<forall>p. p \<in> fst ` set taken \<longleftrightarrow> p < h \<and> (\<forall>i. takes (T i) \<noteq> Some p)))"

definition sys_ok ::
  "nat \<Rightarrow> nat \<Rightarrow> (nat \<Rightarrow> nat) \<Rightarrow> (nat \<Rightarrow> u64) \<Rightarrow> u64 list \<Rightarrow> (nat \<Rightarrow> hs_pc) \<Rightarrow> (nat \<times> u64) list \<Rightarrow> bool" where
  "sys_ok h t S D tk T taken =
     (ring_ok h t S D tk \<and> (\<forall>i. pc_ok h t S D tk (T i)) \<and> sole claims T \<and> sole drains T
      \<and> owned h t S T \<and> taken_ok h tk T taken)"

lemma takes_drains: "takes pc = Some p \<Longrightarrow> drains pc = Some p"
  by (cases pc) auto

lemma sole_upd: "sole own T \<Longrightarrow> own pc = None \<or> own pc = own (T i) \<or> (\<forall>j. own (T j) \<noteq> own pc) \<Longrightarrow> sole own (T(i := pc))"
  unfolding sole_def by (auto split: if_splits) metis+

lemma sole_other: "sole own T \<Longrightarrow> own (T i) = Some p \<Longrightarrow> j \<noteq> i \<Longrightarrow> own (T j) \<noteq> Some p"
  unfolding sole_def by blast

lemma own_upd: "\<exists>j. own (T j) = Some p \<Longrightarrow> own (T i) \<noteq> Some p \<Longrightarrow> \<exists>j. own ((T(i := pc)) j) = Some p"
  by (metis fun_upd_other)

lemma same_own: "own pc = own (T i) \<Longrightarrow> own ((T(i := pc)) j) = own (T j)"
  by simp

lemma owned_upd:
  "owned h t S T \<Longrightarrow> claims pc = claims (T i) \<Longrightarrow> drains pc = drains (T i) \<Longrightarrow> owned h t S (T(i := pc))"
  unfolding owned_def by (simp only: same_own)

lemma taken_upd: "taken_ok h tk T taken \<Longrightarrow> takes pc = takes (T i) \<Longrightarrow> taken_ok h tk (T(i := pc)) taken"
  unfolding taken_ok_def by (simp only: same_own) simp

lemma sys_private:
  assumes "sys_ok h t S D tk T taken" "pc_ok h t S D tk pc"
    "claims pc = claims (T i)" "drains pc = drains (T i)" "takes pc = takes (T i)"
  shows "sys_ok h t S D tk (T(i := pc)) taken"
  using assms unfolding sys_ok_def by (simp add: sole_upd owned_upd taken_upd)

lemma sys_claim:
  assumes s: "sys_ok h t S D tk T taken" and i: "T i = SubmitCas task pos" and pos: "unat pos = t"
  shows "sys_ok h (t + 1) S D (tk @ [encode_task task]) (T(i := SubmitData task pos)) taken"
proof -
  have r: "ring_ok h t S D tk" and pcs: "\<And>j. pc_ok h t S D tk (T j)" and own: "owned h t S T"
      and tkn: "taken_ok h tk T taken"
    using s by (auto simp: sys_ok_def)
  have free: "S (t mod 16) = t"
    using pcs [of i] i pos by simp
  have len: "length tk = t" and ht: "h \<le> t"
    using r by (auto simp: ring_ok_def)
  have c: "claims (T j) \<noteq> Some t" for j
    using pcs [of j] by (cases "T j") (auto simp: claimed_ok_def)
  have sc: "sole claims (T(i := SubmitData task pos))" and sd: "sole drains (T(i := SubmitData task pos))"
    using s c pos by (auto simp: sys_ok_def intro!: sole_upd)
  have o: "owned h (t + 1) S (T(i := SubmitData task pos))"
    unfolding owned_def
  proof (intro conjI allI impI)
    fix p assume p: "h \<le> p \<and> p < t + 1 \<and> S (p mod 16) = p"
    show "\<exists>j. claims ((T(i := SubmitData task pos)) j) = Some p"
    proof (cases "p = t")
      case False
      with p own i show ?thesis by (intro own_upd) (auto simp: owned_def)
    qed (use pos in \<open>auto intro: exI [of _ i]\<close>)
  next
    fix p assume "p < h \<and> t + 1 \<le> p + 16 \<and> S (p mod 16) = p + 1"
    with own i show "\<exists>j. drains ((T(i := SubmitData task pos)) j) = Some p"
      by (intro own_upd) (auto simp: owned_def)
  qed
  have k: "taken_ok h (tk @ [encode_task task]) (T(i := SubmitData task pos)) taken"
  proof -
    have "p < h" if "(p, v) \<in> set taken" for p v
      using tkn that unfolding taken_ok_def by force
    then have "\<forall>(p, v) \<in> set taken. v = (tk @ [encode_task task]) ! p"
      using tkn ht len by (fastforce simp: taken_ok_def nth_append)
    moreover have "taken_ok h tk (T(i := SubmitData task pos)) taken"
      using tkn i by (intro taken_upd) simp_all
    ultimately show ?thesis
      by (simp add: taken_ok_def)
  qed
  show ?thesis
    using ring_claim [OF r free] pc_claim [OF r free pcs] sc sd o k pos len
    by (simp add: sys_ok_def nth_append)
qed

lemma sys_write:
  assumes s: "sys_ok h t S D tk T taken" and i: "T i = SubmitData task pos"
  shows "sys_ok h t S (D(unat pos mod 16 := encode_task task)) tk (T(i := SubmitPublish task pos)) taken"
proof -
  have r: "ring_ok h t S D tk" and pcs: "\<And>j. pc_ok h t S D tk (T j)" and sc: "sole claims T"
    using s by (auto simp: sys_ok_def)
  have c: "claimed_ok h t S (unat pos)" and x: "tk ! unat pos = encode_task task"
    using pcs [of i] i by auto
  have "pc_ok h t S (D(unat pos mod 16 := encode_task task)) tk ((T(i := SubmitPublish task pos)) j)" for j
    using c x pc_write [OF r c pcs [of j]] sole_other [OF sc, of i "unat pos" j] i by simp
  then show ?thesis
    using s ring_write [OF r c] i by (auto simp: sys_ok_def intro!: sole_upd owned_upd taken_upd)
qed

lemma sys_publish:
  assumes s: "sys_ok h t S D tk T taken" and i: "T i = SubmitPublish task pos"
  shows "sys_ok h t (S(unat pos mod 16 := unat pos + 1)) D tk (T(i := SubmitDone (ht_id task))) taken"
proof -
  have r: "ring_ok h t S D tk" and pcs: "\<And>j. pc_ok h t S D tk (T j)" and sc: "sole claims T" and own: "owned h t S T"
    using s by (auto simp: sys_ok_def)
  have c: "claimed_ok h t S (unat pos)" and x: "D (unat pos mod 16) = tk ! unat pos"
    using pcs [of i] i by auto
  have "pc_ok h t (S(unat pos mod 16 := unat pos + 1)) D tk ((T(i := SubmitDone (ht_id task))) j)" for j
    using pc_publish [OF r c pcs [of j]] sole_other [OF sc, of i "unat pos" j] i by simp
  moreover have "owned h t (S(unat pos mod 16 := unat pos + 1)) (T(i := SubmitDone (ht_id task)))"
    unfolding owned_def
  proof (intro conjI allI impI)
    fix p assume p: "h \<le> p \<and> p < t \<and> (S(unat pos mod 16 := unat pos + 1)) (p mod 16) = p"
    then have "p mod 16 \<noteq> unat pos mod 16"
      using apart_next [of "unat pos"] by auto
    with p own i show "\<exists>j. claims ((T(i := SubmitDone (ht_id task))) j) = Some p"
      by (intro own_upd) (auto simp: owned_def)
  next
    fix p assume p: "p < h \<and> t \<le> p + 16 \<and> (S(unat pos mod 16 := unat pos + 1)) (p mod 16) = p + 1"
    have "unat pos \<noteq> p + 16" "h \<le> p + 16" "h \<le> unat pos" "unat pos < h + 16"
      using p c r by (auto simp: claimed_ok_def ring_ok_def)
    then have "unat pos mod 16 \<noteq> p mod 16"
      using p by (intro apart_drained [of "unat pos" p h]) auto
    with p own i show "\<exists>j. drains ((T(i := SubmitDone (ht_id task))) j) = Some p"
      by (intro own_upd) (auto simp: owned_def)
  qed
  ultimately show ?thesis
    using s ring_publish [OF r c x] i by (auto simp: sys_ok_def intro!: sole_upd taken_upd)
qed

lemma sys_take:
  assumes s: "sys_ok h t S D tk T taken" and i: "T i = DispatchCas pos" and pos: "unat pos = h"
  shows "sys_ok (h + 1) t S D tk (T(i := DispatchTake pos)) taken"
proof -
  have r: "ring_ok h t S D tk" and pcs: "\<And>j. pc_ok h t S D tk (T j)" and own: "owned h t S T"
      and tkn: "taken_ok h tk T taken"
    using s by (auto simp: sys_ok_def)
  have free: "S (h mod 16) = h + 1" and lt: "h < t"
    using pcs [of i] i pos by auto
  have d: "drains (T j) \<noteq> Some h" for j
    using pcs [of j] by (cases "T j") (auto simp: drained_ok_def)
  have sc: "sole claims (T(i := DispatchTake pos))" and sd: "sole drains (T(i := DispatchTake pos))"
    using s d pos by (auto simp: sys_ok_def intro!: sole_upd)
  have o: "owned (h + 1) t S (T(i := DispatchTake pos))"
    unfolding owned_def
  proof (intro conjI allI impI)
    fix p assume "h + 1 \<le> p \<and> p < t \<and> S (p mod 16) = p"
    with own i show "\<exists>j. claims ((T(i := DispatchTake pos)) j) = Some p"
      by (intro own_upd) (auto simp: owned_def)
  next
    fix p assume p: "p < h + 1 \<and> t \<le> p + 16 \<and> S (p mod 16) = p + 1"
    show "\<exists>j. drains ((T(i := DispatchTake pos)) j) = Some p"
    proof (cases "p = h")
      case False
      with p own i show ?thesis by (intro own_upd) (auto simp: owned_def)
    qed (use pos in \<open>auto intro: exI [of _ i]\<close>)
  qed
  have "takes (T j) \<noteq> Some h" for j
    using d [of j] takes_drains by blast
  then have k: "taken_ok (h + 1) tk (T(i := DispatchTake pos)) taken"
    using tkn i pos unfolding taken_ok_def by (auto simp: less_Suc_eq)
  show ?thesis
    using ring_take [OF r free lt] pc_take [OF r free pcs] sc sd o k pos by (simp add: sys_ok_def)
qed

lemma sys_got:
  assumes s: "sys_ok h t S D tk T taken" and i: "T i = DispatchTake pos"
  shows "sys_ok h t S D tk (T(i := DispatchRelease pos (D (unat pos mod 16))))
           (taken @ [(unat pos, D (unat pos mod 16))])"
proof -
  have pcs: "\<And>j. pc_ok h t S D tk (T j)" and tkn: "taken_ok h tk T taken" and sd: "sole drains T"
    using s by (auto simp: sys_ok_def)
  have d: "drained_ok h t S D tk (unat pos)"
    using pcs [of i] i by simp
  have new: "unat pos \<notin> fst ` set taken"
    using tkn i unfolding taken_ok_def by (metis takes.simps(1))
  have one: "takes (T j) = Some (unat pos) \<Longrightarrow> j = i" for j
    using sole_other [OF sd, of i "unat pos" j] i takes_drains [of "T j"] by auto
  have "p \<in> insert (unat pos) (fst ` set taken) \<longleftrightarrow>
      p < h \<and> (\<forall>j. takes ((T(i := DispatchRelease pos (D (unat pos mod 16)))) j) \<noteq> Some p)" for p
  proof (cases "p = unat pos")
    case True
    with one d show ?thesis by (auto simp: drained_ok_def)
  next
    case False
    then have "takes (T i) \<noteq> Some p"
      using i by simp
    with False tkn show ?thesis
      by (simp add: taken_ok_def) metis
  qed
  then have "taken_ok h tk (T(i := DispatchRelease pos (D (unat pos mod 16)))) (taken @ [(unat pos, D (unat pos mod 16))])"
    using tkn new d by (auto simp: taken_ok_def drained_ok_def)
  moreover have "pc_ok h t S D tk (DispatchRelease pos (D (unat pos mod 16)))"
    using d by (simp add: drained_ok_def)
  ultimately show ?thesis
    using s i by (auto simp: sys_ok_def intro!: sole_upd owned_upd)
qed

lemma sys_release:
  assumes s: "sys_ok h t S D tk T taken" and i: "T i = DispatchRelease pos val" and next_pos: "unat next = unat pos + 1"
  shows "sys_ok h t (S(unat pos mod 16 := unat pos + 16)) D tk (T(i := DispatchSeq next)) taken"
proof -
  have r: "ring_ok h t S D tk" and pcs: "\<And>j. pc_ok h t S D tk (T j)" and sd: "sole drains T" and own: "owned h t S T"
    using s by (auto simp: sys_ok_def)
  have d: "drained_ok h t S D tk (unat pos)"
    using pcs [of i] i by auto
  have "pc_ok h t (S(unat pos mod 16 := unat pos + 16)) D tk ((T(i := DispatchSeq next)) j)" for j
    using pc_release [OF r d pcs [of j]] sole_other [OF sd, of i "unat pos" j] i d next_pos
    by (simp add: drained_ok_def)
  moreover have "owned h t (S(unat pos mod 16 := unat pos + 16)) (T(i := DispatchSeq next))"
    unfolding owned_def
  proof (intro conjI allI impI)
    fix p assume p: "h \<le> p \<and> p < t \<and> (S(unat pos mod 16 := unat pos + 16)) (p mod 16) = p"
    then have "p mod 16 \<noteq> unat pos mod 16"
      using apart_drained [of p "unat pos" h] d r by (auto simp: drained_ok_def ring_ok_def)
    with p own i show "\<exists>j. claims ((T(i := DispatchSeq next)) j) = Some p"
      by (intro own_upd) (auto simp: owned_def)
  next
    fix p assume p: "p < h \<and> t \<le> p + 16 \<and> (S(unat pos mod 16 := unat pos + 16)) (p mod 16) = p + 1"
    have "p mod 16 \<noteq> unat pos mod 16"
    proof
      assume e: "p mod 16 = unat pos mod 16"
      with p have "p + 1 = unat pos + 16" by simp
      with e apart_next [of p] show False by simp
    qed
    moreover from this have "p \<noteq> unat pos" by auto
    ultimately show "\<exists>j. drains ((T(i := DispatchSeq next)) j) = Some p"
      using p own i by (intro own_upd) (auto simp: owned_def)
  qed
  ultimately show ?thesis
    using s ring_release [OF r d] i by (auto simp: sys_ok_def intro!: sole_upd taken_upd)
qed

definition hm_ok :: "hs_machine \<Rightarrow> bool" where
  "hm_ok m =
     (let r = hm_ring m
      in length (hs_sequence r) = 16 \<and> length (hs_data r) = 16
         \<and> sys_ok (unat (hs_head r)) (unat (hs_tail r)) (\<lambda>i. unat (hs_sequence r ! i)) (\<lambda>i. hs_data r ! i)
             (hm_tickets m) (hm_threads m) (hm_taken m))"

lemma hs_index_eq: "hs_index pos = unat pos mod 16"
  by (simp add: hs_index_def unat_mod_distrib)

lemma hs_index_less [simp]: "hs_index pos < 16"
  by (simp add: hs_index_eq)

lemma sint_eq_0 [simp]: "sint (x - y) = 0 \<longleftrightarrow> x = y" for x y :: u64
  by (metis eq_iff_diff_eq_0 sint_0 signed_word_eqI)

lemma upd_cell: "i < length xs \<Longrightarrow> (\<lambda>j. f (xs[i := v] ! j)) = (\<lambda>j. f (xs ! j))(i := f v)"
  by (auto simp: nth_list_update)

lemma unat_plus_small: "unat p + n < 2 ^ 64 \<Longrightarrow> unat (p + of_nat n :: u64) = unat p + n"
  by (simp add: unat_word_ariths unat_of_nat)

lemma unat_plus_1: "unat p + 1 < 2 ^ 64 \<Longrightarrow> unat (p + 1 :: u64) = unat p + 1"
  using unat_plus_small [of p 1] by simp

lemma unat_plus_16: "unat p + 16 < 2 ^ 64 \<Longrightarrow> unat (p + 16 :: u64) = unat p + 16"
  using unat_plus_small [of p 16] by simp

lemma sys_pc: "sys_ok h t S D tk T taken \<Longrightarrow> pc_ok h t S D tk (T i)"
  by (simp add: sys_ok_def)

lemma sys_ring: "sys_ok h t S D tk T taken \<Longrightarrow> ring_ok h t S D tk"
  by (simp add: sys_ok_def)

lemma ring_published: "ring_ok h t S D tk \<Longrightarrow> S (h mod 16) = h + 1 \<Longrightarrow> h < t"
proof (rule ccontr)
  assume r: "ring_ok h t S D tk" and s: "S (h mod 16) = h + 1" and "\<not> h < t"
  then have "S (h mod 16) = h \<or> S (h mod 16) + 15 = h"
    by (auto simp: ring_ok_def)
  with s show False by simp
qed

lemma hm_submit_ok:
  assumes ok: "hm_ok m" and room: "unat (hs_tail (hm_ring m)) + 17 < 2 ^ 64"
    and pc: "submitting (hm_threads m i)"
  shows "hm_ok (hm_step m (i, Advance strong))"
proof -
  let ?r = "hm_ring m" and ?pc = "hm_threads m i"
  let ?h = "unat (hs_head ?r)" and ?t = "unat (hs_tail ?r)"
  let ?S = "\<lambda>i. unat (hs_sequence ?r ! i)" and ?D = "\<lambda>i. hs_data ?r ! i"
  have len: "length (hs_sequence ?r) = 16" "length (hs_data ?r) = 16"
      and s: "sys_ok ?h ?t ?S ?D (hm_tickets m) (hm_threads m) (hm_taken m)"
    using ok by (auto simp: hm_ok_def Let_def)
  show ?thesis
  proof (cases ?pc)
    case (SubmitLoad task)
    then show ?thesis
      using len sys_private [OF s, of "SubmitSeq task (hs_tail ?r)" i] by (simp add: hm_step_def hm_ok_def)
  next
    case (SubmitSeq task pos)
    have "unat pos \<le> ?t"
      using sys_pc [OF s, of i] SubmitSeq by simp
    then have "hs_sequence ?r ! hs_index pos = pos \<Longrightarrow> pc_ok ?h ?t ?S ?D (hm_tickets m) (SubmitCas task pos)"
      by (auto simp: hs_index_eq)
    then show ?thesis
      using len SubmitSeq sys_private [OF s, of "SubmitCas task pos" i] sys_private [OF s, of "SubmitLoad task" i]
        sys_private [OF s, of SubmitFull i] by (auto simp: hm_step_def hm_ok_def Let_def)
  next
    case (SubmitCas task pos)
    then show ?thesis
      using len room sys_claim [OF s SubmitCas] sys_private [OF s, of "SubmitSeq task (hs_tail ?r)" i]
      by (auto simp: hm_step_def hm_ok_def unat_plus_1)
  next
    case (SubmitData task pos)
    then show ?thesis
      using len sys_write [OF s SubmitData] upd_cell [of "hs_index pos" "hs_data ?r" id "encode_task task"]
      by (simp add: hm_step_def hm_ok_def hs_index_eq)
  next
    case (SubmitPublish task pos)
    have "unat pos < ?t"
      using sys_pc [OF s, of i] SubmitPublish by (simp add: claimed_ok_def)
    then have "unat (pos + 1) = unat pos + 1"
      using room by (intro unat_plus_1) simp
    then show ?thesis
      using len SubmitPublish sys_publish [OF s SubmitPublish] upd_cell [of "hs_index pos" "hs_sequence ?r" unat "pos + 1"]
      by (simp add: hm_step_def hm_ok_def hs_store_seq_def hs_index_eq)
  qed (use pc in simp_all)
qed

lemma hm_dispatch_ok:
  assumes ok: "hm_ok m" and room: "unat (hs_tail (hm_ring m)) + 17 < 2 ^ 64"
    and pc: "\<not> submitting (hm_threads m i)"
  shows "hm_ok (hm_step m (i, Advance strong))"
proof -
  let ?r = "hm_ring m" and ?pc = "hm_threads m i"
  let ?h = "unat (hs_head ?r)" and ?t = "unat (hs_tail ?r)"
  let ?S = "\<lambda>i. unat (hs_sequence ?r ! i)" and ?D = "\<lambda>i. hs_data ?r ! i"
  have len: "length (hs_sequence ?r) = 16" "length (hs_data ?r) = 16"
      and s: "sys_ok ?h ?t ?S ?D (hm_tickets m) (hm_threads m) (hm_taken m)"
    using ok by (auto simp: hm_ok_def Let_def)
  have ht: "?h \<le> ?t"
    using sys_ring [OF s] by (simp add: ring_ok_def)
  show ?thesis
  proof (cases ?pc)
    case DispatchLoad
    then show ?thesis
      using len sys_private [OF s, of "DispatchSeq (hs_head ?r)" i] by (simp add: hm_step_def hm_ok_def)
  next
    case (DispatchSeq pos)
    have le: "unat pos \<le> ?h"
      using sys_pc [OF s, of i] DispatchSeq by simp
    then have "unat (pos + 1) = unat pos + 1"
      using room ht by (intro unat_plus_1) simp
    then have "hs_sequence ?r ! hs_index pos = pos + 1 \<Longrightarrow> pc_ok ?h ?t ?S ?D (hm_tickets m) (DispatchCas pos)"
      using le ring_published [OF sys_ring [OF s]] by (auto simp: hs_index_eq)
    then show ?thesis
      using len DispatchSeq sys_private [OF s, of "DispatchCas pos" i] sys_private [OF s, of DispatchLoad i]
        sys_private [OF s, of DispatchDone i] by (auto simp: hm_step_def hm_ok_def Let_def)
  next
    case (DispatchCas pos)
    then show ?thesis
      using len room ht sys_take [OF s DispatchCas] sys_private [OF s, of "DispatchSeq (hs_head ?r)" i]
      by (auto simp: hm_step_def hm_ok_def unat_plus_1)
  next
    case (DispatchTake pos)
    then show ?thesis
      using len sys_got [OF s DispatchTake] by (simp add: hm_step_def hm_ok_def hs_index_eq)
  next
    case (DispatchRelease pos val)
    have "unat pos < ?h"
      using sys_pc [OF s, of i] DispatchRelease by (simp add: drained_ok_def)
    then have "unat (pos + 1) = unat pos + 1" "unat (pos + 16) = unat pos + 16"
      using room ht by (intro unat_plus_1 unat_plus_16; simp)+
    then show ?thesis
      using len DispatchRelease sys_release [OF s DispatchRelease, of "pos + 1"]
        upd_cell [of "hs_index pos" "hs_sequence ?r" unat "pos + 16"]
      by (simp add: hm_step_def hm_ok_def hs_store_seq_def hs_index_eq)
  qed (use pc ok in \<open>simp_all add: hm_step_def hm_ok_def fun_upd_idem\<close>)
qed

lemma hm_start_ok: "hm_ok m \<Longrightarrow> hs_finished (hm_threads m i) \<Longrightarrow> hm_ok (hm_step m (i, StartSubmit w))"
  "hm_ok m \<Longrightarrow> hs_finished (hm_threads m i) \<Longrightarrow> hm_ok (hm_step m (i, StartDispatch))"
  by (cases "hm_threads m i"; auto simp: hm_ok_def hm_step_def start_submit_def Let_def intro!: sys_private)+

lemma hm_step_ok:
  assumes ok: "hm_ok m" and room: "unat (hs_tail (hm_ring m)) + 17 < 2 ^ 64"
  shows "hm_ok (hm_step m a)"
proof -
  obtain i x where a: "a = (i, x)" by (cases a)
  have idle: "hm_step m (i, x) = m" if "hs_thread_step (hm_ring m) x (hm_threads m i) = (hm_ring m, hm_threads m i)"
  proof -
    have "ticket_of pc pc = []" "taken_of pc pc = []" for pc
      by (cases pc; simp)+
    with that show ?thesis by (simp add: hm_step_def fun_upd_idem)
  qed
  show ?thesis
  proof (cases x)
    case (StartSubmit w)
    with a ok hm_start_ok(1) [OF ok, of i w] idle show ?thesis
      by (cases "hs_finished (hm_threads m i)") auto
  next
    case StartDispatch
    with a ok hm_start_ok(2) [OF ok, of i] idle show ?thesis
      by (cases "hs_finished (hm_threads m i)") auto
  next
    case (Advance strong)
    with a hm_submit_ok [OF assms, of i strong] hm_dispatch_ok [OF assms, of i strong] show ?thesis
      by (cases "submitting (hm_threads m i)") auto
  qed
qed

lemma hm_step_tail:
  assumes "unat (hs_tail (hm_ring m)) + 1 < 2 ^ 64"
  shows "unat (hs_tail (hm_ring (hm_step m a))) \<le> unat (hs_tail (hm_ring m)) + 1"
proof -
  have submit: "unat (hs_tail (fst (submit_step h strong pc))) \<le> unat (hs_tail h) + 1"
    if "unat (hs_tail h) + 1 < 2 ^ 64" for h strong pc
    using that by (cases pc) (auto simp: Let_def unat_plus_1 hs_store_seq_def)
  have dispatch: "hs_tail (fst (dispatch_step h strong pc)) = hs_tail h" for h strong pc
    by (cases pc) (auto simp: Let_def hs_store_seq_def)
  have "unat (hs_tail (fst (hs_thread_step (hm_ring m) x pc))) \<le> unat (hs_tail (hm_ring m)) + 1" for x and pc
    using submit [OF assms] dispatch by (cases x) (auto simp: start_submit_def)
  then show ?thesis
    by (simp add: hm_step_def Let_def case_prod_beta)
qed

lemma hm_initial_ok: "hm_ok hm_initial"
proof -
  have "(\<forall>i. takes ((\<lambda>_. HsIdle) i) \<noteq> Some p)" for p by simp
  moreover have "unat (hs_sequence hsched_new ! i) = i" if "i < 16" for i
    using that by (simp add: hsched_new_def unat_of_nat)
  ultimately show ?thesis
    by (auto simp: hm_ok_def hm_initial_def hsched_new_def sys_ok_def ring_ok_def sole_def owned_def taken_ok_def)
qed

lemma hm_run_ok:
  assumes "length acts < 2 ^ 63"
  shows "hm_ok (hm_run acts) \<and> unat (hs_tail (hm_ring (hm_run acts))) \<le> length acts"
  using assms
proof (induction acts rule: rev_induct)
  case Nil
  then show ?case by (simp add: hm_run_def hm_initial_ok) (simp add: hm_initial_def hsched_new_def)
next
  case (snoc a acts)
  then have ok: "hm_ok (hm_run acts)" and le: "unat (hs_tail (hm_ring (hm_run acts))) \<le> length acts"
    by auto
  have "length acts < 2 ^ 63" using snoc.prems by simp
  with le have "unat (hs_tail (hm_ring (hm_run acts))) + 17 < 2 ^ 64" by simp
  with hm_step_ok [OF ok, of a] hm_step_tail [of "hm_run acts" a] le show ?case
    by (simp add: hm_run_def)
qed

text \<open>Every ticket is the encoding of some task.\<close>

lemma tickets_encoded: "x \<in> set (hm_tickets (hm_run acts)) \<Longrightarrow> \<exists>task. x = encode_task task"
proof (induction acts rule: rev_induct)
  case (snoc a acts)
  have "x \<in> set (ticket_of pc pc') \<Longrightarrow> \<exists>task. x = encode_task task" for pc pc'
    by (cases pc; cases pc') auto
  with snoc show ?case
    by (auto simp: hm_run_def hm_step_def Let_def case_prod_beta)
qed (simp add: hm_run_def hm_initial_def)

section \<open>Properties\<close>

lemma idle_owns_nothing: "hs_finished pc \<Longrightarrow> claims pc = None \<and> drains pc = None \<and> takes pc = None"
  by (cases pc) auto

lemma quiet_ring:
  assumes s: "sys_ok h t S D tk T taken" and idle: "\<And>i. hs_finished (T i)"
  shows "fst ` set taken = {..<h}"
    and "\<And>p. h \<le> p \<Longrightarrow> p < t \<Longrightarrow> S (p mod 16) = p + 1 \<and> D (p mod 16) = tk ! p"
    and "\<And>p. t \<le> p \<Longrightarrow> p < h + 16 \<Longrightarrow> S (p mod 16) = p"
proof -
  have none: "claims (T i) = None" "drains (T i) = None" "takes (T i) = None" for i
    using idle_owns_nothing [OF idle] by auto
  show "fst ` set taken = {..<h}"
    using s none by (auto simp: sys_ok_def taken_ok_def)
  show "S (p mod 16) = p + 1 \<and> D (p mod 16) = tk ! p" if "h \<le> p" "p < t" for p
    using s none that unfolding sys_ok_def ring_ok_def owned_def by fastforce
  show "S (p mod 16) = p" if p: "t \<le> p" "p < h + 16" for p
  proof (rule ccontr)
    assume "S (p mod 16) \<noteq> p"
    then have e: "16 \<le> p" "S (p mod 16) + 15 = p"
      using s p by (auto simp: sys_ok_def ring_ok_def)
    then obtain q where q: "p = q + 16"
      by (metis add.commute le_Suc_ex)
    with e p have "q < h \<and> t \<le> q + 16 \<and> S (q mod 16) = q + 1" by simp
    then have "\<exists>i. drains (T i) = Some q"
      using s by (simp add: sys_ok_def owned_def)
    with none show False by simp
  qed
qed

text \<open>
  C10.  However many threads submit and dispatch at once, and however their accesses interleave, no
  task is dispatched twice, every dispatched word is the one its submitter wrote and decodes to a
  task, and at most sixteen tasks are under way; once all threads have returned, exactly the
  positions below the head have been dispatched and every other ticket is in its cell.  The bound on
  the length of the run keeps the 64-bit positions from wrapping around.
\<close>

theorem hsched_exactly_once:
  assumes "length acts < 2 ^ 63" and "hm_run acts = m"
  shows "distinct (map fst (hm_taken m))
    \<and> list_all (\<lambda>(p, v). p < length (hm_tickets m) \<and> v = hm_tickets m ! p \<and> decode_task v \<noteq> None) (hm_taken m)
    \<and> length (hm_tickets m) = unat (hs_tail (hm_ring m))
    \<and> unat (hs_tail (hm_ring m)) \<le> unat (hs_head (hm_ring m)) + 16
    \<and> ((\<forall>i. hs_finished (hm_threads m i)) \<longrightarrow>
         fst ` set (hm_taken m) = {..<unat (hs_head (hm_ring m))}
         \<and> (\<forall>p. unat (hs_head (hm_ring m)) \<le> p \<and> p < unat (hs_tail (hm_ring m)) \<longrightarrow>
              hs_data (hm_ring m) ! (p mod 16) = hm_tickets m ! p))"
proof -
  let ?r = "hm_ring m"
  have s: "sys_ok (unat (hs_head ?r)) (unat (hs_tail ?r)) (\<lambda>i. unat (hs_sequence ?r ! i)) (\<lambda>i. hs_data ?r ! i)
      (hm_tickets m) (hm_threads m) (hm_taken m)"
    using hm_run_ok [OF assms(1)] assms(2) by (simp add: hm_ok_def Let_def)
  have "p < length (hm_tickets m) \<and> v = hm_tickets m ! p \<and> decode_task v \<noteq> None" if pv: "(p, v) \<in> set (hm_taken m)" for p v
  proof -
    have "p \<in> fst ` set (hm_taken m)"
      using pv by force
    then have p: "p < length (hm_tickets m)" and v: "v = hm_tickets m ! p"
      using s pv by (auto simp: sys_ok_def taken_ok_def ring_ok_def)
    with tickets_encoded [of v acts] assms(2) show ?thesis
      by auto
  qed
  then show ?thesis
    using s quiet_ring [OF s] by (auto simp: sys_ok_def taken_ok_def ring_ok_def list_all_iff)
qed

definition sample_acts :: "(nat \<times> unit hs_action) list" where
  "sample_acts = (0, StartSubmit GpuCompute) # replicate 5 (0, Advance True)
     @ (1, StartDispatch) # replicate 6 (1, Advance True)"

theorem hsched_exactly_once_witness:
  "map fst (hm_taken (hm_run sample_acts)) = [0] \<and> distinct (map fst (hm_taken (hm_run sample_acts)))"
proof
  show "map fst (hm_taken (hm_run sample_acts)) = [0]"
    by (simp add: sample_acts_def hm_run_def hm_initial_def hsched_new_def hm_step_def start_submit_def
      hs_index_def hs_store_seq_def eval_nat_numeral upt_conv_Cons)
  show "distinct (map fst (hm_taken (hm_run sample_acts)))"
    using hsched_exactly_once [of sample_acts, OF _ refl] by (simp add: sample_acts_def)
qed

text \<open>
  C31.  A submission that nothing disturbs returns after at most five accesses: it is accepted with
  the next task number when fewer than sixteen tasks are waiting and refused when the ring is full.
\<close>

theorem submit_alone:
  assumes run: "hm_run acts = m" "length acts < 2 ^ 62" and idle: "\<forall>i. hs_finished (hm_threads m i)"
  shows "\<exists>r. submit_workload (hm_ring m) workload =
    Some (r, if unat (hs_tail (hm_ring m)) < unat (hs_head (hm_ring m)) + 16
             then SubmitDone (hs_next_id (hm_ring m)) else SubmitFull)"
proof -
  let ?r = "hm_ring m"
  let ?h = "unat (hs_head ?r)" and ?t = "unat (hs_tail ?r)" and ?S = "\<lambda>i. unat (hs_sequence ?r ! i)"
  have s: "sys_ok ?h ?t ?S (\<lambda>i. hs_data ?r ! i) (hm_tickets m) (hm_threads m) (hm_taken m)" and lt: "?t < 2 ^ 62"
    using hm_run_ok [of acts] run by (auto simp: hm_ok_def Let_def)
  show ?thesis
  proof (cases "?t < ?h + 16")
    case True
    have "?S (?t mod 16) = ?t"
      using quiet_ring(3) [OF s _ _ True] idle by simp
    then have "hs_sequence ?r ! hs_index (hs_tail ?r) = hs_tail ?r"
      by (simp add: hs_index_eq word_unat_eq_iff)
    then show ?thesis
      using True by (simp add: submit_workload_def start_submit_def eval_nat_numeral)
  next
    case False
    then have t: "?t = ?h + 16"
      using sys_ring [OF s] by (simp add: ring_ok_def)
    have "?S (?h mod 16) = ?h + 1"
      using quiet_ring(2) [OF s, of ?h] idle t by simp
    then have "unat (hs_sequence ?r ! hs_index (hs_tail ?r)) + 15 = ?t"
      using t by (simp add: hs_index_eq)
    then have "hs_tail ?r = hs_sequence ?r ! hs_index (hs_tail ?r) + 15"
      using lt unat_plus_small [of "hs_sequence ?r ! hs_index (hs_tail ?r)" 15] by (simp add: word_unat_eq_iff)
    then have "hs_sequence ?r ! hs_index (hs_tail ?r) - hs_tail ?r = - 15"
      by (metis add_diff_cancel_left' minus_diff_eq)
    then show ?thesis
      using False by (simp add: submit_workload_def start_submit_def eval_nat_numeral Let_def)
  qed
qed

theorem submit_alone_witness:
  "\<exists>r. submit_workload hsched_new (CpuAvx512 :: unit workload_type) = Some (r, SubmitDone 1)"
proof -
  have "hm_run ([] :: (nat \<times> unit hs_action) list) = hm_initial"
    by (simp add: hm_run_def)
  from submit_alone [OF this, of "CpuAvx512 :: unit workload_type"] show ?thesis
    by (simp add: hm_initial_def) (simp add: hm_initial_def hsched_new_def)
qed

end
