(* ===== verification/Spec2Isabelle.thy ===== *)
theory Spec2Isabelle
  imports Heap Pager SchedRun Tmpfs InitExec Uaccess Lcl Hsched
begin

text \<open>
  A verification library for HXNU, a small operating system kernel in Rust
  (\<^verbatim>\<open>src/kernel/src\<close>).  Each theory models one component of the kernel and proves what the rest
  of the kernel relies on; this theory imports them all and proves the property that spans them.

  \<^bold>\<open>The program.\<close>  At boot the kernel takes the memory map of the boot loader, sets up the frame
  allocator and the heap, the compressed page store and the pager, mounts its file systems, and
  loads \<^verbatim>\<open>/initrd/init\<close> from the boot archive into a new address space.  From then on the timer drives
  a round-robin scheduler, programs enter the kernel by system calls that copy to and from
  their memory, and the first program is started again when it exits.

  \<^bold>\<open>How the code is modelled.\<close>  A global of the source is a record that every operation takes and
  returns.  Words keep their width and wrap as in the release build; a \<^verbatim>\<open>usize\<close> that counts or indexes
  is a natural number.  A Rust \<^verbatim>\<open>Result\<close> is an \<open>outcome\<close>: a value, an error, or \<open>Panic\<close> where an
  index, a slice or an \<^verbatim>\<open>unwrap\<close> would panic.  Text is the list of its UTF-8 bytes.  What comes from
  outside (boot modules, sectors of a disk, addresses of static stacks, the page table register,
  console figures) is an argument.  \<open>Prelude\<close> has this vocabulary, \<open>Text\<close> the string functions.

  \<^bold>\<open>Memory.\<close>
  \<^item> \<open>Frame\<close> (\<^verbatim>\<open>mm/frame.rs\<close>, memory map of \<^verbatim>\<open>limine.rs\<close>): frames handed out never overlap, lie
    in usable memory, and a request is refused only when nothing is left.  Locale \<open>frame_source\<close>.
  \<^item> \<open>Heap\<close> (\<^verbatim>\<open>mm/heap.rs\<close>): live blocks are disjoint and inside the heap under any
    interleaving of allocation and release.
  \<^item> \<open>Codec\<close>, \<open>Compress\<close>, \<open>Store\<close>, \<open>Pager\<close> (\<^verbatim>\<open>mm/compress/\<close>, \<^verbatim>\<open>mm/pager.rs\<close>): pages survive
    encoding, storing and restoring; the decoder never panics and detects a changed byte.  The
    contracts between the layers are the locales \<open>page_codec\<close> and \<open>page_store\<close>, each interpreted at
    the layer below.
  \<^item> \<open>Paging\<close>, \<open>PageMap\<close>, \<open>UserPages\<close> (\<^verbatim>\<open>arch/x86_64/early_map.rs\<close>): four-level page tables in
    physical memory.  \<open>space_ok\<close> is the invariant of an address space, \<open>user_view\<close> the byte the
    processor finds at an address; mapping a page changes the view of that page and no other.
  \<^item> \<open>Uaccess\<close> (\<^verbatim>\<open>uaccess.rs\<close>): the range check is characterised exactly, and a copy out is read back
    by a copy in.

  \<^bold>\<open>Scheduling.\<close>
  \<^item> \<open>Sched\<close>, \<open>SchedInv\<close>, \<open>SchedRun\<close> (\<^verbatim>\<open>sched.rs\<close>, \<^verbatim>\<open>arch/x86_64/context.rs\<close>): every operation keeps
    the table invariant and refines an abstract step relation; orderly runs are fair.  Runs in
    which a child is reaped can break the table; the last theorems of \<open>SchedRun\<close> show how.  Of a
    user thread the context and its page table are kept; the trap frame with entry point
    and stack pointer that is built on the kernel stack is not.
  \<^item> \<open>Hsched\<close> (\<^verbatim>\<open>hsched.rs\<close>): the lock-free ring, interleaved access by access; every task is
    dispatched at most once.
  \<^item> \<open>Lcl\<close> (the message queue of \<^verbatim>\<open>syscall.rs\<close>): a bounded queue, by the locale \<open>bounded_fifo\<close>.

  \<^bold>\<open>Files and programs.\<close>
  \<^item> \<open>Path\<close>, \<open>Tmpfs\<close>, \<open>Fat\<close>, \<open>Devfs\<close>, \<open>Initrd\<close>, \<open>Vfs\<close> (\<^verbatim>\<open>tmpfs.rs\<close>, \<^verbatim>\<open>fat.rs\<close>, \<^verbatim>\<open>devfs.rs\<close>,
    \<^verbatim>\<open>procfs.rs\<close>, \<^verbatim>\<open>initrd.rs\<close>, \<^verbatim>\<open>vfs.rs\<close>): path normalisation as a rewriting system, the temporary
    file system as a map, chains of clusters, the boot archive as the inverse of its format,
    and the name space over all of them.  Parsers never panic on any input.
  \<^item> \<open>Exec\<close> (\<^verbatim>\<open>exec.rs\<close>): parsing inverts the ELF format, and the load plan covers each segment.
  \<^item> \<open>Loader\<close>, \<open>ElfImage\<close>, \<open>UserStack\<close>, \<open>InitExec\<close> (\<^verbatim>\<open>init_exec.rs\<close>): the activation of an image, the
    pages of its segments, the initial stack, spawning, and the restart of the first program.
    \<open>load_segments\<close> leaves exactly \<open>image_view\<close>; the stack reads as \<open>stack_image\<close>; there
    are at most four restarts.
  \<^item> Below, \<open>boot_program_runs\<close> composes the archive, the name space, the ELF parser, the page
    tables, the loader and the scheduler.

  \<^bold>\<open>Loops and bounds.\<close>  Loops over data are structural recursion.  Loops that advance an address have
  a measure.  The loop that follows links on a disk is a partial function, and its termination is a
  theorem.  The tries of a lock-free submission are a run of single accesses; that an undisturbed
  submission returns within five of them is a theorem.  Hypotheses on sizes are those of the
  machine: physical memory below \<open>2 ^ 52\<close>, user addresses below \<open>2 ^ 47\<close>.  The layout of the stack
  is proved for arguments and environment that fit into its topmost page, because beyond it the
  code writes past a frame; segments must be in address order, because the code recognises only
  the page mapped last as shared.

  \<^bold>\<open>Not modelled.\<close>  The system call dispatcher, the open-file table and the handlers of \<^verbatim>\<open>syscall.rs\<close>;
  the regions, page-fault filling and address-space copy of \<^verbatim>\<open>mm/vmm.rs\<close> (the copy is an argument of
  the scheduler); the console of \<^verbatim>\<open>tty.rs\<close>; the identifier of \<^verbatim>\<open>secinter.rs\<close>, which nothing calls;
  texts built from run-time statistics, error messages and log output.  Code that is only register,
  port or device-memory access: \<^verbatim>\<open>interrupts.rs\<close> and the rest of \<^verbatim>\<open>arch\<close>, \<^verbatim>\<open>acpi.rs\<close>, \<^verbatim>\<open>fb.rs\<close>,
  \<^verbatim>\<open>serial.rs\<close>, \<^verbatim>\<open>power.rs\<close>, \<^verbatim>\<open>time.rs\<close>, \<^verbatim>\<open>smp.rs\<close>, \<^verbatim>\<open>percpu.rs\<close>, \<^verbatim>\<open>vector.rs\<close>, the drivers, and the boot
  program \<^verbatim>\<open>gboot\<close>.  The translation look-aside buffer, weak memory ordering and the locks around
  critical sections are left out: a critical section is one step.  \<^verbatim>\<open>main.rs\<close> only calls the
  initialisers in order and prints.
\<close>

section \<open>From the boot archive to a running process\<close>

lemma load_header_mappable:
  assumes "user_program f"
  shows "\<forall>r \<in> set (ef_headers f). is_loadable (cooked r) \<longrightarrow> mappable (cooked r)"
proof (intro ballI impI)
  fix r assume r: "r \<in> set (ef_headers f)" "is_loadable (cooked r)"
  then obtain i where "i < length (ef_headers f)" "ef_headers f ! i = r"
    by (auto simp: in_set_conv_nth)
  with r(2) have "(i, cooked r) \<in> set (load_headers f)"
    by (auto simp: load_headers_def in_set_enumerate_eq)
  with assms have "user_header (elf_encode f) (cooked r)"
    by (auto simp: user_program_def)
  then show "mappable (cooked r)"
    by (rule user_header_mappable)
qed

text \<open>The segments of a program, rounded to pages, end below the stack.\<close>

definition below_stack :: "elf_file \<Rightarrow> bool" where
  "below_stack f = (\<forall>(i, h) \<in> set (load_headers f). header_end h + 4096 \<le> unat stack_bottom)"

lemma elf_loadable_image:
  assumes f: "user_program f" "linked_in_order f" "below_stack f"
    and a: "ai_segments a = map (elf_segment (elf_encode f)) (load_headers f)"
  shows "loadable_image a"
proof -
  have len: "length (elf_encode f) < 2 ^ 63" and users: "\<forall>(i, h) \<in> set (load_headers f). user_header (elf_encode f) h"
    using f(1) by (auto simp: user_program_def good_elf_def)
  have "\<forall>(i, h) \<in> set (load_headers f). user_header (elf_encode f) h \<and> unat 0 \<le> unat (ls_map_start (planned (i, h)))"
    using users by auto
  from elf_ascending [OF len this] f(2) have "ascending 0 (ai_segments a)"
    by (simp add: a linked_in_order_def)
  moreover have "as_map_end (elf_segment (elf_encode f) (i, h)) \<le> stack_bottom" if ih: "(i, h) \<in> set (load_headers f)" for i h
  proof -
    have h: "user_header (elf_encode f) h" "header_end h + 4096 \<le> unat stack_bottom"
      using users f(3) ih by (auto simp: below_stack_def)
    show ?thesis
      using user_header_facts(8) [OF h(1) len, of i] h(2) elf_segment_facts(6) [OF h(1) len, of i]
      by (simp add: word_le_nat_alt)
  qed
  ultimately show ?thesis
    by (auto simp: loadable_image_def a)
qed

lemma stack_fits_any:
  "length (stack_image 0 0 0 argv envp) \<le> 4096 \<Longrightarrow> stack_fits a argv envp"
  by (simp add: stack_fits_def length_stack_image)

lemma process_view_program:
  assumes f: "user_program f" "linked_in_order f" "below_stack f"
    and a: "ai_segments a = map (elf_segment (elf_encode f)) (load_headers f)"
    and ih: "(i, h) \<in> set (load_headers f)" and k: "k < unat (ph_memory_size h)"
  shows "process_view a argv envp (ph_virtual_address h + of_nat k) = Some (header_byte (elf_encode f) h k)"
    "unat (ph_virtual_address h + of_nat k) < 2 ^ 47"
proof -
  have len: "length (elf_encode f) < 2 ^ 63" and users: "\<forall>(i, h) \<in> set (load_headers f). user_header (elf_encode f) h"
    using f(1) by (auto simp: user_program_def good_elf_def)
  have h: "header_end h + 4096 \<le> unat stack_bottom" "unat stack_bottom = 0x7ffffffe0000"
    using f(3) ih by (auto simp: below_stack_def stack_bottom_def USER_STACK_TOP_def STACK_PAGES_def)
  then have v: "unat (ph_virtual_address h + of_nat k) = unat (ph_virtual_address h) + k"
    using k by (subst unat_add_less) (auto simp: header_end_def unat_of_nat)
  then show "unat (ph_virtual_address h + of_nat k) < 2 ^ 47"
    using h k by (simp add: header_end_def)
  have "\<not> on_stack (ph_virtual_address h + of_nat k)"
    using v h k by (simp add: on_stack_def word_le_nat_alt header_end_def)
  then show "process_view a argv envp (ph_virtual_address h + of_nat k) = Some (header_byte (elf_encode f) h k)"
    using elf_image_byte [OF len users _ ih k] f(2) by (simp add: process_view_def Let_def a linked_in_order_def)
qed

text \<open>
  C1.  From the boot archive to a running process.  When the boot module is a \<^verbatim>\<open>newc\<close> archive that
  holds an ELF program for the user half, with segments in address order, then spawning its path
  either reports that the frames are used up or that the scheduler refused the thread, or it
  creates a thread whose page table shows, at every address of every loadable segment, the byte of
  the file the program header names, and zero beyond the bytes of the file.
\<close>

theorem boot_program_runs:
  assumes "ve_state (ien_vfs env) = Some True"
    and "ve_initrd (ien_vfs env) = boot_initrd path label (newc_encode (xs @ it # ys) @ rest)"
    and "\<forall>it \<in> set (xs @ it # ys). good_item it"
    and "item_path it \<noteq> INITRD_ROOT" and "item_path it \<notin> (\<Union>x \<in> set xs. unpacked_paths x)"
    and "ni_mode it AND FILE_TYPE_MASK \<noteq> FILE_TYPE_DIRECTORY" and "normal_path (item_path it)"
    and "ni_data it = elf_encode f" and "user_program f" and "linked_in_order f" and "below_stack f"
    and "length (stack_image 0 0 0 argv envp) \<le> 4096"
    and "ien_hhdm env = Some h" and "kernel_half P h (ien_cr3 env AND PAGE_ADDRESS_MASK) (isy_pages y)"
    and "spawn_executable env y (item_path it) argv envp = (y', res)"
  shows "not_started env y y' res \<or>
    (\<exists>p r. res = Ok p \<and> started env y y' p r \<and>
      (\<forall>(i, hd) \<in> set (load_headers f). \<forall>k < unat (ph_memory_size hd).
        user_view h r (isy_pages y') (ph_virtual_address hd + of_nat k) = Some (header_byte (elf_encode f) hd k)))"
proof -
  have good: "good_elf f" using assms(9) by (simp add: user_program_def)
  obtain prep where prep: "prepare_executable_load (ien_vfs env) (item_path it) = Ok prep" "prepared f prep"
      "ec_mount prep = MountInitrd" "ec_path prep = item_path it"
    using prepare_boot_program [OF assms(1-8) good load_header_mappable [OF assms(9)]]
    by (auto simp: returns_iff prepared_def)
  have bytes: "read_executable_bytes (ien_vfs env) MountInitrd (item_path it) = Some (elf_encode f)"
    using boot_program_bytes [OF assms(2-6)] assms(8) by simp
  obtain a where a: "build_activation prep (elf_encode f) = Ok a" "ai_segments a = map (elf_segment (elf_encode f)) (load_headers f)"
    using build_activation_elf [OF assms(9) prep(2)] by blast
  have "start_process env y a argv envp = (y', res)"
    using assms(15) prep a(1) bytes by (simp add: spawn_executable_def)
  from start_process_ok [OF assms(13,14) elf_loadable_image [OF assms(9-11) a(2)] stack_fits_any [OF assms(12)] this]
  show ?thesis
  proof (elim disjE exE conjE)
    fix p r
    assume ok: "res = Ok p" "started env y y' p r"
      and view: "\<forall>v. unat v < 2 ^ 47 \<longrightarrow> user_view h r (isy_pages y') v = process_view a argv envp v"
    have "user_view h r (isy_pages y') (ph_virtual_address hd + of_nat k) = Some (header_byte (elf_encode f) hd k)"
      if "(i, hd) \<in> set (load_headers f)" "k < unat (ph_memory_size hd)" for i hd k
      using process_view_program [OF assms(9-11) a(2) that] view by simp
    with ok show ?thesis by blast
  qed simp
qed

theorem boot_program_runs_witness:
  "\<exists>y' res. spawn_executable hello_env \<lparr>isy_exec = init_exec_new, isy_pages = demo_state 0, isy_sched = scheduler_new\<rparr>
       ''/initrd/init'' [''/initrd/init''] [] = (y', res) \<and>
     (not_started hello_env \<lparr>isy_exec = init_exec_new, isy_pages = demo_state 0, isy_sched = scheduler_new\<rparr> y' res \<or>
      (\<exists>r. user_view demo_hhdm r (isy_pages y') 0x401008 = Some (elf_encode hello_file ! 8)))"
proof -
  let ?y = "\<lparr>isy_exec = init_exec_new, isy_pages = demo_state 0, isy_sched = scheduler_new\<rparr>"
  obtain y' res where call: "spawn_executable hello_env ?y (item_path hello_item) [''/initrd/init''] [] = (y', res)"
    by (cases "spawn_executable hello_env ?y (item_path hello_item) [''/initrd/init''] []")
  have "linked_in_order hello_file" "below_stack hello_file"
    by (simp_all add: linked_in_order_def below_stack_def hello_headers header_end_def sample_header_def
        stack_bottom_def USER_STACK_TOP_def STACK_PAGES_def)
  moreover have "length (stack_image 0 0 0 [''/initrd/init''] []) \<le> 4096"
    by (simp add: length_stack_image string_space_def string_area_def c_bytes_def bytes_of_def)
  moreover have "ien_hhdm hello_env = Some demo_hhdm" "kernel_half 0x200000 demo_hhdm (ien_cr3 hello_env AND PAGE_ADDRESS_MASK) (isy_pages ?y)"
    using demo_kernel_half by (simp_all add: hello_env_def PAGE_ADDRESS_MASK_def)
  ultimately have "not_started hello_env ?y y' res \<or>
    (\<exists>p r. res = Ok p \<and> started hello_env ?y y' p r \<and>
      (\<forall>(i, hd) \<in> set (load_headers hello_file). \<forall>k < unat (ph_memory_size hd).
        user_view demo_hhdm r (isy_pages y') (ph_virtual_address hd + of_nat k) = Some (header_byte (elf_encode hello_file) hd k)))"
    using boot_program_runs [OF hello_boot(1-3,5-9) hello_program(1) _ _ _ _ _ call] by blast
  then have "not_started hello_env ?y y' res \<or>
      (\<exists>r. user_view demo_hhdm r (isy_pages y') (ph_virtual_address sample_header + of_nat 0) = Some (header_byte (elf_encode hello_file) sample_header 0))"
    by (fastforce simp: hello_headers sample_header_def)
  then show ?thesis
    using call by (auto simp: hello_boot(4) header_byte_def sample_header_def)
qed

end
